(* ===== verification/Prelude.thy ===== *)
theory Prelude
  imports Main
begin

text \<open>
  Shared vocabulary of the development: the faults a C++ operation can run into, the
  result type of a computation that may fault, checked accesses to vectors and arrays, the
  integer conversions of the source language, and the loop combinator \<open>rfold\<close> with the
  rules by which loops are reasoned about.
\<close>

section \<open>Faults and results\<close>

text \<open>
  C++ leaves an out-of-range \<open>operator[]\<close>, a dangling pointer, a division by zero and a
  signed overflow undefined; \<open>std::stoi\<close> and the Z3 C++ API throw. A model operation that
  reaches such a point stops with the fault as its result.
\<close>

datatype fault =
    Out_Of_Range
  | Bad_Pointer
  | Division_By_Zero
  | Signed_Overflow
  | Invalid_Argument
  | Solver_Exception

type_synonym 'a result = "fault + 'a"

fun rbind :: "'a result \<Rightarrow> ('a \<Rightarrow> 'b result) \<Rightarrow> 'b result" where
  "rbind (Inl e) f = Inl e"
| "rbind (Inr x) f = f x"

named_theorems result_simps \<open>normal forms of fallible computations\<close>

lemma rbind_Inr_iff [result_simps]: "rbind m f = Inr y \<longleftrightarrow> (\<exists>x. m = Inr x \<and> f x = Inr y)"
  by (cases m) auto

lemma rbind_assoc [result_simps]: "rbind (rbind m f) g = rbind m (\<lambda>x. rbind (f x) g)"
  by (cases m) auto

lemma rbind_return [simp]: "rbind m Inr = m"
  by (cases m) auto

section \<open>Checked vector access\<close>

definition vget :: "'a list \<Rightarrow> nat \<Rightarrow> 'a result" where
  "vget xs i = (if i < length xs then Inr (xs ! i) else Inl Out_Of_Range)"

definition vset :: "'a list \<Rightarrow> nat \<Rightarrow> 'a \<Rightarrow> 'a list result" where
  "vset xs i v = (if i < length xs then Inr (xs[i := v]) else Inl Out_Of_Range)"

lemma vget_in [simp]: "i < length xs \<Longrightarrow> vget xs i = Inr (xs ! i)"
  by (simp add: vget_def)

lemma vget_Inr_iff [result_simps]: "vget xs i = Inr x \<longleftrightarrow> i < length xs \<and> x = xs ! i"
  by (auto simp: vget_def)

lemma vset_in [simp]: "i < length xs \<Longrightarrow> vset xs i v = Inr (xs[i := v])"
  by (simp add: vset_def)

lemma vset_Inr_iff [result_simps]: "vset xs i v = Inr ys \<longleftrightarrow> i < length xs \<and> ys = xs[i := v]"
  by (auto simp: vset_def)

section \<open>Integers of the source language\<close>

definition INT_MAX :: int where
  "INT_MAX = 2147483647"

definition to_u32 :: "int \<Rightarrow> nat" where
  \<comment> \<open>conversion of an \<open>int\<close> to \<open>unsigned\<close>, as in a mixed comparison\<close>
  "to_u32 i = nat (i mod 4294967296)"

lemma to_u32_of_nat [simp]: "int n \<le> INT_MAX \<Longrightarrow> to_u32 (int n) = n"
  by (simp add: to_u32_def INT_MAX_def)

section \<open>Loops\<close>

primrec rfold :: "('i \<Rightarrow> 's \<Rightarrow> 's result) \<Rightarrow> 'i list \<Rightarrow> 's \<Rightarrow> 's result" where
  "rfold f [] s = Inr s"
| "rfold f (x # xs) s = rbind (f x s) (rfold f xs)"

lemma rfold_Nil_fun [simp]: "rfold f [] = Inr"
  by (simp add: fun_eq_iff)

lemma rfold_single [simp]: "rfold f [x] = f x"
  by (simp add: fun_eq_iff)

lemma rfold_append [result_simps]:
  "rfold f (xs @ ys) s = rbind (rfold f xs s) (rfold f ys)"
proof (induction xs arbitrary: s)
  case (Cons x xs)
  then show ?case by (cases "f x s") simp_all
qed simp

lemma rfold_map [simp]: "rfold f (map g xs) = rfold (\<lambda>x. f (g x)) xs"
proof (induction xs)
  case (Cons x xs)
  show ?case by (rule ext) (simp add: Cons)
qed (simp add: fun_eq_iff)

lemma rfold_cong:
  assumes "\<And>x s. x \<in> set xs \<Longrightarrow> f x s = g x s"
  shows "rfold f xs s = rfold g xs s"
  using assms
proof (induction xs arbitrary: s)
  case (Cons x xs)
  then have "rfold f xs = rfold g xs" by (intro ext) simp
  with Cons.prems show ?case by simp
qed simp

text \<open>Total correctness of a loop from an invariant that every iteration keeps.\<close>

lemma rfold_total:
  assumes "\<And>x s. x \<in> set xs \<Longrightarrow> P s \<Longrightarrow> \<exists>s'. f x s = Inr s' \<and> P s'" and "P s"
  shows "\<exists>s'. rfold f xs s = Inr s' \<and> P s'"
  using assms
proof (induction xs arbitrary: s)
  case Nil
  then show ?case by simp
next
  case (Cons x xs)
  from Cons.prems obtain s1 where s1: "f x s = Inr s1" "P s1"
    by (meson list.set_intros(1))
  from Cons.IH [OF _ s1(2)] Cons.prems(1) obtain s' where "rfold f xs s1 = Inr s'" "P s'"
    by (meson list.set_intros(2))
  with s1 show ?case by simp
qed

text \<open>The same with an invariant that counts the iterations of a \<open>for\<close> loop.\<close>

lemma rfold_upt_total:
  assumes step: "\<And>k s. k < n \<Longrightarrow> P k s \<Longrightarrow> \<exists>s'. f k s = Inr s' \<and> P (Suc k) s'"
    and start: "P 0 s"
  shows "\<exists>s'. rfold f [0..<n] s = Inr s' \<and> P n s'"
proof -
  have "k \<le> n \<Longrightarrow> \<exists>s'. rfold f [0..<k] s = Inr s' \<and> P k s'" for k
  proof (induction k)
    case 0
    with start show ?case by simp
  next
    case (Suc k)
    then obtain s1 where s1: "rfold f [0..<k] s = Inr s1" "P k s1" by auto
    with step [of k s1] Suc.prems obtain s2 where "f k s1 = Inr s2" "P (Suc k) s2" by auto
    with s1 show ?case by (simp add: rfold_append)
  qed
  then show ?thesis by blast
qed

text \<open>Partial correctness: what a loop keeps whenever it returns.\<close>

lemma rfold_invariant:
  assumes "rfold f xs s = Inr s'" and "P s"
    and "\<And>x s s'. x \<in> set xs \<Longrightarrow> P s \<Longrightarrow> f x s = Inr s' \<Longrightarrow> P s'"
  shows "P s'"
  using assms by (induction xs arbitrary: s) (auto simp: rbind_Inr_iff)

end
