(* ===== verification/Verdict_Exchange.thy ===== *)
theory Verdict_Exchange
  imports Prelude
begin

text \<open>
  What the monitors of a room promise each other. A monitor's knowledge is the partial map
  from monitor numbers to the verdicts it holds; sharing copies the sender's entries into
  the receiver. \<open>gossip\<close> is the abstract specification of a sequence of shares; the
  locale \<open>verdict_exchange\<close> is the contract of a concrete share operation and proves,
  once for every implementation, that running it refines \<open>gossip\<close>. Both monitor classes
  of the program (monitor.cpp and main.cpp) interpret the locale.
\<close>

section \<open>The abstract exchange\<close>

type_synonym knowledge = "nat \<Rightarrow> (nat \<rightharpoonup> bool)"

definition learn :: "nat \<Rightarrow> nat \<Rightarrow> knowledge \<Rightarrow> knowledge" where
  \<comment> \<open>party \<open>j\<close> takes over every entry of party \<open>i\<close>\<close>
  "learn i j k = k(j := k j ++ k i)"

fun gossip :: "(nat \<times> nat) list \<Rightarrow> knowledge \<Rightarrow> knowledge" where
  "gossip [] k = k"
| "gossip ((i, j) # es) k = gossip es (learn i j k)"

definition truthful :: "nat set \<Rightarrow> (nat \<Rightarrow> bool) \<Rightarrow> knowledge \<Rightarrow> bool" where
  \<comment> \<open>what the given parties hold agrees with the verdicts \<open>v\<close>\<close>
  "truthful A v k \<longleftrightarrow> (\<forall>i\<in>A. \<forall>c b. k i c = Some b \<longrightarrow> b = v c)"

lemma gossip_append: "gossip (es @ fs) k = gossip fs (gossip es k)"
  by (induction es k rule: gossip.induct) auto

lemma learn_truthful: "truthful A v k \<Longrightarrow> i \<in> A \<Longrightarrow> truthful A v (learn i j k)"
  by (auto simp: truthful_def learn_def)

lemma gossip_truthful:
  "truthful A v k \<Longrightarrow> fst ` set es \<subseteq> A \<Longrightarrow> truthful A v (gossip es k)"
  by (induction es k rule: gossip.induct) (auto simp: learn_truthful)

lemma learn_grows: "dom (k a) \<subseteq> dom (learn i j k a)"
  by (auto simp: learn_def)

lemma learn_edge: "dom (k i) \<subseteq> dom (learn i j k j)"
  by (auto simp: learn_def)

lemma gossip_grows: "dom (k i) \<subseteq> dom (gossip es k i)"
  using learn_grows by (induction es k rule: gossip.induct) (simp_all, blast)

text \<open>Knowledge travels along any path that occurs in order in the sequence of shares.\<close>

lemma gossip_edge: "dom (k i) \<subseteq> dom (gossip ((i, j) # es) k j)"
  using learn_edge [of k i j] gossip_grows [of "learn i j k" j es] by simp

subsection \<open>A ring of \<open>n\<close> parties\<close>

definition ring_round :: "nat \<Rightarrow> (nat \<times> nat) list" where
  "ring_round n = map (\<lambda>i. (i, Suc i mod n)) [0..<n]"

text \<open>After the first \<open>m\<close> shares of a round, party \<open>j \<le> m\<close> knows what all before it knew.\<close>

lemma ring_prefix_knows:
  assumes "m < n" "i \<le> j" "j \<le> m"
  shows "dom (k i) \<subseteq> dom (gossip (map (\<lambda>i. (i, Suc i mod n)) [0..<m]) k j)"
  using assms
proof (induction m arbitrary: j)
  case 0
  then show ?case by simp
next
  case (Suc m)
  let ?g = "gossip (map (\<lambda>i. (i, Suc i mod n)) [0..<m]) k"
  have step: "gossip (map (\<lambda>i. (i, Suc i mod n)) [0..<Suc m]) k = learn m (Suc m) ?g"
    using Suc.prems by (simp add: gossip_append)
  show ?case
  proof (cases "j = Suc m \<and> i \<noteq> Suc m")
    case True
    with Suc.prems Suc.IH [of m] have "dom (k i) \<subseteq> dom (?g m)" by simp
    with step True learn_edge [of ?g m "Suc m"] show ?thesis by auto
  next
    case False
    then have "dom (k i) \<subseteq> dom (?g j)"
      using Suc.prems Suc.IH [of j] gossip_grows [of k i] by (cases "i = j") auto
    with step learn_grows [of ?g j m "Suc m"] show ?thesis by auto
  qed
qed

lemma ring_round_split:
  assumes "0 < n"
  shows "ring_round n = map (\<lambda>i. (i, Suc i mod n)) [0..<n - 1] @ [(n - 1, 0)]"
  using assms by (cases n) (simp_all add: ring_round_def)

text \<open>One round brings everything to party \<open>0\<close>, a second one spreads it to everyone.\<close>

lemma ring_round_collects:
  assumes "i < n"
  shows "dom (k i) \<subseteq> dom (gossip (ring_round n) k 0)"
proof -
  let ?g = "gossip (map (\<lambda>i. (i, Suc i mod n)) [0..<n - 1]) k"
  from assms have "dom (k i) \<subseteq> dom (?g (n - 1))" by (intro ring_prefix_knows) auto
  also have "\<dots> \<subseteq> dom (gossip [(n - 1, 0)] ?g 0)" by (rule gossip_edge)
  finally show ?thesis using assms by (simp add: ring_round_split gossip_append)
qed

lemma ring_round_spreads:
  assumes "j < n"
  shows "dom (k 0) \<subseteq> dom (gossip (ring_round n) k j)"
proof -
  let ?g = "gossip (map (\<lambda>i. (i, Suc i mod n)) [0..<n - 1]) k"
  from assms have "dom (k 0) \<subseteq> dom (?g j)" by (intro ring_prefix_knows) auto
  also have "\<dots> \<subseteq> dom (gossip [(n - 1, 0)] ?g j)" by (rule gossip_grows)
  finally show ?thesis using assms by (simp add: ring_round_split gossip_append)
qed

lemma ring_two_rounds:
  assumes "i < n" "j < n"
  shows "dom (k i) \<subseteq> dom (gossip (ring_round n @ ring_round n @ es) k j)"
proof -
  have "dom (k i) \<subseteq> dom (gossip (ring_round n) (gossip (ring_round n) k) j)"
    using ring_round_collects [OF assms(1)] ring_round_spreads [OF assms(2)] by blast
  then show ?thesis
    using gossip_grows by (simp add: gossip_append) blast
qed

subsection \<open>All pairs\<close>

definition all_pairs :: "nat \<Rightarrow> (nat \<times> nat) list" where
  "all_pairs n = concat (map (\<lambda>i. map (\<lambda>j. (i, j)) (filter (\<lambda>j. i \<noteq> j) [0..<n])) [0..<n])"

lemma gossip_member:
  assumes "(i, j) \<in> set es"
  shows "dom (k i) \<subseteq> dom (gossip es k j)"
proof -
  from assms obtain es1 es2 where es: "es = es1 @ (i, j) # es2"
    by (meson split_list)
  have "dom (k i) \<subseteq> dom (gossip es1 k i)" by (rule gossip_grows)
  also have "\<dots> \<subseteq> dom (gossip ((i, j) # es2) (gossip es1 k) j)" by (rule gossip_edge)
  finally show ?thesis by (simp add: es gossip_append)
qed

lemma all_pairs_knows:
  assumes "i < n" "j < n"
  shows "dom (k i) \<subseteq> dom (gossip (all_pairs n) k j)"
proof (cases "i = j")
  case True
  then show ?thesis by (simp add: gossip_grows)
next
  case False
  with assms have "(i, j) \<in> set (all_pairs n)" by (force simp: all_pairs_def)
  then show ?thesis by (rule gossip_member)
qed

section \<open>The contract of a share operation\<close>

locale verdict_exchange =
  fixes share :: "'l \<Rightarrow> 's \<Rightarrow> 's result"
    and src :: "'l \<Rightarrow> nat"
    and dst :: "'l \<Rightarrow> nat"
    and know :: "'s \<Rightarrow> knowledge"
    and inv :: "'s \<Rightarrow> bool"
    and labels :: "'l set"
    and parties :: "nat set"
  assumes src_party: "l \<in> labels \<Longrightarrow> src l \<in> parties"
    and share_spec:
    "l \<in> labels \<Longrightarrow> inv s \<Longrightarrow>
       \<exists>s'. share l s = Inr s' \<and> inv s' \<and>
         know s' = learn (src l) (dst l) (know s)"
begin

text \<open>Running any sequence of shares returns and refines the abstract exchange.\<close>

lemma run_refines_gossip:
  assumes "set ls \<subseteq> labels" "inv s"
  shows "\<exists>s'. rfold share ls s = Inr s' \<and> inv s' \<and>
           know s' = gossip (map (\<lambda>l. (src l, dst l)) ls) (know s)"
  using assms
proof (induction ls arbitrary: s)
  case Nil
  then show ?case by simp
next
  case (Cons l ls)
  from Cons.prems share_spec [of l s] obtain s1 where
    s1: "share l s = Inr s1" "inv s1" "know s1 = learn (src l) (dst l) (know s)"
    by auto
  with Cons.IH [of s1] Cons.prems show ?case by auto
qed

lemma run_truthful:
  assumes "set ls \<subseteq> labels" "inv s" "truthful parties v (know s)" "rfold share ls s = Inr s'"
  shows "inv s' \<and> truthful parties v (know s')"
proof -
  have "fst ` set (map (\<lambda>l. (src l, dst l)) ls) \<subseteq> parties"
    using assms(1) src_party by auto
  with run_refines_gossip [OF assms(1,2)] assms(3,4) gossip_truthful show ?thesis by fastforce
qed

text \<open>
  The general completeness result: when the shares of a schedule carry the knowledge of
  every party to every party, everybody ends with all verdicts.
\<close>

lemma run_complete:
  assumes "set ls \<subseteq> labels" "inv s" "truthful parties v (know s)"
    and own: "\<And>i. i \<in> parties \<Longrightarrow> i \<in> dom (know s i)"
    and spread: "\<And>i j k. i \<in> parties \<Longrightarrow> j \<in> parties \<Longrightarrow>
           dom (k i) \<subseteq> dom (gossip (map (\<lambda>l. (src l, dst l)) ls) k j)"
  shows "\<exists>s'. rfold share ls s = Inr s' \<and> inv s' \<and>
           (\<forall>j\<in>parties. \<forall>c\<in>parties. know s' j c = Some (v c))"
proof -
  from run_refines_gossip [OF assms(1,2)] obtain s' where s': "rfold share ls s = Inr s'" "inv s'"
    "know s' = gossip (map (\<lambda>l. (src l, dst l)) ls) (know s)"
    by blast
  have "know s' j c = Some (v c)" if "j \<in> parties" "c \<in> parties" for j c
  proof -
    have "c \<in> dom (know s' j)"
      unfolding s'(3) using spread [OF that(2,1)] own [OF that(2)] by (rule subsetD)
    moreover have "truthful parties v (know s')"
      using run_truthful [OF assms(1-3) s'(1)] by blast
    ultimately show ?thesis using that by (auto simp: truthful_def)
  qed
  with s' show ?thesis by blast
qed

end

end
