(* ===== verification/Monitor_Ring.thy ===== *)
theory Monitor_Ring
  imports Verdict_Exchange "HOL-Library.Signed_Division"
begin

text \<open>
  The monitors of monitor.cpp: each evaluates its own subformula over its observations and
  passes every verdict it holds to the next monitor of the ring. Monitors are objects with
  an address; the vector \<open>network\<close> holds addresses, so that a share goes through the
  store and may hit the sender itself (a ring of one). The section on the protocol proves
  that two rounds of sharing make every monitor's \<open>Evaluate_All\<close> the conjunction of all
  subformulas.
\<close>

section \<open>The class Monitor\<close>

record ring_monitor =
  mid :: int
  subformula :: "string list"
  observations :: "bool list"
  num_monitors :: int
  verdicts :: "bool list"
  verdicts_mod :: "bool list"
  network :: "nat list"

type_synonym store = "nat \<rightharpoonup> ring_monitor"

definition Monitor :: "int \<Rightarrow> string list \<Rightarrow> int \<Rightarrow> ring_monitor" where
  "Monitor m_id m_subformula m_num_monitors =
     \<lparr>mid = m_id, subformula = m_subformula, observations = [], num_monitors = m_num_monitors,
      verdicts = replicate (nat m_num_monitors) False,
      verdicts_mod = replicate (nat m_num_monitors) False, network = []\<rparr>"

definition AddNetwork :: "nat list \<Rightarrow> ring_monitor \<Rightarrow> ring_monitor" where
  "AddNetwork m_network m = m\<lparr>network := m_network\<rparr>"

definition push_observation :: "bool \<Rightarrow> ring_monitor \<Rightarrow> ring_monitor" where
  "push_observation b m = m\<lparr>observations := observations m @ [b]\<rparr>"

definition GetVerdict :: "nat \<Rightarrow> bool \<Rightarrow> ring_monitor \<Rightarrow> ring_monitor result" where
  "GetVerdict position verdict m =
     rbind (vset (verdicts m) position verdict) (\<lambda>vs.
     rbind (vset (verdicts_mod m) position True) (\<lambda>ms.
       Inr (m\<lparr>verdicts := vs, verdicts_mod := ms\<rparr>)))"

definition deref :: "store \<Rightarrow> nat \<Rightarrow> ring_monitor result" where
  "deref st a = (case st a of None \<Rightarrow> Inl Bad_Pointer | Some m \<Rightarrow> Inr m)"

definition update_at :: "nat \<Rightarrow> (ring_monitor \<Rightarrow> ring_monitor result) \<Rightarrow> store \<Rightarrow> store result" where
  "update_at a f st = rbind (deref st a) (\<lambda>m. rbind (f m) (\<lambda>m'. Inr (st(a \<mapsto> m'))))"

definition next_index :: "ring_monitor \<Rightarrow> nat result" where
  "next_index m =
     (if mid m = INT_MAX then Inl Signed_Overflow
      else if num_monitors m = 0 then Inl Division_By_Zero
      else let k = (mid m + 1) smod num_monitors m
           in if k < 0 then Inl Out_Of_Range else Inr (nat k))"

definition share_body :: "nat \<Rightarrow> nat \<Rightarrow> store \<Rightarrow> store result" where
  "share_body this c st =
     rbind (deref st this) (\<lambda>m.
     rbind (vget (verdicts_mod m) c) (\<lambda>modified.
       if modified then
         rbind (next_index m) (\<lambda>k.
         rbind (vget (network m) k) (\<lambda>target.
         rbind (vget (verdicts m) c) (\<lambda>v. update_at target (GetVerdict c v) st)))
       else Inr st))"

definition ShareVerdict :: "nat \<Rightarrow> store \<Rightarrow> store result" where
  "ShareVerdict this st =
     rbind (deref st this) (\<lambda>m. rfold (share_body this) [0..<to_u32 (num_monitors m)] st)"

definition combine :: "string \<Rightarrow> bool \<Rightarrow> bool \<Rightarrow> bool" where
  "combine opr new acc = (if opr = ''and'' then new \<and> acc else new \<or> acc)"

definition eval_body :: "ring_monitor \<Rightarrow> nat \<Rightarrow> bool list \<Rightarrow> bool list result" where
  "eval_body m c sub_verdict =
     rbind (vget (subformula m) (c - 1)) (\<lambda>opr.
     rbind (vget (observations m) c) (\<lambda>new.
     rbind (if c = 1 then vget (observations m) (c - 1) else vget sub_verdict (c - 2)) (\<lambda>acc.
       Inr (sub_verdict @ [combine opr new acc]))))"

definition Evaluate :: "ring_monitor \<Rightarrow> ring_monitor result" where
  "Evaluate m =
     rbind (rfold (eval_body m) [1..<length (observations m)] []) (\<lambda>sub_verdict.
       if sub_verdict = [] \<or> mid m < 0 then Inl Out_Of_Range
       else GetVerdict (nat (mid m)) (last sub_verdict) m)"

fun all_from :: "nat list \<Rightarrow> ring_monitor \<Rightarrow> bool result" where
  "all_from [] m = Inr True"
| "all_from (c # cs) m = rbind (vget (verdicts m) c) (\<lambda>v. if \<not> v then Inr False else all_from cs m)"

definition Evaluate_All :: "ring_monitor \<Rightarrow> bool result" where
  "Evaluate_All m = all_from [0..<to_u32 (num_monitors m)] m"

section \<open>The program\<close>

definition share_rounds :: "nat list \<Rightarrow> nat \<Rightarrow> nat \<Rightarrow> store \<Rightarrow> store result" where
  "share_rounds monitors rounds n =
     rfold (\<lambda>c. rfold (\<lambda>d st. rbind (vget monitors d) (\<lambda>a. ShareVerdict a st)) [0..<n]) [0..<rounds]"

definition show_bool :: "bool \<Rightarrow> string" where
  "show_bool b = (if b then ''1'' else ''0'')"

definition ring_setup :: store where
  "ring_setup =
     (let m1 = push_observation True (push_observation True (Monitor 0 [''and''] 3));
          m2 = push_observation True (push_observation True (Monitor 1 [''or''] 3));
          m3 = push_observation True (push_observation False (Monitor 2 [''or''] 3));
          monitors = [0, 1, 2]
      in [0 \<mapsto> AddNetwork monitors m1, 1 \<mapsto> AddNetwork monitors m2, 2 \<mapsto> AddNetwork monitors m3])"

definition show_verdicts :: "ring_monitor \<Rightarrow> string list result" where
  "show_verdicts m =
     rbind (vget (verdicts m) 0) (\<lambda>v0. rbind (vget (verdicts m) 1) (\<lambda>v1. rbind (vget (verdicts m) 2) (\<lambda>v2.
       Inr [show_bool v0, show_bool v1, show_bool v2, []])))"

definition ring_main :: "string list result" where
  "ring_main =
     rbind (rfold (\<lambda>a. update_at a Evaluate) [0, 1, 2] ring_setup) (\<lambda>st1.
     rbind (rbind (deref st1 0) show_verdicts) (\<lambda>out1.
     rbind (share_rounds [0, 1, 2] 3 3 st1) (\<lambda>st2.
     rbind (deref st2 0) (\<lambda>m1.
     rbind (show_verdicts m1) (\<lambda>out2.
     rbind (Evaluate_All m1) (\<lambda>final.
       Inr ([''m1 before any sharing occurs''] @ out1 @
            [''m1 after all sharing ends''] @ out2 @
            [''m1's final verdict:'' @ show_bool final])))))))"

section \<open>Evaluating a subformula\<close>

text \<open>The left-associated reading of \<open>o\<^sub>0 op\<^sub>1 o\<^sub>1 op\<^sub>2 o\<^sub>2 \<dots>\<close>.\<close>

fun chain :: "bool \<Rightarrow> (string \<times> bool) list \<Rightarrow> bool" where
  "chain acc [] = acc"
| "chain acc ((opr, new) # rest) = chain (if opr = ''and'' then acc \<and> new else acc \<or> new) rest"

definition subformula_value :: "ring_monitor \<Rightarrow> bool" where
  "subformula_value m = chain (hd (observations m)) (zip (subformula m) (tl (observations m)))"

definition evaluable :: "ring_monitor \<Rightarrow> bool" where
  "evaluable m \<longleftrightarrow> 2 \<le> length (observations m) \<and> length (observations m) \<le> Suc (length (subformula m)) \<and>
     0 \<le> mid m \<and> nat (mid m) < length (verdicts m) \<and> nat (mid m) < length (verdicts_mod m)"

lemma chain_append: "chain acc (xs @ ys) = chain (chain acc xs) ys"
  by (induction acc xs rule: chain.induct) auto

lemma chain_prefix_Suc:
  assumes "Suc k < length obs" "k < length fs"
  shows "chain (hd obs) (zip (take (Suc k) fs) (take (Suc k) (tl obs)))
       = combine (fs ! k) (obs ! Suc k) (chain (hd obs) (zip (take k fs) (take k (tl obs))))"
  using assms by (auto simp: take_Suc_conv_app_nth chain_append nth_tl combine_def)

text \<open>The loop of \<open>Evaluate\<close> builds the list of all prefix verdicts.\<close>

lemma eval_loop:
  assumes "length (observations m) \<le> Suc (length (subformula m))" "k < length (observations m)"
  shows "rfold (eval_body m) [1..<Suc k] [] =
     Inr (map (\<lambda>j. chain (hd (observations m))
       (zip (take (Suc j) (subformula m)) (take (Suc j) (tl (observations m))))) [0..<k])"
  using assms
proof (induction k)
  case 0
  then show ?case by simp
next
  case (Suc k)
  let ?p = "\<lambda>j. chain (hd (observations m))
       (zip (take j (subformula m)) (take j (tl (observations m))))"
  have acc: "(if k = 0 then vget (observations m) k else vget (map (\<lambda>j. ?p (Suc j)) [0..<k]) (k - 1)) = Inr (?p k)"
    using Suc.prems by (cases k; cases "observations m") (auto simp: vget_def nth_append)
  have sub: "vget (subformula m) k = Inr (subformula m ! k)"
    using Suc.prems by simp
  have "rfold (eval_body m) [1..<Suc (Suc k)] [] = eval_body m (Suc k) (map (\<lambda>j. ?p (Suc j)) [0..<k])"
    using Suc by (simp add: rfold_append)
  also have "\<dots> = Inr (map (\<lambda>j. ?p (Suc j)) [0..<k] @ [combine (subformula m ! k) (observations m ! Suc k) (?p k)])"
    using Suc.prems acc sub by (cases k) (simp_all add: eval_body_def)
  also have "combine (subformula m ! k) (observations m ! Suc k) (?p k) = ?p (Suc k)"
    using Suc.prems by (intro chain_prefix_Suc [symmetric]) auto
  finally show ?case by simp
qed

lemma eval_loop_all:
  assumes "2 \<le> length (observations m)" "length (observations m) \<le> Suc (length (subformula m))"
  shows "\<exists>sv. rfold (eval_body m) [1..<length (observations m)] [] = Inr sv \<and> sv \<noteq> [] \<and>
           last sv = subformula_value m"
proof -
  from assms obtain k where k: "length (observations m) = Suc (Suc k)"
    by (metis Suc_le_D Suc_le_mono numeral_2_eq_2)
  then have "zip (subformula m) (tl (observations m)) =
      zip (take (Suc k) (subformula m)) (take (Suc k) (tl (observations m)))"
    by (simp only: take_zip [symmetric]) simp
  then show ?thesis
    using eval_loop [OF assms(2), of "Suc k"] k by (simp add: subformula_value_def)
qed

lemma Evaluate_returns:
  "evaluable m \<Longrightarrow> Evaluate m = Inr (m\<lparr>verdicts := (verdicts m)[nat (mid m) := subformula_value m],
     verdicts_mod := (verdicts_mod m)[nat (mid m) := True]\<rparr>)"
  using eval_loop_all [of m] by (auto simp: Evaluate_def evaluable_def GetVerdict_def)


text \<open>It faults exactly outside that domain: too few observations or operators, or a bad index.\<close>

lemma eval_loop_fault:
  assumes "rfold (eval_body m) [1..<length (observations m)] [] = Inr sv" "2 \<le> length (observations m)"
  shows "length (observations m) \<le> Suc (length (subformula m))"
proof (rule ccontr)
  assume short: "\<not> ?thesis"
  from assms(2) obtain k where k: "length (observations m) = Suc (Suc k)"
    by (metis Suc_le_D Suc_le_mono numeral_2_eq_2)
  with assms(1) obtain sv1 where "eval_body m (Suc k) sv1 = Inr sv"
    by (auto simp: rfold_append rbind_Inr_iff)
  with k short show False by (auto simp: eval_body_def result_simps)
qed

lemma Evaluate_domain: "Evaluate m = Inr m' \<Longrightarrow> evaluable m"
  using eval_loop_fault [of m]
  by (cases "2 \<le> length (observations m)")
     (auto simp: Evaluate_def evaluable_def GetVerdict_def result_simps split: if_splits)

section \<open>Sharing refines the abstract exchange\<close>

definition known :: "ring_monitor \<Rightarrow> (nat \<rightharpoonup> bool)" where
  "known m c = (if c < length (verdicts_mod m) \<and> verdicts_mod m ! c then Some (verdicts m ! c) else None)"

lemma known_Some: "known m c = Some b \<Longrightarrow> verdicts m ! c = b"
  by (simp add: known_def split: if_splits)

definition know :: "store \<Rightarrow> knowledge" where
  "know st a = (case st a of None \<Rightarrow> Map.empty | Some m \<Rightarrow> known m)"

definition in_ring :: "nat \<Rightarrow> nat \<Rightarrow> ring_monitor \<Rightarrow> bool" where
  "in_ring n i m \<longleftrightarrow> mid m = int i \<and> num_monitors m = int n \<and> network m = [0..<n] \<and>
     length (verdicts m) = n \<and> length (verdicts_mod m) = n"

definition ring_inv :: "nat \<Rightarrow> store \<Rightarrow> bool" where
  "ring_inv n st \<longleftrightarrow> int n \<le> INT_MAX \<and> (\<forall>i<n. \<exists>m. st i = Some m \<and> in_ring n i m)"

lemma ring_invD: "ring_inv n st \<Longrightarrow> i < n \<Longrightarrow> \<exists>m. st i = Some m \<and> in_ring n i m"
  by (simp add: ring_inv_def)

lemma GetVerdict_spec:
  assumes "in_ring n j m" "c < n"
  shows "\<exists>m'. GetVerdict c v m = Inr m' \<and> in_ring n j m' \<and> known m' = (known m)(c \<mapsto> v)"
  using assms by (auto simp: GetVerdict_def in_ring_def known_def fun_eq_iff nth_list_update)

lemma update_at_ring:
  assumes "ring_inv n st" "j < n"
    and "\<And>m. st j = Some m \<Longrightarrow> in_ring n j m \<Longrightarrow> \<exists>m'. f m = Inr m' \<and> in_ring n j m' \<and> known m' = g (known m)"
  shows "\<exists>st'. update_at j f st = Inr st' \<and> ring_inv n st' \<and> know st' = (know st)(j := g (know st j))"
proof -
  from ring_invD [OF assms(1,2)] obtain m where m: "st j = Some m" "in_ring n j m" by blast
  with assms(3) obtain m' where "f m = Inr m'" "in_ring n j m'" "known m' = g (known m)" by blast
  with m assms(1) have "update_at j f st = Inr (st(j \<mapsto> m'))" "ring_inv n (st(j \<mapsto> m'))"
    "know (st(j \<mapsto> m')) = (know st)(j := g (know st j))"
    by (auto simp: update_at_def deref_def ring_inv_def know_def)
  then show ?thesis by blast
qed

lemma next_index_ring:
  assumes "int n \<le> INT_MAX" "in_ring n i m" "i < n"
  shows "next_index m = Inr (Suc i mod n)"
proof -
  have "(int i + 1) smod int n = int (Suc i mod n)"
    by (simp add: signed_modulo_int_def zmod_int add.commute)
  with assms show ?thesis
    by (auto simp: next_index_def in_ring_def INT_MAX_def Let_def)
qed

lemma share_body_ring:
  assumes inv: "ring_inv n st" and "i < n" "c < n"
  shows "\<exists>st'. share_body i c st = Inr st' \<and> ring_inv n st' \<and>
           know st' = (know st)(Suc i mod n := know st (Suc i mod n) ++ (know st i |` {c}))"
proof -
  from ring_invD [OF inv \<open>i < n\<close>] obtain m where m: "st i = Some m" "in_ring n i m" by blast
  from m have len: "length (verdicts m) = n" "length (verdicts_mod m) = n" "network m = [0..<n]"
    by (auto simp: in_ring_def)
  have j: "Suc i mod n < n" using \<open>i < n\<close> by simp
  have nx: "next_index m = Inr (Suc i mod n)"
    using inv m \<open>i < n\<close> by (auto simp: ring_inv_def intro: next_index_ring)
  show ?thesis
  proof (cases "verdicts_mod m ! c")
    case True
    then have "know st i |` {c} = [c \<mapsto> verdicts m ! c]"
      using m len \<open>c < n\<close> by (auto simp: know_def known_def fun_eq_iff restrict_map_def)
    moreover have "share_body i c st = update_at (Suc i mod n) (GetVerdict c (verdicts m ! c)) st"
      using True m len nx \<open>c < n\<close> j by (simp add: share_body_def deref_def)
    ultimately show ?thesis
      using update_at_ring [OF inv j, of "GetVerdict c (verdicts m ! c)" "\<lambda>k. k(c \<mapsto> verdicts m ! c)"]
        GetVerdict_spec [OF _ \<open>c < n\<close>] by (metis map_add_upd map_add_empty)
  next
    case False
    then have "know st i |` {c} = Map.empty"
      using m len \<open>c < n\<close> by (auto simp: know_def known_def fun_eq_iff restrict_map_def)
    moreover have "share_body i c st = Inr st"
      using False m len \<open>c < n\<close> by (simp add: share_body_def deref_def)
    ultimately show ?thesis using inv by simp
  qed
qed

lemma ShareVerdict_ring:
  assumes inv: "ring_inv n st" and "i < n"
  shows "\<exists>st'. ShareVerdict i st = Inr st' \<and> ring_inv n st' \<and>
           know st' = learn i (Suc i mod n) (know st)"
proof -
  let ?j = "Suc i mod n"
  let ?P = "\<lambda>c st'. ring_inv n st' \<and> know st' = (know st)(?j := know st ?j ++ (know st i |` {..<c}))"
  from ring_invD [OF inv \<open>i < n\<close>] obtain m where m: "st i = Some m" "num_monitors m = int n"
    by (auto simp: in_ring_def)
  have "\<exists>st'. share_body i c st1 = Inr st' \<and> ?P (Suc c) st'" if "c < n" "?P c st1" for c st1
  proof -
    have "know st1 i = know st i"
      using that(2) by (auto simp: map_add_def restrict_map_def fun_eq_iff split: option.splits)
    moreover have "(know st ?j ++ (know st i |` {..<c})) ++ (know st i |` {c}) = know st ?j ++ (know st i |` {..<Suc c})"
      by (auto simp: map_add_def restrict_map_def fun_eq_iff less_Suc_eq split: option.splits)
    ultimately show ?thesis
      using share_body_ring [OF _ \<open>i < n\<close> \<open>c < n\<close>, of st1] that(2) by simp
  qed
  then obtain st' where "rfold (share_body i) [0..<n] st = Inr st'" "?P n st'"
    using rfold_upt_total [of n ?P "share_body i" st] inv by (auto simp: restrict_map_def)
  moreover have "know st i |` {..<n} = know st i"
    using ring_invD [OF inv \<open>i < n\<close>] by (auto simp: know_def known_def in_ring_def restrict_map_def fun_eq_iff)
  moreover have "to_u32 (num_monitors m) = n"
    using inv m by (simp add: ring_inv_def)
  ultimately show ?thesis
    using m by (auto simp: ShareVerdict_def deref_def learn_def)
qed

interpretation ring: verdict_exchange
  ShareVerdict "\<lambda>i. i" "\<lambda>i. Suc i mod n" know "ring_inv n" "{..<n}" "{..<n}" for n :: nat
  by unfold_locales (simp_all add: ShareVerdict_ring)

section \<open>The protocol\<close>

lemma share_rounds_as_run:
  assumes "n \<le> length ms" "\<And>d. d < n \<Longrightarrow> ms ! d = d"
  shows "share_rounds ms rounds n st = rfold ShareVerdict (concat (replicate rounds [0..<n])) st"
proof (induction rounds arbitrary: st)
  case 0
  show ?case by (simp add: share_rounds_def)
next
  case (Suc rounds)
  have body: "rfold (\<lambda>d st. rbind (vget ms d) (\<lambda>a. ShareVerdict a st)) [0..<n] = rfold ShareVerdict [0..<n]"
    using assms by (intro ext rfold_cong) simp
  have "share_rounds ms (Suc rounds) n st = rbind (share_rounds ms rounds n st) (rfold ShareVerdict [0..<n])"
    by (simp add: share_rounds_def rfold_append body)
  also have "\<dots> = rfold ShareVerdict (concat (replicate rounds [0..<n]) @ [0..<n]) st"
    by (simp add: Suc rfold_append)
  also have "concat (replicate rounds [0..<n]) @ [0..<n] = concat (replicate (Suc rounds) [0..<n])"
    by (metis append_self_conv concat.simps concat_append replicate_append_same replicate_Suc)
  finally show ?case .
qed

lemma ring_edges:
  "map (\<lambda>i. (i, Suc i mod n)) (concat (replicate r [0..<n])) = concat (replicate r (ring_round n))"
  by (induction r) (simp_all add: ring_round_def)

text \<open>Two or more rounds: every monitor of the ring ends with everything anybody knew.\<close>

lemma share_rounds_complete:
  assumes "ring_inv n st" and r: "2 \<le> rounds" and "truthful {..<n} v (know st)"
    and "\<And>i. i < n \<Longrightarrow> i \<in> dom (know st i)"
  shows "\<exists>st'. share_rounds [0..<n] rounds n st = Inr st' \<and> ring_inv n st' \<and>
           (\<forall>j\<in>{..<n}. \<forall>c\<in>{..<n}. know st' j c = Some (v c))"
proof -
  from r obtain r' where r': "rounds = Suc (Suc r')" by (metis Suc_le_D Suc_le_mono numeral_2_eq_2)
  have es: "map (\<lambda>i. (i, Suc i mod n)) (concat (replicate rounds [0..<n]))
      = ring_round n @ ring_round n @ concat (replicate r' (ring_round n))"
    unfolding ring_edges r' by simp
  have run: "share_rounds [0..<n] rounds n st = rfold ShareVerdict (concat (replicate rounds [0..<n])) st"
    by (intro share_rounds_as_run) auto
  show ?thesis
    unfolding run
  proof (rule ring.run_complete)
    show "dom (k i) \<subseteq> dom (gossip (map (\<lambda>l. (l, Suc l mod n)) (concat (replicate rounds [0..<n]))) k j)"
      if "i \<in> {..<n}" "j \<in> {..<n}" for i j k
      unfolding es using that by (intro ring_two_rounds) auto
  qed (use assms in auto)
qed

lemma all_from_spec:
  assumes "\<forall>c \<in> set cs. c < length (verdicts m)"
  shows "all_from cs m = Inr (\<forall>c \<in> set cs. verdicts m ! c)"
  using assms by (induction cs) auto

lemma all_from_upt:
  "all_from [0..<n] m =
     (if \<exists>c < min n (length (verdicts m)). \<not> verdicts m ! c then Inr False
      else if n \<le> length (verdicts m) then Inr True else Inl Out_Of_Range)"
proof -
  have "all_from [i..<n] m =
     (if \<exists>c < min n (length (verdicts m)). i \<le> c \<and> \<not> verdicts m ! c then Inr False
      else if n \<le> length (verdicts m) then Inr True else Inl Out_Of_Range)"
    if "i \<le> n" "i \<le> length (verdicts m)" for i
    using that
  proof (induction "n - i" arbitrary: i)
    case 0
    then show ?case by auto
  next
    case (Suc d)
    then have upt: "[i..<n] = i # [Suc i..<n]" by (simp add: upt_conv_Cons)
    show ?case
    proof (cases "i < length (verdicts m) \<and> verdicts m ! i")
      case True
      with Suc upt have "all_from [i..<n] m = all_from [Suc i..<n] m" by simp
      moreover have "(\<exists>c < min n (length (verdicts m)). i \<le> c \<and> \<not> verdicts m ! c) \<longleftrightarrow>
          (\<exists>c < min n (length (verdicts m)). Suc i \<le> c \<and> \<not> verdicts m ! c)"
        using True by (auto simp: Suc_le_eq le_less)
      moreover have "d = n - Suc i" "Suc i \<le> n" "Suc i \<le> length (verdicts m)"
        using Suc.hyps(2) True by auto
      ultimately show ?thesis using Suc.hyps(1) [of "Suc i"] by simp
    next
      case False
      with Suc upt show ?thesis by (auto simp: vget_def)
    qed
  qed
  from this [of 0] show ?thesis by simp
qed

lemma Evaluate_All_ring:
  assumes "in_ring n i m" "int n \<le> INT_MAX"
  shows "Evaluate_All m = Inr (\<forall>c<n. verdicts m ! c)"
  using assms by (simp add: Evaluate_All_def all_from_spec in_ring_def atLeast0LessThan Ball_def)

text \<open>The first phase: every monitor evaluates its own subformula, in order.\<close>

definition fresh_ring :: "nat \<Rightarrow> store \<Rightarrow> bool" where
  "fresh_ring n st \<longleftrightarrow> ring_inv n st \<and>
     (\<forall>i<n. evaluable (the (st i)) \<and> verdicts_mod (the (st i)) = replicate n False)"

lemma Evaluate_known:
  assumes "in_ring n i m" "evaluable m" "verdicts_mod m = replicate n False"
  shows "\<exists>m'. Evaluate m = Inr m' \<and> in_ring n i m' \<and> known m' = [i \<mapsto> subformula_value m]"
  using assms by (auto simp: Evaluate_returns in_ring_def known_def evaluable_def fun_eq_iff nth_list_update)

lemma evaluate_phase:
  assumes "fresh_ring n st"
  shows "\<exists>st'. rfold (\<lambda>a. update_at a Evaluate) [0..<n] st = Inr st' \<and> ring_inv n st' \<and>
           (\<forall>i<n. know st' i = [i \<mapsto> subformula_value (the (st i))])"
proof -
  let ?P = "\<lambda>k st'. ring_inv n st' \<and> (\<forall>i<k. know st' i = [i \<mapsto> subformula_value (the (st i))]) \<and> (\<forall>i\<ge>k. st' i = st i)"
  have step: "\<exists>st''. update_at k Evaluate st' = Inr st'' \<and> ?P (Suc k) st''" if "k < n" "?P k st'" for k st'
  proof -
    from that ring_invD [of n st' k] obtain m where m: "st' k = Some m" "in_ring n k m" "st k = Some m"
      by auto
    with assms that(1) have "evaluable m" "verdicts_mod m = replicate n False"
      by (auto simp: fresh_ring_def)
    from Evaluate_known [OF m(2) this] obtain m' where
      m': "Evaluate m = Inr m'" "in_ring n k m'" "known m' = [k \<mapsto> subformula_value m]"
      by blast
    have "update_at k Evaluate st' = Inr (st'(k \<mapsto> m'))"
      using m m' by (simp add: update_at_def deref_def)
    moreover have "?P (Suc k) (st'(k \<mapsto> m'))"
    proof -
      have "know (st'(k \<mapsto> m')) = (know st')(k := known m')"
        by (simp add: know_def fun_eq_iff)
      with that(2) m m' show ?thesis by (simp add: ring_inv_def less_Suc_eq)
    qed
    ultimately show ?thesis by blast
  qed
  have start: "?P 0 st" using assms by (simp add: fresh_ring_def)
  from rfold_upt_total [of n ?P "\<lambda>a. update_at a Evaluate" st, OF step start]
show ?thesis by blast
qed

section \<open>Properties\<close>

text \<open>
  C1. End to end, for a ring of any size: when every monitor can evaluate its subformula
  and no verdict has been recorded yet, evaluating all of them and then running two or more
  rounds of \<open>ShareVerdict\<close> returns, and afterwards \<open>Evaluate_All\<close> of every monitor is
  the conjunction of the subformula values of all monitors.
\<close>

theorem ring_protocol_correct:
  assumes "fresh_ring n st" "2 \<le> rounds"
  shows "\<exists>st1 st2. rfold (\<lambda>a. update_at a Evaluate) [0..<n] st = Inr st1 \<and>
     share_rounds [0..<n] rounds n st1 = Inr st2 \<and>
     (\<forall>j<n. \<exists>m. st2 j = Some m \<and>
        Evaluate_All m = Inr (\<forall>i<n. subformula_value (the (st i))))"
proof -
  let ?v = "\<lambda>i. subformula_value (the (st i))"
  obtain st1 where st1: "rfold (\<lambda>a. update_at a Evaluate) [0..<n] st = Inr st1" "ring_inv n st1"
    "\<forall>i<n. know st1 i = [i \<mapsto> ?v i]"
    using evaluate_phase [OF assms(1)] by blast
  have "truthful {..<n} ?v (know st1)" using st1(3) by (auto simp: truthful_def split: if_splits)
  then obtain st2 where st2: "share_rounds [0..<n] rounds n st1 = Inr st2" "ring_inv n st2"
    "\<forall>j\<in>{..<n}. \<forall>c\<in>{..<n}. know st2 j c = Some (?v c)"
    using share_rounds_complete [OF st1(2) assms(2), of ?v] st1(3) by auto
  have "\<exists>m. st2 j = Some m \<and> Evaluate_All m = Inr (\<forall>i<n. ?v i)" if "j < n" for j
  proof -
    from ring_invD [OF st2(2) that] obtain m where m: "st2 j = Some m" "in_ring n j m" by blast
    have "known m c = Some (?v c)" if "c < n" for c
      using st2(3) m(1) \<open>j < n\<close> that by (metis know_def lessThan_iff option.simps(5))
    then have "\<forall>c<n. verdicts m ! c = ?v c"
      by (blast dest: known_Some)
    with m st2(2) show ?thesis by (auto simp: Evaluate_All_ring ring_inv_def)
  qed
  with st1(1) st2(1) show ?thesis by blast
qed

lemma less_three_iff: "(\<forall>i<3. P i) \<longleftrightarrow> P 0 \<and> P 1 \<and> P (2::nat)"
  by (auto simp: numeral_3_eq_3 numeral_2_eq_2 less_Suc_eq)

lemmas ring_setup_defs =
  ring_setup_def Monitor_def AddNetwork_def push_observation_def Let_def

lemma ring_setup_fresh: "fresh_ring 3 ring_setup"
  by (simp add: fresh_ring_def ring_inv_def in_ring_def evaluable_def ring_setup_defs
      less_three_iff INT_MAX_def numeral_3_eq_3 upt_rec)

theorem ring_protocol_correct_witness:
  "fresh_ring 3 ring_setup \<and> (2::nat) \<le> 3 \<and>
   (\<exists>st1 st2. rfold (\<lambda>a. update_at a Evaluate) [0..<3] ring_setup = Inr st1 \<and>
     share_rounds [0..<3] 3 3 st1 = Inr st2 \<and>
     (\<forall>j<3. \<exists>m. st2 j = Some m \<and>
        Evaluate_All m = Inr (\<forall>i<3. subformula_value (the (ring_setup i)))))"
proof -
  have "(2::nat) \<le> 3" by simp
  then show ?thesis using ring_setup_fresh ring_protocol_correct [OF ring_setup_fresh] by blast
qed

text \<open>
  C2. In any order and any number, shares never fault, keep the ring intact and implement
  the abstract exchange: the receiver's verdict map is overridden by the sender's.
\<close>

theorem any_schedule_refines_gossip:
  assumes "ring_inv n st" "set ls \<subseteq> {..<n}"
  shows "\<exists>st'. rfold ShareVerdict ls st = Inr st' \<and> ring_inv n st' \<and>
           know st' = gossip (map (\<lambda>i. (i, Suc i mod n)) ls) (know st)"
  using ring.run_refines_gossip [OF assms(2,1)] .

theorem any_schedule_refines_gossip_witness:
  "ring_inv 3 ring_setup \<and> set [2, 0, 0, 1] \<subseteq> {..<3::nat} \<and>
   (\<exists>st'. rfold ShareVerdict [2, 0, 0, 1] ring_setup = Inr st' \<and> ring_inv 3 st' \<and>
      know st' = gossip (map (\<lambda>i. (i, Suc i mod 3)) [2, 0, 0, 1]) (know ring_setup))"
proof -
  have inv: "ring_inv 3 ring_setup" using ring_setup_fresh by (simp add: fresh_ring_def)
  have "set [2, 0, 0, 1] \<subseteq> {..<3::nat}" by auto
  with inv any_schedule_refines_gossip [OF inv this] show ?thesis by blast
qed

text \<open>
  C3. \<open>Evaluate\<close> returns exactly when there are at least two observations, an operator
  between every two of them and a slot for the monitor's id; then it stores the
  left-associated value of the subformula in that slot, marks it, and changes nothing else.
\<close>

theorem Evaluate_iff:
  "Evaluate m = Inr m' \<longleftrightarrow>
     evaluable m \<and>
     m' = m\<lparr>verdicts := (verdicts m)[nat (mid m) := subformula_value m],
            verdicts_mod := (verdicts_mod m)[nat (mid m) := True]\<rparr>"
  using Evaluate_domain [of m m'] Evaluate_returns [of m] by auto

text \<open>
  C16. \<open>Evaluate_All\<close> answers true exactly when all slots below \<open>num_monitors\<close> exist and
  hold true, false exactly when one of the existing ones holds false, and otherwise reads
  past the end of the vector.
\<close>

theorem Evaluate_All_cases:
  "Evaluate_All m =
     (if \<exists>c < min (to_u32 (num_monitors m)) (length (verdicts m)). \<not> verdicts m ! c then Inr False
      else if to_u32 (num_monitors m) \<le> length (verdicts m) then Inr True
      else Inl Out_Of_Range)"
  by (simp add: Evaluate_All_def all_from_upt)

text \<open>The output of the program as monitor.cpp ships it, an evaluation of the model.\<close>

lemma ring_main_output:
  "ring_main = Inr
     [''m1 before any sharing occurs'', ''1'', ''0'', ''0'', [],
      ''m1 after all sharing ends'', ''1'', ''1'', ''1'', [],
      ''m1's final verdict:1'']"
  by code_simp

end
