(* ===== verification/Cpp_Strings.thy ===== *)
theory Cpp_Strings
  imports Prelude
begin

text \<open>
  The string operations of the C++ library that main.cpp uses: \<open>std::string::find\<close> (as a
  containment test), \<open>std::to_string\<close> on integers and \<open>std::stoi\<close> with its two
  exceptions. The main result is that \<open>stoi\<close> reads back what \<open>to_string\<close> writes.
\<close>

section \<open>Containment\<close>

fun contains :: "string \<Rightarrow> string \<Rightarrow> bool" where
  \<comment> \<open>\<open>s.find(pat) != -1\<close>\<close>
  "contains pat [] = (pat = [])"
| "contains pat (c # cs) = (take (length pat) (c # cs) = pat \<or> contains pat cs)"

lemma contains_iff: "contains pat s \<longleftrightarrow> (\<exists>us vs. s = us @ pat @ vs)"
proof (induction s)
  case Nil
  then show ?case by auto
next
  case (Cons c cs)
  have "take (length pat) (c # cs) = pat \<longleftrightarrow> (\<exists>vs. c # cs = pat @ vs)"
    by (metis append_eq_conv_conj append_take_drop_id)
  with Cons show ?case by (auto simp: Cons_eq_append_conv)
qed

section \<open>Decimal numerals\<close>

definition digit_char :: "nat \<Rightarrow> char" where
  "digit_char d = char_of (48 + d)"

definition is_digit :: "char \<Rightarrow> bool" where
  "is_digit c \<longleftrightarrow> 48 \<le> (of_char c :: nat) \<and> (of_char c :: nat) \<le> 57"

definition digit_val :: "char \<Rightarrow> nat" where
  "digit_val c = of_char c - 48"

fun show_nat :: "nat \<Rightarrow> string" where
  "show_nat n = (if n < 10 then [digit_char n] else show_nat (n div 10) @ [digit_char (n mod 10)])"

declare show_nat.simps [simp del]

definition to_string :: "int \<Rightarrow> string" where
  "to_string i = (if i < 0 then CHR ''-'' # show_nat (nat (- i)) else show_nat (nat i))"

definition is_space :: "char \<Rightarrow> bool" where
  "is_space c \<longleftrightarrow> c = CHR '' '' \<or> 9 \<le> (of_char c :: nat) \<and> (of_char c :: nat) \<le> 13"

definition read_digits :: "string \<Rightarrow> nat" where
  "read_digits ds = foldl (\<lambda>acc c. 10 * acc + digit_val c) 0 ds"

definition stoi :: "string \<Rightarrow> int result" where
  "stoi s =
     (let t = dropWhile is_space s;
          neg = (case t of [] \<Rightarrow> False | c # _ \<Rightarrow> c = CHR ''-'');
          u = (case t of [] \<Rightarrow> [] | c # cs \<Rightarrow> if c = CHR ''-'' \<or> c = CHR ''+'' then cs else t);
          ds = takeWhile is_digit u;
          v = int (read_digits ds);
          r = (if neg then - v else v)
      in if ds = [] then Inl Invalid_Argument
         else if r < - INT_MAX - 1 \<or> INT_MAX < r then Inl Out_Of_Range
         else Inr r)"

lemma digit_char_facts [simp]:
  assumes "d < 10"
  shows "is_digit (digit_char d)" "digit_val (digit_char d) = d"
    "digit_char d \<noteq> CHR ''-''" "digit_char d \<noteq> CHR ''+''" "\<not> is_space (digit_char d)"
proof -
  have v: "of_char (digit_char d) = 48 + d"
    using assms by (simp add: digit_char_def of_char_of)
  then show "is_digit (digit_char d)" "digit_val (digit_char d) = d"
    using assms by (simp_all add: is_digit_def digit_val_def)
  have "c \<noteq> digit_char d" if "of_char c < (48::nat)" for c
    using that v by auto
  then show "digit_char d \<noteq> CHR ''-''" "digit_char d \<noteq> CHR ''+''" "\<not> is_space (digit_char d)"
    using v assms by (auto simp: is_space_def)
qed

lemma read_digits_snoc: "read_digits (ds @ [c]) = 10 * read_digits ds + digit_val c"
  by (simp add: read_digits_def)

lemma show_nat_facts:
  "read_digits (show_nat n) = n \<and> list_all is_digit (show_nat n) \<and>
   (\<exists>d ds. d < 10 \<and> show_nat n = digit_char d # ds)"
proof (induction n rule: show_nat.induct)
  case (1 n)
  show ?case
  proof (cases "n < 10")
    case True
    then show ?thesis by (auto simp: show_nat.simps [of n] read_digits_def)
  next
    case False
    with "1.IH" have IH: "read_digits (show_nat (n div 10)) = n div 10"
      "list_all is_digit (show_nat (n div 10))"
      "\<exists>d ds. d < 10 \<and> show_nat (n div 10) = digit_char d # ds" by auto
    then show ?thesis
      using False by (auto simp: show_nat.simps [of n] read_digits_snoc)
  qed
qed

lemma stoi_to_string:
  assumes "- INT_MAX - 1 \<le> i" "i \<le> INT_MAX"
  shows "stoi (to_string i) = Inr i"
proof -
  let ?n = "nat \<bar>i\<bar>"
  have digits: "takeWhile is_digit (show_nat ?n) = show_nat ?n" "read_digits (show_nat ?n) = ?n"
    using show_nat_facts [of ?n] by (simp_all add: list_all_iff)
  obtain d ds where d: "d < 10" "show_nat ?n = digit_char d # ds"
    using show_nat_facts [of ?n] by blast
  have tw: "takeWhile is_digit ds = ds" using digits(1) d by simp
  show ?thesis
  proof (cases "i < 0")
    case True
    then have "to_string i = CHR ''-'' # show_nat ?n" by (simp add: to_string_def)
    moreover have "\<not> is_space (CHR ''-'')" by (simp add: is_space_def)
    ultimately show ?thesis using True digits d assms by (auto simp: stoi_def Let_def tw)
  next
    case False
    then have "to_string i = show_nat ?n" by (simp add: to_string_def)
    with False digits d assms show ?thesis by (auto simp: stoi_def Let_def tw)
  qed
qed

end
