(* ===== verification/Trace_Monitor.thy ===== *)
theory Trace_Monitor
  imports Cpp_Strings Verdict_Exchange
begin

text \<open>
  The class Monitor of main.cpp: its state with the fixed-size arrays for the trace, the
  initialisation, the verdict exchange, reading a trace file (\<open>readFile\<close>) and cutting a
  segment out of it together with the happened-before pairs (\<open>readSegTrace\<close>). Every
  array access is checked against the declared size; an access beyond it is a fault.
\<close>

section \<open>State\<close>

record trace_monitor =
  mid :: int
  subformula :: "string list"
  observations :: "bool list"
  num_monitors :: int
  verdicts :: "bool list"
  verdicts_mod :: "bool list"
  traceFileName :: string
  EValue :: "string list list"
  EName :: "string list list"
  numProcess :: int
  numEvent :: "int list"
  EValueAll :: "string list list"
  numEventAll :: "int list"
  hbSet :: "(int \<times> int) list"
  numHbSet :: int

definition blank :: "string list list" where
  "blank = replicate 10 (replicate 100 [])"

definition Monitor_default :: "int \<Rightarrow> trace_monitor" where
  \<comment> \<open>\<open>Monitor()\<close>: strings start empty, \<open>junk\<close> stands for the uninitialised integers\<close>
  "Monitor_default junk =
     \<lparr>mid = junk, subformula = [], observations = [], num_monitors = 10, verdicts = [],
      verdicts_mod = [], traceFileName = [], EValue = blank, EName = blank, numProcess = junk,
      numEvent = replicate 10 junk, EValueAll = blank, numEventAll = replicate 10 junk,
      hbSet = replicate 50 (junk, junk), numHbSet = junk\<rparr>"

definition setValues :: "int \<Rightarrow> string list \<Rightarrow> int \<Rightarrow> string \<Rightarrow> trace_monitor \<Rightarrow> trace_monitor" where
  "setValues m_id m_subformula m_num_monitors traceFile m =
     m\<lparr>traceFileName := traceFile, mid := m_id, subformula := m_subformula,
       num_monitors := m_num_monitors,
       verdicts := verdicts m @ replicate (nat m_num_monitors) False,
       verdicts_mod := verdicts_mod m @ replicate (nat m_num_monitors) False,
       EName := blank, EValue := blank, EValueAll := blank,
       numEvent := replicate 10 0, numEventAll := replicate 10 0, numProcess := 0,
       hbSet := replicate 50 (0, 0), numHbSet := 0\<rparr>"

definition Monitor :: "int \<Rightarrow> string list \<Rightarrow> int \<Rightarrow> trace_monitor" where
  "Monitor m_id m_subformula m_num_monitors =
     \<lparr>mid = m_id, subformula = m_subformula, observations = [], num_monitors = m_num_monitors,
      verdicts = replicate (nat m_num_monitors) False,
      verdicts_mod = replicate (nat m_num_monitors) False,
      traceFileName = ''details.txt'', EValue = blank, EName = blank, numProcess = 0,
      numEvent = replicate 10 0, EValueAll = blank, numEventAll = replicate 10 0,
      hbSet = replicate 50 (0, 0), numHbSet = 0\<rparr>"

section \<open>Verdict exchange\<close>

definition GetVerdict :: "nat \<Rightarrow> bool \<Rightarrow> trace_monitor \<Rightarrow> trace_monitor result" where
  "GetVerdict position verdict m =
     rbind (vset (verdicts m) position verdict) (\<lambda>vs.
     rbind (vset (verdicts_mod m) position True) (\<lambda>ms.
       Inr (m\<lparr>verdicts := vs, verdicts_mod := ms\<rparr>)))"

definition share_body :: "trace_monitor \<Rightarrow> nat \<Rightarrow> trace_monitor \<Rightarrow> trace_monitor result" where
  "share_body this c m =
     rbind (vget (verdicts_mod this) c) (\<lambda>modified.
       if modified then rbind (vget (verdicts this) c) (\<lambda>v. GetVerdict c v m) else Inr m)"

definition ShareVerdict :: "trace_monitor \<Rightarrow> trace_monitor \<Rightarrow> trace_monitor result" where
  \<comment> \<open>\<open>this\<close> and the receiver are distinct objects, as main guarantees by \<open>i != j\<close>\<close>
  "ShareVerdict this m = rfold (share_body this) [0..<to_u32 (num_monitors this)] m"

section \<open>Reading a trace file\<close>

type_synonym files = "string \<rightharpoonup> string list"

definition lines_of :: "files \<Rightarrow> string \<Rightarrow> string list" where
  \<comment> \<open>a stream on a missing file delivers no line\<close>
  "lines_of fs name = (case fs name of None \<Rightarrow> [] | Some ls \<Rightarrow> ls)"

definition is_header :: "string \<Rightarrow> bool" where
  "is_header line \<longleftrightarrow> contains ''light'' line \<or> contains ''switch'' line"

definition aget :: "'a list \<Rightarrow> int \<Rightarrow> 'a result" where
  "aget xs i = (if i < 0 then Inl Out_Of_Range else vget xs (nat i))"

definition aset :: "'a list \<Rightarrow> int \<Rightarrow> 'a \<Rightarrow> 'a list result" where
  "aset xs i v = (if i < 0 then Inl Out_Of_Range else vset xs (nat i) v)"

definition aset2 :: "'a list list \<Rightarrow> int \<Rightarrow> int \<Rightarrow> 'a \<Rightarrow> 'a list list result" where
  "aset2 xss i j v = rbind (aget xss i) (\<lambda>row. rbind (aset row j v) (\<lambda>row'. aset xss i row'))"

definition aget2 :: "'a list list \<Rightarrow> int \<Rightarrow> int \<Rightarrow> 'a result" where
  "aget2 xss i j = rbind (aget xss i) (\<lambda>row. aget row j)"

definition read_line :: "string \<Rightarrow> trace_monitor \<Rightarrow> trace_monitor result" where
  "read_line line m =
     (if is_header line then Inr (m\<lparr>numProcess := numProcess m + 1\<rparr>)
      else rbind (aget (numEventAll m) (numProcess m)) (\<lambda>k.
           rbind (aset (numEventAll m) (numProcess m) (k + 1)) (\<lambda>counts.
           rbind (aset2 (EValueAll m) (numProcess m) k line) (\<lambda>vals.
             Inr (m\<lparr>EValueAll := vals, numEventAll := counts\<rparr>)))))"

definition readFile :: "files \<Rightarrow> trace_monitor \<Rightarrow> trace_monitor result" where
  "readFile fs m = rfold read_line (lines_of fs (traceFileName m)) (m\<lparr>numProcess := -1\<rparr>)"

section \<open>Cutting a segment\<close>

definition seg_event :: "int \<Rightarrow> int \<Rightarrow> int \<times> trace_monitor \<Rightarrow> (int \<times> trace_monitor) result" where
  "seg_event i j = (\<lambda>(num, m).
     rbind (aget (numEvent m) i) (\<lambda>k.
     rbind (aset2 (EName m) i k (to_string num)) (\<lambda>names.
     rbind (aget2 (EValueAll m) i j) (\<lambda>v.
     rbind (aset2 (EValue m) i k v) (\<lambda>vals.
     rbind (aset (numEvent m) i (k + 1)) (\<lambda>counts.
       Inr (num + 1, m\<lparr>EName := names, EValue := vals, numEvent := counts\<rparr>)))))))"

definition seg_process :: "int \<Rightarrow> int \<Rightarrow> int \<Rightarrow> int \<times> trace_monitor \<Rightarrow> (int \<times> trace_monitor) result" where
  "seg_process start fin i = (\<lambda>(num, m).
     rbind (aset (numEvent m) i 0) (\<lambda>counts.
     rbind (aget (numEventAll m) i) (\<lambda>total.
       rfold (seg_event i) [start..min total fin - 1] (num, m\<lparr>numEvent := counts\<rparr>))))"

definition hb_add :: "int \<Rightarrow> int \<Rightarrow> int \<Rightarrow> int \<Rightarrow> int \<Rightarrow> trace_monitor \<Rightarrow> trace_monitor result" where
  "hb_add eps i j k l m =
     (if \<bar>j - l\<bar> \<ge> eps \<and> i \<noteq> k then
        rbind (rbind (aget2 (EName m) i j) stoi) (\<lambda>a.
        rbind (rbind (aget2 (EName m) k l) stoi) (\<lambda>b.
        rbind (aset (hbSet m) (numHbSet m) (a, b)) (\<lambda>hb.
          Inr (m\<lparr>hbSet := hb, numHbSet := numHbSet m + 1\<rparr>))))
      else Inr m)"

definition hb_loops :: "int \<Rightarrow> trace_monitor \<Rightarrow> trace_monitor result" where
  "hb_loops eps m0 =
     rfold (\<lambda>i m. rbind (aget (numEvent m) i) (\<lambda>ni.
       rfold (\<lambda>j m.
         rfold (\<lambda>k m. rbind (aget (numEvent m) k) (\<lambda>nk.
           rfold (\<lambda>l m. hb_add eps i j k l m) [0..nk - 1] m)) [0..numProcess m0 - 1] m)
       [0..ni - 1] m)) [0..numProcess m0 - 1] m0"

definition readSegTrace :: "int \<Rightarrow> int \<Rightarrow> int \<Rightarrow> trace_monitor \<Rightarrow> trace_monitor result" where
  "readSegTrace start fin eps m =
     rbind (rfold (seg_process (max (start - eps) 0) fin) [0..numProcess m - 1] (1, m)) (\<lambda>(num, m1).
       hb_loops eps m1)"

section \<open>What \<open>readFile\<close> stores\<close>

text \<open>
  The abstract reading of a trace file: a header starts a new process, every other line is
  an event of the latest process. \<open>fits\<close> is the room the arrays have: events need a
  process, at most ten processes may have events, each at most a hundred.
\<close>

definition add_line :: "string list list \<Rightarrow> string \<Rightarrow> string list list" where
  "add_line ps line = (if is_header line then ps @ [[]] else butlast ps @ [last ps @ [line]])"

definition room_for :: "string list list \<Rightarrow> string \<Rightarrow> bool" where
  "room_for ps line \<longleftrightarrow>
     is_header line \<or> ps \<noteq> [] \<and> length ps \<le> 10 \<and> length (last ps) < 100"

fun fits :: "string list list \<Rightarrow> string list \<Rightarrow> bool" where
  "fits ps [] = True"
| "fits ps (l # ls) = (room_for ps l \<and> fits (add_line ps l) ls)"

definition shape :: "'a list list \<Rightarrow> bool" where
  "shape a \<longleftrightarrow> length a = 10 \<and> (\<forall>r \<in> set a. length r = 100)"

definition holds_trace :: "string list list \<Rightarrow> trace_monitor \<Rightarrow> bool" where
  "holds_trace ps m \<longleftrightarrow>
     numProcess m = int (length ps) - 1 \<and> shape (EValueAll m) \<and> length (numEventAll m) = 10 \<and>
     (\<forall>i<10. numEventAll m ! i = (if i < length ps then int (length (ps ! i)) else 0)) \<and>
     (\<forall>i<length ps. length (ps ! i) \<le> 100 \<and> (10 \<le> i \<longrightarrow> ps ! i = [])) \<and>
     (\<forall>i<10. i < length ps \<longrightarrow> take (length (ps ! i)) (EValueAll m ! i) = ps ! i)"

lemma shape_blank [simp]: "shape blank"
  by (auto simp: shape_def blank_def)

lemma shape_update [simp]: "shape a \<Longrightarrow> length r = 100 \<Longrightarrow> shape (a[i := r])"
  unfolding shape_def by (auto dest!: set_update_subset_insert [THEN subsetD])

lemma shape_nth [simp]: "shape a \<Longrightarrow> i < 10 \<Longrightarrow> length (a ! i) = 100"
  by (simp add: shape_def)

lemma shape_length [simp]: "shape a \<Longrightarrow> length a = 10"
  by (simp add: shape_def)

lemma aget_nat [simp]: "i < length xs \<Longrightarrow> aget xs (int i) = Inr (xs ! i)"
  by (simp add: aget_def)

lemma aset_nat [simp]: "i < length xs \<Longrightarrow> aset xs (int i) v = Inr (xs[i := v])"
  by (simp add: aset_def)

lemma aset2_nat [simp]:
  "i < length xss \<Longrightarrow> j < length (xss ! i) \<Longrightarrow>
     aset2 xss (int i) (int j) v = Inr (xss[i := (xss ! i)[j := v]])"
  by (simp add: aset2_def)

lemma aget2_nat [simp]:
  "i < length xss \<Longrightarrow> j < length (xss ! i) \<Longrightarrow> aget2 xss (int i) (int j) = Inr (xss ! i ! j)"
  by (simp add: aget2_def)

lemma take_update_same: "n < length xs \<Longrightarrow> take (Suc n) (xs[n := v]) = take n xs @ [v]"
  by (simp add: take_Suc_conv_app_nth)

lemma read_header: "holds_trace ps m \<Longrightarrow> is_header l \<Longrightarrow>
    \<exists>m'. read_line l m = Inr m' \<and> holds_trace (add_line ps l) m'"
  by (auto simp: read_line_def add_line_def holds_trace_def nth_append less_Suc_eq)

lemma read_event:
  assumes h: "holds_trace ps m" and l: "\<not> is_header l" "room_for ps l"
  shows "\<exists>m'. read_line l m = Inr m' \<and> holds_trace (add_line ps l) m'"
proof -
  from l obtain qs q where ps: "ps = qs @ [q]" and q: "length q < 100" "length qs < 10"
    by (cases ps rule: rev_cases) (auto simp: room_for_def)
  let ?n = "length qs"
  have ev: "numEventAll m ! ?n = int (length q)" "numProcess m = int ?n"
    using h q by (auto simp: holds_trace_def ps)
  have rows: "take (length q) (EValueAll m ! ?n) = q" "shape (EValueAll m)" "length (numEventAll m) = 10"
    using h q by (auto simp: holds_trace_def ps)
  let ?m' = "m\<lparr>EValueAll := (EValueAll m)[?n := (EValueAll m ! ?n)[length q := l]],
               numEventAll := (numEventAll m)[?n := int (length q) + 1]\<rparr>"
  have "read_line l m = Inr ?m'"
    using l(1) ev rows q by (simp add: read_line_def)
  moreover have "holds_trace (qs @ [q @ [l]]) ?m'"
    using h q rows ev unfolding holds_trace_def ps
    by (auto simp: nth_append nth_list_update take_update_same less_Suc_eq)
  ultimately show ?thesis using l(1) by (auto simp: add_line_def ps)
qed

lemma read_no_room:
  assumes "holds_trace ps m" "\<not> room_for ps l"
  shows "read_line l m = Inl Out_Of_Range"
proof (cases ps rule: rev_cases)
  case Nil
  with assms show ?thesis by (simp add: read_line_def room_for_def holds_trace_def aget_def)
next
  case (snoc qs q)
  with assms show ?thesis
    by (cases "length qs < 10")
       (auto simp: read_line_def room_for_def holds_trace_def aget_def vget_def aset2_def aset_def vset_def)
qed

lemma read_lines:
  assumes "holds_trace ps m"
  shows "if fits ps ls then \<exists>m'. rfold read_line ls m = Inr m' \<and> holds_trace (foldl add_line ps ls) m'
         else rfold read_line ls m = Inl Out_Of_Range"
  using assms
proof (induction ls arbitrary: ps m)
  case Nil
  then show ?case by simp
next
  case (Cons l ls)
  show ?case
  proof (cases "room_for ps l")
    case True
    then obtain m1 where "read_line l m = Inr m1" "holds_trace (add_line ps l) m1"
      using read_header [OF Cons.prems] read_event [OF Cons.prems] by blast
    with Cons.IH [of "add_line ps l" m1] True show ?thesis by simp
  next
    case False
    with read_no_room [OF Cons.prems] show ?thesis by simp
  qed
qed

text \<open>A file made of blocks, each a header and its events, is read back block by block.\<close>

lemma foldl_events:
  "list_all (\<lambda>l. \<not> is_header l) vs \<Longrightarrow> foldl add_line (ps @ [q]) vs = ps @ [q @ vs]"
  by (induction vs arbitrary: q) (auto simp: add_line_def)

lemma foldl_blocks:
  assumes "\<forall>(h, vs) \<in> set bs. is_header h \<and> list_all (\<lambda>l. \<not> is_header l) vs"
  shows "foldl add_line ps (concat (map (\<lambda>(h, vs). h # vs) bs)) = ps @ map snd bs"
  using assms by (induction bs arbitrary: ps) (auto simp: foldl_events add_line_def)

lemma fits_events:
  assumes "list_all (\<lambda>l. \<not> is_header l) vs"
  shows "fits (ps @ [q]) (vs @ ls) \<longleftrightarrow>
     (vs = [] \<or> length ps < 10 \<and> length q + length vs \<le> 100) \<and> fits (ps @ [q @ vs]) ls"
  using assms by (induction vs arbitrary: q) (auto simp: add_line_def room_for_def Suc_le_eq)

lemma fits_blocks:
  assumes "\<forall>(h, vs) \<in> set bs. is_header h \<and> list_all (\<lambda>l. \<not> is_header l) vs"
    and "length ps + length bs \<le> 10"
  shows "fits ps (concat (map (\<lambda>(h, vs). h # vs) bs)) \<longleftrightarrow> (\<forall>(h, vs) \<in> set bs. length vs \<le> 100)"
  using assms
proof (induction bs arbitrary: ps)
  case (Cons b bs)
  obtain h vs where b: "b = (h, vs)" by (cases b)
  from Cons b show ?case
    by (auto simp: room_for_def add_line_def fits_events)
qed simp

section \<open>What \<open>readSegTrace\<close> stores\<close>

text \<open>
  The segment of one process is the slice from \<open>start\<close> to \<open>fin\<close> of its events; the events
  of all processes are numbered consecutively from 1.
\<close>

definition slice :: "nat \<Rightarrow> nat \<Rightarrow> 'a list \<Rightarrow> 'a list" where
  "slice start fin xs = take (fin - start) (drop start xs)"

definition offset :: "nat list \<Rightarrow> nat \<Rightarrow> nat" where
  "offset ns i = sum_list (take i ns)"

definition buffers_ok :: "trace_monitor \<Rightarrow> bool" where
  "buffers_ok m \<longleftrightarrow> shape (EName m) \<and> shape (EValue m) \<and> length (numEvent m) = 10"

definition has_segment :: "string list list \<Rightarrow> nat \<Rightarrow> nat \<Rightarrow> nat \<Rightarrow> trace_monitor \<Rightarrow> bool" where
  \<comment> \<open>row \<open>i\<close> holds the names from number \<open>a + 1\<close> on and the values of the segment \<open>seg\<close>\<close>
  "has_segment segs a i n m \<longleftrightarrow>
     numEvent m ! i = int n \<and>
     take n (EValue m ! i) = take n (segs ! i) \<and>
     take n (EName m ! i) = map (\<lambda>k. to_string (int (a + k + 1))) [0..<n]"

lemma length_slice: "length (slice s f xs) = min (f - s) (length xs - s)"
  by (simp add: slice_def)

lemma slice_le: "length (slice s f xs) \<le> length xs"
  by (simp add: slice_def)

lemma nth_slice:
  assumes "k < length (slice s f xs)"
  shows "slice s f xs ! k = xs ! (s + k)"
proof -
  from assms have "s \<le> length xs" "k < f - s" unfolding length_slice by linarith+
  then show ?thesis by (simp add: slice_def)
qed

lemma upt_shift: "[s..<m] = map (\<lambda>k. s + k) [0..<m - s]"
  by (rule nth_equalityI) auto

lemma slice_range:
  "[int s..min (int (length xs)) (int f) - 1] = map (\<lambda>k. int (s + k)) [0..<length (slice s f xs)]"
proof -
  have "[int a..int b - 1] = map int [a..<b]" for a b
  proof (induction "b - a" arbitrary: b)
    case 0
    then show ?case by simp
  next
    case (Suc d)
    then obtain c where c: "b = Suc c" "a \<le> c" by (cases b) auto
    with Suc have "[int a..int c - 1] = map int [a..<c]" by simp
    with c show ?case using upto_rec2 [of "int a" "int c"] by simp
  qed
  from this [of s "min (length xs) f"]
  have "[int s..min (int (length xs)) (int f) - 1] = map int [s..<min (length xs) f]"
    by (simp add: of_nat_min)
  also have "\<dots> = map (\<lambda>k. int (s + k)) [0..<min (length xs) f - s]"
    by (subst upt_shift) simp
  also have "min (length xs) f - s = length (slice s f xs)"
    by (auto simp: length_slice)
  finally show ?thesis .
qed

text \<open>One event of the segment: the loop body copies the next name and value.\<close>

lemma seg_event_step:
  assumes b: "buffers_ok m" and i: "i < 10" and k: "k < 100" "k < length (segs ! i)"
    and seg: "has_segment segs a i k m"
    and src: "shape (EValueAll m)" "j < 100" "EValueAll m ! i ! j = segs ! i ! k"
  shows "\<exists>names vals counts.
     seg_event (int i) (int j) (int (a + k + 1), m) =
       Inr (int (a + Suc k + 1), m\<lparr>EName := names, EValue := vals, numEvent := counts\<rparr>) \<and>
     buffers_ok (m\<lparr>EName := names, EValue := vals, numEvent := counts\<rparr>) \<and>
     has_segment segs a i (Suc k) (m\<lparr>EName := names, EValue := vals, numEvent := counts\<rparr>) \<and>
     (\<forall>i'. i' \<noteq> i \<longrightarrow> names ! i' = EName m ! i' \<and> vals ! i' = EValue m ! i' \<and> counts ! i' = numEvent m ! i')"
proof -
  let ?names = "(EName m)[i := (EName m ! i)[k := to_string (int (a + k + 1))]]"
  let ?vals = "(EValue m)[i := (EValue m ! i)[k := segs ! i ! k]]"
  let ?counts = "(numEvent m)[i := int k + 1]"
  have "seg_event (int i) (int j) (int (a + k + 1), m) =
      Inr (int (a + Suc k + 1), m\<lparr>EName := ?names, EValue := ?vals, numEvent := ?counts\<rparr>)"
    using b i k seg src by (simp add: seg_event_def buffers_ok_def has_segment_def)
  moreover have "has_segment segs a i (Suc k) (m\<lparr>EName := ?names, EValue := ?vals, numEvent := ?counts\<rparr>)"
    using b i k seg by (simp add: has_segment_def buffers_ok_def take_update_same take_Suc_conv_app_nth)
  moreover have "buffers_ok (m\<lparr>EName := ?names, EValue := ?vals, numEvent := ?counts\<rparr>)"
    using b i by (simp add: buffers_ok_def)
  ultimately show ?thesis by (intro exI [of _ ?names] exI [of _ ?vals] exI [of _ ?counts]) simp
qed

text \<open>The trace itself and the happened-before set are not touched while cutting.\<close>

definition same_source :: "trace_monitor \<Rightarrow> trace_monitor \<Rightarrow> bool" where
  "same_source m0 m \<longleftrightarrow>
     mid m = mid m0 \<and> subformula m = subformula m0 \<and> observations m = observations m0 \<and>
     num_monitors m = num_monitors m0 \<and> verdicts m = verdicts m0 \<and> verdicts_mod m = verdicts_mod m0 \<and>
     traceFileName m = traceFileName m0 \<and> numProcess m = numProcess m0 \<and>
     EValueAll m = EValueAll m0 \<and> numEventAll m = numEventAll m0 \<and>
     hbSet m = hbSet m0 \<and> numHbSet m = numHbSet m0"

definition same_rows :: "nat \<Rightarrow> trace_monitor \<Rightarrow> trace_monitor \<Rightarrow> bool" where
  "same_rows i m m' \<longleftrightarrow> (\<forall>i'. i' \<noteq> i \<longrightarrow>
     EName m' ! i' = EName m ! i' \<and> EValue m' ! i' = EValue m ! i' \<and> numEvent m' ! i' = numEvent m ! i')"

lemma seg_process_step:
  assumes trace: "holds_trace ps m0" and src: "same_source m0 m" and b: "buffers_ok m"
    and i: "i < 10" "i < length ps" and segs_def: "segs = map (slice s f) ps"
  shows "\<exists>m'. seg_process (int s) (int f) (int i) (int (a + 1), m) = Inr (int (a + length (segs ! i) + 1), m') \<and>
     same_source m0 m' \<and> buffers_ok m' \<and> has_segment segs a i (length (segs ! i)) m' \<and> same_rows i m m'"
proof -
  let ?n = "length (segs ! i)"
  let ?m1 = "m\<lparr>numEvent := (numEvent m)[i := 0]\<rparr>"
  let ?P = "\<lambda>k (num, m'). num = int (a + k + 1) \<and> same_source m0 m' \<and> buffers_ok m' \<and>
     has_segment segs a i k m' \<and> same_rows i m m'"
  have si: "segs ! i = slice s f (ps ! i)" using i by (simp add: segs_def)
  have all: "numEventAll m = numEventAll m0" "EValueAll m = EValueAll m0"
    using src by (simp_all add: same_source_def)
  have vals: "shape (EValueAll m0)" "length (ps ! i) \<le> 100"
    "\<And>j. j < length (ps ! i) \<Longrightarrow> EValueAll m0 ! i ! j = ps ! i ! j"
    using trace i unfolding holds_trace_def by (blast, blast, metis nth_take)
  have "\<exists>s'. seg_event (int i) (int (s + k)) st = Inr s' \<and> ?P (Suc k) s'" if "k < ?n" "?P k st" for k st
  proof -
    obtain num m' where st: "st = (num, m')" by (cases st)
    have k: "s + k < length (ps ! i)" "segs ! i ! k = ps ! i ! (s + k)"
      using that(1) by (auto simp: si nth_slice length_slice)
    have src': "EValueAll m' = EValueAll m0"
      using that(2) st by (simp add: same_source_def)
    show ?thesis
      using seg_event_step [of m' i k segs a "s + k"] that st k vals i src'
      by (auto simp: same_source_def same_rows_def) 
  qed
  then have "\<exists>s'. rfold (\<lambda>k. seg_event (int i) (int (s + k))) [0..<?n] (int (a + 0 + 1), ?m1) = Inr s' \<and> ?P ?n s'"
    using src b i by (intro rfold_upt_total) (auto simp: same_source_def buffers_ok_def has_segment_def same_rows_def)
  then show ?thesis
    using trace b i all
    by (auto simp: seg_process_def holds_trace_def buffers_ok_def slice_range si)
qed

text \<open>All processes: the whole first phase of \<open>readSegTrace\<close>.\<close>

lemma offset_Suc: "i < length ns \<Longrightarrow> offset ns (Suc i) = offset ns i + ns ! i"
  by (simp add: offset_def take_Suc_conv_app_nth)

definition segment_of :: "string list list \<Rightarrow> nat \<Rightarrow> trace_monitor \<Rightarrow> bool" where
  \<comment> \<open>rows \<open>0..<p\<close> hold the segments \<open>segs\<close>, numbered through\<close>
  "segment_of segs p m \<longleftrightarrow> buffers_ok m \<and>
     (\<forall>i<p. has_segment segs (offset (map length segs) i) i (length (segs ! i)) m)"

lemma has_segment_same_rows:
  "same_rows i m m' \<Longrightarrow> i' \<noteq> i \<Longrightarrow> has_segment segs a i' n m' = has_segment segs a i' n m"
  by (simp add: same_rows_def has_segment_def)

lemma cut_processes:
  assumes trace: "holds_trace ps m" and b: "buffers_ok m" and p: "p \<le> 10" "p \<le> length ps"
    and segs_def: "segs = map (slice s f) ps"
  shows "\<exists>m'. rfold (seg_process (int s) (int f)) (map int [0..<p]) (1, m)
            = Inr (int (offset (map length segs) p + 1), m') \<and>
          same_source m m' \<and> segment_of segs p m'"
proof -
  let ?ns = "map length segs"
  let ?P = "\<lambda>i (num, m'). num = int (offset ?ns i + 1) \<and> same_source m m' \<and> segment_of segs i m'"
  have "\<exists>st'. seg_process (int s) (int f) (int i) st = Inr st' \<and> ?P (Suc i) st'" if "i < p" "?P i st" for i st
  proof -
    obtain num m1 where st: "st = (num, m1)" by (cases st)
    with that p have "\<exists>m'. seg_process (int s) (int f) (int i) (int (offset ?ns i + 1), m1)
          = Inr (int (offset ?ns i + length (segs ! i) + 1), m') \<and>
        same_source m m' \<and> buffers_ok m' \<and> has_segment segs (offset ?ns i) i (length (segs ! i)) m' \<and>
        same_rows i m1 m'"
      by (intro seg_process_step [OF trace]) (auto simp: segment_of_def segs_def)
    then obtain m' where m': "seg_process (int s) (int f) (int i) (int (offset ?ns i + 1), m1)
          = Inr (int (offset ?ns i + length (segs ! i) + 1), m')"
        "same_source m m'" "buffers_ok m'" "has_segment segs (offset ?ns i) i (length (segs ! i)) m'"
        "same_rows i m1 m'"
      by blast
    have "offset ?ns (Suc i) = offset ?ns i + length (segs ! i)"
      using that(1) p by (simp add: offset_Suc segs_def)
    moreover have "segment_of segs (Suc i) m'"
    proof -
      have "segment_of segs i m1" using that(2) st by simp
      then show ?thesis
        using m'(3,4) has_segment_same_rows [OF m'(5)] by (auto simp: segment_of_def less_Suc_eq)
    qed
    ultimately show ?thesis using st that(2) m'(1,2) by auto
  qed
  moreover have "?P 0 (1, m)"
    using b by (simp add: offset_def same_source_def segment_of_def)
  ultimately have "\<exists>st'. rfold (\<lambda>i. seg_process (int s) (int f) (int i)) [0..<p] (1, m) = Inr st' \<and> ?P p st'"
    by (rule rfold_upt_total)
  then show ?thesis by auto
qed

section \<open>The happened-before pairs\<close>

text \<open>
  \<open>hb_pairs eps ns\<close> lists, in the order of the four nested loops, the pairs of event numbers
  that the code records for processes with \<open>ns\<close> events. \<open>push_hb\<close> appends pairs to the
  array of fifty entries or faults.
\<close>

definition event_number :: "nat list \<Rightarrow> int \<Rightarrow> int \<Rightarrow> int" where
  "event_number ns i j = int (offset ns (nat i)) + j + 1"

definition hb_pairs :: "int \<Rightarrow> nat list \<Rightarrow> (int \<times> int) list" where
  "hb_pairs eps ns =
     concat (map (\<lambda>i. concat (map (\<lambda>j. concat (map (\<lambda>k. concat (map (\<lambda>l.
       if \<bar>j - l\<bar> \<ge> eps \<and> i \<noteq> k then [(event_number ns i j, event_number ns k l)] else [])
       [0..int (ns ! nat k) - 1])) [0..int (length ns) - 1])) [0..int (ns ! nat i) - 1])) [0..int (length ns) - 1])"

definition hb_ok :: "trace_monitor \<Rightarrow> bool" where
  "hb_ok m \<longleftrightarrow> 0 \<le> numHbSet m \<and> nat (numHbSet m) \<le> length (hbSet m)"

definition push_hb :: "trace_monitor \<Rightarrow> (int \<times> int) list \<Rightarrow> trace_monitor result" where
  "push_hb m xs =
     (let n = nat (numHbSet m)
      in if n + length xs \<le> length (hbSet m)
         then Inr (m\<lparr>hbSet := take n (hbSet m) @ xs @ drop (n + length xs) (hbSet m),
                     numHbSet := numHbSet m + int (length xs)\<rparr>)
         else Inl Out_Of_Range)"

lemma push_hb_Nil [simp]: "hb_ok m \<Longrightarrow> push_hb m [] = Inr m"
  by (simp add: push_hb_def hb_ok_def)

lemma splice_facts:
  fixes hb xs :: "'a list"
  assumes "n + length xs \<le> length hb"
  defines "hb' \<equiv> take n hb @ xs @ drop (n + length xs) hb"
  shows "length hb' = length hb" "take (n + length xs) hb' = take n hb @ xs"
    "drop (n + length xs + k) hb' = drop (n + length xs + k) hb"
proof -
  have n: "length (take n hb) = n" using assms by simp
  show "length hb' = length hb" "take (n + length xs) hb' = take n hb @ xs"
    using assms by (simp_all add: hb'_def)
  show "drop (n + length xs + k) hb' = drop (n + length xs + k) hb"
    unfolding hb'_def drop_append n by (simp add: add.commute add.left_commute)
qed

lemma push_hb_append:
  assumes "hb_ok m"
  shows "push_hb m (xs @ ys) = rbind (push_hb m xs) (\<lambda>m'. push_hb m' ys)"
proof -
  from assms obtain n where n: "numHbSet m = int n" by (metis hb_ok_def nonneg_int_cases)
  show ?thesis
  proof (cases "n + length xs \<le> length (hbSet m)")
    case True
    define hb' where "hb' = take n (hbSet m) @ xs @ drop (n + length xs) (hbSet m)"
    note facts = splice_facts(1,2) [OF True, folded hb'_def]
      splice_facts(3) [OF True, of "length ys", folded hb'_def, unfolded add.assoc]
    have idx: "nat (int n + int (length xs)) = n + length xs" by simp
    from True have "push_hb m xs = Inr (m\<lparr>hbSet := hb', numHbSet := int n + int (length xs)\<rparr>)"
      by (simp add: push_hb_def n hb'_def)
    moreover have "push_hb (m\<lparr>hbSet := hb', numHbSet := int n + int (length xs)\<rparr>) ys = push_hb m (xs @ ys)"
      by (simp add: push_hb_def Let_def idx n facts add.assoc)
    ultimately show ?thesis by simp
  next
    case False
    then show ?thesis by (simp add: push_hb_def n)
  qed
qed

lemma push_hb_keeps:
  assumes "hb_ok m" "push_hb m xs = Inr m'"
  shows "hb_ok m' \<and> EName m' = EName m \<and> numEvent m' = numEvent m"
  using assms by (auto simp: push_hb_def hb_ok_def Let_def nat_add_distrib split: if_splits)

text \<open>A loop whose body appends pairs appends the concatenation of its pairs.\<close>

lemma rfold_push:
  assumes "\<And>x m. x \<in> set xs \<Longrightarrow> hb_ok m \<Longrightarrow> EName m = names \<Longrightarrow> numEvent m = counts \<Longrightarrow>
             f x m = push_hb m (g x)"
    and "hb_ok m" "EName m = names" "numEvent m = counts"
  shows "rfold f xs m = push_hb m (concat (map g xs))"
  using assms
proof (induction xs arbitrary: m)
  case Nil
  then show ?case by simp
next
  case (Cons x xs)
  then have "rfold f (x # xs) m = rbind (push_hb m (g x)) (rfold f xs)" by simp
  also have "\<dots> = rbind (push_hb m (g x)) (\<lambda>m'. push_hb m' (concat (map g xs)))"
  proof (cases "push_hb m (g x)")
    case (Inr m')
    with push_hb_keeps [OF Cons.prems(2) Inr] Cons.prems Cons.IH [of m'] show ?thesis by simp
  qed simp
  finally show ?case using push_hb_append [OF Cons.prems(2)] by simp
qed

text \<open>Reading a name back gives the event's number, so each body appends its pair.\<close>

lemma segment_name:
  assumes "segment_of segs p m" "p \<le> 10" "offset (map length segs) p \<le> 1000" "p \<le> length segs"
    and "0 \<le> i" "i < int p" "0 \<le> j" "j < int (length (segs ! nat i))" "length (segs ! nat i) \<le> 100"
  shows "rbind (aget2 (EName m) i j) stoi = Inr (event_number (map length segs) i j)"
proof -
  let ?ns = "map length segs"
  obtain a b where ab: "i = int a" "j = int b" using assms by (metis nonneg_int_cases)
  then have bounds: "a < p" "b < length (segs ! a)" using assms by auto
  then have "has_segment segs (offset ?ns a) a (length (segs ! a)) m" and buf: "buffers_ok m"
    using assms(1) by (auto simp: segment_of_def)
  then have "take (length (segs ! a)) (EName m ! a) ! b = to_string (int (offset ?ns a + b + 1))"
    using bounds by (simp add: has_segment_def)
  then have name: "EName m ! a ! b = to_string (int (offset ?ns a + b + 1))"
    using bounds by simp
  have "offset ?ns a \<le> offset ?ns p"
    unfolding offset_def using bounds(1)
    by (metis add_leD1 less_imp_le_nat le_add_diff_inverse order_refl sum_list_append take_add)
  then have "stoi (to_string (int (offset ?ns a + b + 1))) = Inr (int (offset ?ns a + b + 1))"
    using assms(3,9) ab bounds by (intro stoi_to_string) (auto simp: INT_MAX_def)
  moreover have "aget2 (EName m) i j = Inr (EName m ! a ! b)"
    using ab bounds buf assms(2,9) by (auto simp: buffers_ok_def)
  ultimately show ?thesis
    using ab name by (simp add: event_number_def)
qed

lemma hb_add_push:
  assumes "hb_ok m" "rbind (aget2 (EName m) i j) stoi = Inr a" "rbind (aget2 (EName m) k l) stoi = Inr b"
  shows "hb_add eps i j k l m = push_hb m (if \<bar>j - l\<bar> \<ge> eps \<and> i \<noteq> k then [(a, b)] else [])"
proof (cases "\<bar>j - l\<bar> \<ge> eps \<and> i \<noteq> k")
  case True
  from assms(1) obtain n where n: "numHbSet m = int n" "n \<le> length (hbSet m)"
    by (metis hb_ok_def nat_int nonneg_int_cases)
  with True assms show ?thesis
    by (cases "n < length (hbSet m)")
       (auto simp: hb_add_def push_hb_def aset_def vset_def upd_conv_take_nth_drop Cons_nth_drop_Suc Let_def)
next
  case False
  with assms(1) show ?thesis by (auto simp: hb_add_def)
qed

lemma offset_take: "i \<le> p \<Longrightarrow> offset (map f (take p xs)) i = offset (map f xs) i"
  by (simp add: offset_def take_map min_def)

lemma segment_of_take:
  assumes "p \<le> length segs"
  shows "segment_of segs p m \<longleftrightarrow> segment_of (take p segs) p m"
  using assms by (auto simp: segment_of_def has_segment_def offset_take)

lemma sum_list_bound: "(\<forall>x \<in> set xs. x \<le> b) \<Longrightarrow> sum_list xs \<le> b * length (xs :: nat list)"
  by (induction xs) auto

lemma hb_loops_push:
  assumes seg: "segment_of segs (length segs) m" and p: "length segs \<le> 10" "[0..numProcess m - 1] = [0..int (length segs) - 1]"
    and small: "\<forall>g \<in> set segs. length g \<le> 100" and ok: "hb_ok m"
  shows "hb_loops eps m = push_hb m (hb_pairs eps (map length segs))"
proof -
  let ?p = "length segs" and ?ns = "map length segs"
  have "offset ?ns ?p \<le> 100 * ?p"
    unfolding offset_def using sum_list_bound [of ?ns 100] small by simp
  with p(1) have total: "offset ?ns ?p \<le> 1000" by linarith
  have count: "aget (numEvent m) i = Inr (int (?ns ! nat i))" if "i \<in> set [0..int ?p - 1]" for i
  proof -
    from that obtain a where a: "i = int a" "a < ?p" by (metis atLeastAtMost_iff int_nat_eq nat_less_iff set_upto zle_diff1_eq)
    with seg p(1) show ?thesis by (auto simp: segment_of_def buffers_ok_def has_segment_def)
  qed
  have name: "rbind (aget2 (EName m) i j) stoi = Inr (event_number ?ns i j)"
    if "i \<in> set [0..int ?p - 1]" "j \<in> set [0..int (?ns ! nat i) - 1]" for i j
  proof -
    have "nat i < ?p" using that(1) by auto
    then have "length (segs ! nat i) \<le> 100" and "?ns ! nat i = length (segs ! nat i)"
      using small by auto
    with that show ?thesis
      by (intro segment_name [OF seg p(1) total]) auto
  qed
  show ?thesis
    unfolding hb_loops_def hb_pairs_def p(2) length_map
    by (intro rfold_push [where names = "EName m" and counts = "numEvent m"] ok refl)
       (auto simp only: count rbind.simps intro!: rfold_push [where names = "EName m" and counts = "numEvent m"] hb_add_push name)
qed

text \<open>
  The whole operation. Of the processes read, all but the last are cut (\<open>numProcess\<close> is one
  less than the number of headers), and the pairs are appended behind the pairs of earlier
  segments.
\<close>

lemma readSegTrace_push:
  assumes trace: "holds_trace ps m" and b: "buffers_ok m" and ok: "hb_ok m"
    and p: "length (butlast ps) \<le> 10" and f: "0 \<le> fin"
    and segs_def: "segs = map (slice (nat (max (start - eps) 0)) (nat fin)) (butlast ps)"
  shows "\<exists>m1. same_source m m1 \<and> segment_of segs (length segs) m1 \<and>
           readSegTrace start fin eps m = push_hb m1 (hb_pairs eps (map length segs))"
proof -
  let ?s = "nat (max (start - eps) 0)" and ?p = "length (butlast ps)"
  let ?all = "map (slice ?s (nat fin)) ps"
  have range: "[0..numProcess m - 1] = map int [0..<?p]"
    using trace slice_range [of 0 "butlast ps" ?p] by (cases ps) (auto simp: holds_trace_def slice_def)
  have "int ?s = max (start - eps) 0" "int (nat fin) = fin" using f by auto
  with cut_processes [OF trace b p, of ?all ?s "nat fin"] obtain m1 where m1:
    "rfold (seg_process (max (start - eps) 0) fin) (map int [0..<?p]) (1, m) = Inr (int (offset (map length ?all) ?p + 1), m1)"
    "same_source m m1" "segment_of ?all ?p m1"
    by auto
  have take: "take ?p ?all = segs" by (simp add: segs_def take_map butlast_conv_take)
  then have seg: "segment_of segs (length segs) m1"
    using m1(3) segment_of_take [of ?p ?all m1] by (simp add: segs_def)
  have "\<forall>q \<in> set ps. length q \<le> 100"
    using trace by (auto simp: holds_trace_def in_set_conv_nth)
  then have "\<forall>g \<in> set segs. length g \<le> 100"
    by (auto simp: segs_def dest!: in_set_butlastD intro: le_trans [OF slice_le])
  moreover have "[0..numProcess m1 - 1] = [0..int (length segs) - 1]"
    using range m1(2) slice_range [of 0 "butlast ps" ?p] by (simp add: same_source_def segs_def slice_def)
  moreover have "hb_ok m1" using ok m1(2) by (simp add: hb_ok_def same_source_def)
  ultimately have "hb_loops eps m1 = push_hb m1 (hb_pairs eps (map length segs))"
    using seg p by (intro hb_loops_push) (auto simp: segs_def)
  then have "readSegTrace start fin eps m = push_hb m1 (hb_pairs eps (map length segs))"
    using m1(1) by (simp add: readSegTrace_def range del: rfold_map)
  with m1(2) seg show ?thesis by blast
qed

section \<open>Exchange between the monitors of a room\<close>

definition known :: "trace_monitor \<Rightarrow> (nat \<rightharpoonup> bool)" where
  "known m c = (if c < length (verdicts_mod m) \<and> verdicts_mod m ! c then Some (verdicts m ! c) else None)"

definition know :: "trace_monitor list \<Rightarrow> knowledge" where
  "know ms i = (if i < length ms then known (ms ! i) else Map.empty)"

definition share_pair :: "nat \<times> nat \<Rightarrow> trace_monitor list \<Rightarrow> trace_monitor list result" where
  "share_pair = (\<lambda>(i, j) ms.
     rbind (vget ms i) (\<lambda>mi. rbind (vget ms j) (\<lambda>mj. rbind (ShareVerdict mi mj) (\<lambda>mj'. vset ms j mj'))))"

definition room_inv :: "nat \<Rightarrow> trace_monitor list \<Rightarrow> bool" where
  "room_inv n ms \<longleftrightarrow> int n \<le> INT_MAX \<and> n \<le> length ms \<and>
     (\<forall>i<n. num_monitors (ms ! i) = int n \<and> length (verdicts (ms ! i)) = n \<and> length (verdicts_mod (ms ! i)) = n)"

definition distinct_pairs :: "nat \<Rightarrow> (nat \<times> nat) set" where
  "distinct_pairs n = {(i, j). i < n \<and> j < n \<and> i \<noteq> j}"

lemma share_body_known:
  assumes "c < n" "length (verdicts this) = n" "length (verdicts_mod this) = n"
    "num_monitors m = int n" "length (verdicts m) = n" "length (verdicts_mod m) = n"
  shows "\<exists>m'. share_body this c m = Inr m' \<and> num_monitors m' = int n \<and> length (verdicts m') = n \<and>
     length (verdicts_mod m') = n \<and> known m' = known m ++ (known this |` {c})"
  using assms
  by (auto simp: share_body_def GetVerdict_def known_def fun_eq_iff restrict_map_def map_add_def nth_list_update)

lemma ShareVerdict_known:
  assumes "int n \<le> INT_MAX" "num_monitors this = int n" "length (verdicts this) = n" "length (verdicts_mod this) = n"
    "num_monitors m = int n" "length (verdicts m) = n" "length (verdicts_mod m) = n"
  shows "\<exists>m'. ShareVerdict this m = Inr m' \<and> num_monitors m' = int n \<and> length (verdicts m') = n \<and>
     length (verdicts_mod m') = n \<and> known m' = known m ++ known this"
proof -
  let ?P = "\<lambda>c m'. num_monitors m' = int n \<and> length (verdicts m') = n \<and>
     length (verdicts_mod m') = n \<and> known m' = known m ++ (known this |` {..<c})"
  have split: "known m ++ (known this |` {..<c}) ++ (known this |` {c}) = known m ++ (known this |` {..<Suc c})" for c
    by (auto simp: map_add_def restrict_map_def fun_eq_iff less_Suc_eq split: option.splits)
  have step: "\<exists>m''. share_body this c m' = Inr m'' \<and> ?P (Suc c) m''" if "c < n" "?P c m'" for c m'
    using share_body_known [OF that(1) assms(3,4), of m'] that(2) split [of c] by auto
  have "?P 0 m" using assms by simp
  with step have "\<exists>m'. rfold (share_body this) [0..<n] m = Inr m' \<and> ?P n m'"
    by (rule rfold_upt_total)
  moreover have "known this |` {..<n} = known this"
    using assms by (auto simp: known_def restrict_map_def fun_eq_iff)
  ultimately show ?thesis using assms(1,2) by (simp add: ShareVerdict_def)
qed

interpretation room: verdict_exchange
  share_pair fst snd know "room_inv n" "distinct_pairs n" "{..<n}" for n :: nat
proof unfold_locales
  fix l and ms :: "trace_monitor list"
  assume l: "l \<in> distinct_pairs n" and inv: "room_inv n ms"
  obtain i j where ij: "l = (i, j)" "i < n" "j < n" "i \<noteq> j" using l by (auto simp: distinct_pairs_def)
  have len: "n \<le> length ms" using inv by (simp add: room_inv_def)
  from ShareVerdict_known [of n "ms ! i" "ms ! j"] inv ij obtain m' where m':
    "ShareVerdict (ms ! i) (ms ! j) = Inr m'" "num_monitors m' = int n" "length (verdicts m') = n"
    "length (verdicts_mod m') = n" "known m' = known (ms ! j) ++ known (ms ! i)"
    by (auto simp: room_inv_def)
  have "share_pair l ms = Inr (ms[j := m'])" using ij len m'(1) by (simp add: share_pair_def)
  moreover have "room_inv n (ms[j := m'])"
    using inv m'(2-4) ij(3) len by (simp add: room_inv_def nth_list_update)
  moreover have "know (ms[j := m']) = learn i j (know ms)"
    using ij len m'(5) by (auto simp: know_def learn_def fun_eq_iff)
  ultimately show "\<exists>s'. share_pair l ms = Inr s' \<and> room_inv n s' \<and> know s' = learn (fst l) (snd l) (know ms)"
    using ij by auto
qed (auto simp: distinct_pairs_def)

section \<open>Frames\<close>

definition same_work :: "trace_monitor \<Rightarrow> trace_monitor \<Rightarrow> bool" where
  \<comment> \<open>all that \<open>readFile\<close> leaves alone\<close>
  "same_work m m' \<longleftrightarrow> mid m' = mid m \<and> num_monitors m' = num_monitors m \<and>
     verdicts m' = verdicts m \<and> verdicts_mod m' = verdicts_mod m \<and> EName m' = EName m \<and> EValue m' = EValue m \<and>
     numEvent m' = numEvent m \<and> hbSet m' = hbSet m \<and> numHbSet m' = numHbSet m"

lemma read_line_same_work: "read_line l m = Inr m' \<Longrightarrow> same_work m m'"
  by (auto simp: read_line_def same_work_def result_simps split: if_splits)

lemma readFile_same_work:
  assumes "readFile fs m = Inr m'"
  shows "same_work m m'"
proof (rule rfold_invariant [OF assms [unfolded readFile_def], where P = "same_work m"])
  show "same_work m (m\<lparr>numProcess := -1\<rparr>)" by (simp add: same_work_def)
  show "same_work m s'" if "same_work m s" "read_line x s = Inr s'" for x s s'
    using that(1) read_line_same_work [OF that(2)] by (simp add: same_work_def)
qed

lemma readFile_after_setValues:
  "if fits [] (lines_of fs file)
   then \<exists>m'. readFile fs (setValues i fm n file m) = Inr m' \<and>
          holds_trace (foldl add_line [] (lines_of fs file)) m'
   else readFile fs (setValues i fm n file m) = Inl Out_Of_Range"
proof -
  have "holds_trace [] (setValues i fm n file m\<lparr>numProcess := -1\<rparr>)"
    by (simp add: holds_trace_def setValues_def)
  moreover have "traceFileName (setValues i fm n file m) = file"
    by (simp add: setValues_def)
  ultimately show ?thesis
    using read_lines [of "[]" _ "lines_of fs file"] by (simp add: readFile_def)
qed

lemma push_hb_segment:
  assumes "push_hb m xs = Inr m'"
  shows "segment_of segs p m' \<longleftrightarrow> segment_of segs p m"
  using assms by (auto simp: push_hb_def segment_of_def has_segment_def buffers_ok_def Let_def split: if_splits)

lemma push_hb_prefix:
  assumes "hb_ok m" "push_hb m xs = Inr m'"
  shows "take (nat (numHbSet m')) (hbSet m') = take (nat (numHbSet m)) (hbSet m) @ xs \<and>
         numHbSet m' = numHbSet m + int (length xs)"
  using assms by (auto simp: push_hb_def hb_ok_def Let_def nat_add_distrib split: if_splits)

lemma event_number_inj_bound:
  assumes "i < length ns" "j < ns ! i"
  shows "offset ns i + j < sum_list ns"
proof -
  have "offset ns (Suc i) \<le> sum_list ns"
    unfolding offset_def by (metis append_take_drop_id le_add1 sum_list_append)
  with assms offset_Suc [of i ns] show ?thesis by simp
qed

lemma hb_pairs_iff:
  "(a, b) \<in> set (hb_pairs eps ns) \<longleftrightarrow>
     (\<exists>i j k l. i < length ns \<and> k < length ns \<and> i \<noteq> k \<and> j < ns ! i \<and> l < ns ! k \<and>
        \<bar>int j - int l\<bar> \<ge> eps \<and> a = int (offset ns i + j + 1) \<and> b = int (offset ns k + l + 1))"
proof -
  have upto: "set [0..int n - 1] = int ` {..<n}" for n
    using image_int_atLeastLessThan [of 0 n] by (auto simp: lessThan_atLeast0 atLeastLessThanPlusOne_atLeastAtMost_int [symmetric])
  have "(a, b) \<in> set (hb_pairs eps ns) \<longleftrightarrow>
     (\<exists>i<length ns. \<exists>j<ns ! i. \<exists>k<length ns. \<exists>l<ns ! k. (a, b) \<in> set
       (if \<bar>int j - int l\<bar> \<ge> eps \<and> int i \<noteq> int k then [(event_number ns (int i) (int j), event_number ns (int k) (int l))] else []))"
    unfolding hb_pairs_def set_concat set_map upto image_image UN_iff bex_simps image_iff nat_int
    by (simp only: Bex_def lessThan_iff)
  also have "\<dots> \<longleftrightarrow> (\<exists>i j k l. i < length ns \<and> k < length ns \<and> i \<noteq> k \<and> j < ns ! i \<and> l < ns ! k \<and>
        \<bar>int j - int l\<bar> \<ge> eps \<and> a = int (offset ns i + j + 1) \<and> b = int (offset ns k + l + 1))"
    by (intro iffI; elim exE conjE) (auto simp: event_number_def split: if_splits)
  finally show ?thesis .
qed

definition demo_monitor :: trace_monitor where
  "demo_monitor = setValues 0 [] 1 ''t'' (Monitor_default 0)"

definition demo_trace :: "string list" where
  "demo_trace = [''aswitch'', ''0'', ''1'', ''blight'', ''1'', ''0'', ''clight'', ''1'']"

lemma demo_loaded:
  "\<exists>m. readFile [''t'' \<mapsto> demo_trace] demo_monitor = Inr m \<and>
     holds_trace [[''0'', ''1''], [''1'', ''0''], [''1'']] m \<and> buffers_ok m \<and> hb_ok m \<and>
     numHbSet m = 0 \<and> length (hbSet m) = 50"
proof -
  have "fits [] demo_trace" "foldl add_line [] demo_trace = [[''0'', ''1''], [''1'', ''0''], [''1'']]"
    by code_simp+
  then obtain m where m: "readFile [''t'' \<mapsto> demo_trace] demo_monitor = Inr m"
    "holds_trace [[''0'', ''1''], [''1'', ''0''], [''1'']] m"
    using readFile_after_setValues [of "[''t'' \<mapsto> demo_trace]" "''t''" 0 "[]" 1 "Monitor_default 0"]
    by (auto simp: lines_of_def demo_monitor_def)
  with readFile_same_work [OF m(1)] show ?thesis
    by (auto simp: same_work_def buffers_ok_def hb_ok_def demo_monitor_def setValues_def)
qed

text \<open>What \<open>readSegTrace\<close> stores and records.\<close>

lemma readSegTrace_stores:
  assumes "holds_trace ps m" "buffers_ok m" "hb_ok m" "length (butlast ps) \<le> 10" "0 \<le> fin"
    and "segs = map (slice (nat (max (start - eps) 0)) (nat fin)) (butlast ps)"
  shows "if nat (numHbSet m) + length (hb_pairs eps (map length segs)) \<le> length (hbSet m)
         then \<exists>m'. readSegTrace start fin eps m = Inr m' \<and> segment_of segs (length segs) m' \<and>
                take (nat (numHbSet m')) (hbSet m') =
                  take (nat (numHbSet m)) (hbSet m) @ hb_pairs eps (map length segs)
         else readSegTrace start fin eps m = Inl Out_Of_Range"
proof -
  let ?hb = "hb_pairs eps (map length segs)"
  obtain m1 where m1: "same_source m m1" "segment_of segs (length segs) m1"
    "readSegTrace start fin eps m = push_hb m1 ?hb"
    using readSegTrace_push [OF assms] by blast
  have hb: "hbSet m1 = hbSet m" "numHbSet m1 = numHbSet m" "hb_ok m1"
    using m1(1) assms(3) by (auto simp: same_source_def hb_ok_def)
  show ?thesis
  proof (cases "nat (numHbSet m) + length ?hb \<le> length (hbSet m)")
    case True
    then obtain m' where m': "push_hb m1 ?hb = Inr m'" by (auto simp: push_hb_def hb Let_def)
    with True m1 hb push_hb_prefix [OF hb(3) m', THEN conjunct1] push_hb_segment [OF m'] show ?thesis by simp
  next
    case False
    with m1(3) hb show ?thesis by (simp add: push_hb_def Let_def)
  qed
qed

section \<open>Properties\<close>

text \<open>
  C4. \<open>readFile\<close> on a freshly initialised monitor: when the file fits into the arrays it
  returns with exactly the processes and events of the file stored (and \<open>numProcess\<close> one less
  than the number of processes); when an event has no process, is one of more than a hundred
  of its process or belongs to an eleventh process, the code writes out of bounds.
\<close>

theorem readFile_correct:
  "if fits [] (lines_of fs file)
   then \<exists>m'. readFile fs (setValues i fm n file m) = Inr m' \<and>
          holds_trace (foldl add_line [] (lines_of fs file)) m'
   else readFile fs (setValues i fm n file m) = Inl Out_Of_Range"
  by (rule readFile_after_setValues)

text \<open>
  C5. \<open>readSegTrace\<close> on a loaded trace: every process but the last is cut to its events from
  \<open>max (start - eps) 0\<close> up to \<open>fin\<close>, names run consecutively from 1, and the
  happened-before pairs of the segment are appended behind those already recorded; when the
  fifty entries do not suffice the code writes out of bounds.
\<close>

theorem readSegTrace_correct:
  assumes "holds_trace ps m" "buffers_ok m" "hb_ok m" "length (butlast ps) \<le> 10" "0 \<le> fin"
    and "segs = map (slice (nat (max (start - eps) 0)) (nat fin)) (butlast ps)"
  shows "if nat (numHbSet m) + length (hb_pairs eps (map length segs)) \<le> length (hbSet m)
         then \<exists>m'. readSegTrace start fin eps m = Inr m' \<and> segment_of segs (length segs) m' \<and>
                take (nat (numHbSet m')) (hbSet m') =
                  take (nat (numHbSet m)) (hbSet m) @ hb_pairs eps (map length segs)
         else readSegTrace start fin eps m = Inl Out_Of_Range"
  using assms by (rule readSegTrace_stores)

theorem readSegTrace_correct_witness:
  "\<exists>m. holds_trace [[''0'', ''1''], [''1'', ''0''], [''1'']] m \<and> buffers_ok m \<and> hb_ok m \<and>
     (\<exists>m'. readSegTrace 0 4 1 m = Inr m' \<and> segment_of [[''0'', ''1''], [''1'', ''0'']] 2 m' \<and>
        take (nat (numHbSet m')) (hbSet m') = [(1, 4), (2, 3), (3, 2), (4, 1)])"
proof -
  let ?segs = "[[''0'', ''1''], [''1'', ''0'']]"
  obtain m where m: "holds_trace [[''0'', ''1''], [''1'', ''0''], [''1'']] m" "buffers_ok m" "hb_ok m"
    "numHbSet m = 0" "length (hbSet m) = 50"
    using demo_loaded by blast
  have hb: "hb_pairs 1 (map length ?segs) = [(1, 4), (2, 3), (3, 2), (4, 1)]" by code_simp
  have "?segs = map (slice (nat (max (0 - 1) 0)) (nat 4)) (butlast [[''0'', ''1''], [''1'', ''0''], [''1'']])"
    "length (butlast [[''0'', ''1''], [''1'', ''0''], [''1'']]) \<le> 10"
    by code_simp+
  note r = readSegTrace_correct [OF m(1-3) this(2) _ this(1), unfolded hb m(4,5)]
  show ?thesis
    by (rule exI [of _ m]) (use m r in \<open>simp add: numeral_2_eq_2\<close>)
qed

lemma hb_pairs_symmetric:
  assumes "(a, b) \<in> set (hb_pairs eps ns)"
  shows "(b, a) \<in> set (hb_pairs eps ns)" "a \<in> {1..int (sum_list ns)}" "b \<in> {1..int (sum_list ns)}"
proof -
  from assms obtain i j k l where h: "i < length ns" "k < length ns" "i \<noteq> k" "j < ns ! i" "l < ns ! k"
    "\<bar>int j - int l\<bar> \<ge> eps" "a = int (offset ns i + j + 1)" "b = int (offset ns k + l + 1)"
    unfolding hb_pairs_iff by blast
  moreover have "\<bar>int l - int j\<bar> \<ge> eps" using h(6) by linarith
  ultimately show "(b, a) \<in> set (hb_pairs eps ns)" unfolding hb_pairs_iff by blast
  show "a \<in> {1..int (sum_list ns)}" "b \<in> {1..int (sum_list ns)}"
    using h event_number_inj_bound [of i ns j] event_number_inj_bound [of k ns l] by simp_all
qed

text \<open>
  C13. The pairs \<open>readSegTrace\<close> records, the entries of \<open>hbSet\<close> between the old and the new
  \<open>numHbSet\<close>, form a symmetric relation on the event numbers: with every entry its converse is
  among them, and both numbers are between 1 and the number of events of the segment. The
  entries recorded before stay as they are.
\<close>

theorem recorded_pairs_symmetric:
  assumes "holds_trace ps m" "buffers_ok m" "hb_ok m" "length (butlast ps) \<le> 10" "0 \<le> fin"
    and "readSegTrace start fin eps m = Inr m'" "nat (numHbSet m) \<le> k" "k < nat (numHbSet m')"
  shows "(\<exists>k'. nat (numHbSet m) \<le> k' \<and> k' < nat (numHbSet m') \<and> hbSet m' ! k' = prod.swap (hbSet m' ! k)) \<and>
    1 \<le> fst (hbSet m' ! k) \<and> fst (hbSet m' ! k) \<le> sum_list (map (\<lambda>i. numEvent m' ! i) [0..<length (butlast ps)]) \<and>
    1 \<le> snd (hbSet m' ! k) \<and> snd (hbSet m' ! k) \<le> sum_list (map (\<lambda>i. numEvent m' ! i) [0..<length (butlast ps)]) \<and>
    take (nat (numHbSet m)) (hbSet m') = take (nat (numHbSet m)) (hbSet m)"
proof -
  define segs where "segs = map (slice (nat (max (start - eps) 0)) (nat fin)) (butlast ps)"
  let ?n = "nat (numHbSet m)" and ?hb = "hb_pairs eps (map length segs)"
  obtain m1 where m1: "same_source m m1" "segment_of segs (length segs) m1" "readSegTrace start fin eps m = push_hb m1 ?hb"
    using readSegTrace_push [OF assms(1-5) segs_def] by blast
  have hb: "hbSet m1 = hbSet m" "numHbSet m1 = numHbSet m" "hb_ok m1"
    using m1(1) assms(3) by (auto simp: same_source_def hb_ok_def)
  have push: "push_hb m1 ?hb = Inr m'" using m1(3) assms(6) by simp
  note p = push_hb_prefix [OF hb(3) push, unfolded hb(1,2)]
  have len: "length (take ?n (hbSet m)) = ?n" using assms(3) by (simp add: hb_ok_def)
  have n': "nat (numHbSet m') = ?n + length ?hb" using p assms(3) by (simp add: hb_ok_def nat_add_distrib)
  have at: "hbSet m' ! (?n + j) = ?hb ! j" if "j < length ?hb" for j
  proof -
    have "hbSet m' ! (?n + j) = take (nat (numHbSet m')) (hbSet m') ! (?n + j)" using that n' by simp
    also have "\<dots> = ?hb ! j" unfolding p [THEN conjunct1] using len by (simp add: nth_append)
    finally show ?thesis .
  qed
  have "segment_of segs (length segs) m'" using push_hb_segment [OF push] m1(2) by blast
  then have "map (\<lambda>i. numEvent m' ! i) [0..<length (butlast ps)] = map int (map length segs)"
    by (intro nth_equalityI) (auto simp: segment_of_def has_segment_def segs_def)
  moreover have sum_int: "sum_list (map int ns) = int (sum_list ns)" for ns by (induction ns) simp_all
  ultimately have sum: "sum_list (map (\<lambda>i. numEvent m' ! i) [0..<length (butlast ps)]) = int (sum_list (map length segs))"
    using sum_int by metis
  obtain j where j: "k = ?n + j" "j < length ?hb" using assms(7,8) n' by (metis le_Suc_ex nat_add_left_cancel_less)
  obtain a b where ab: "?hb ! j = (a, b)" by fastforce
  with j(2) have "(a, b) \<in> set ?hb" by (metis nth_mem)
  note s = hb_pairs_symmetric [OF this]
  from s(1) obtain j' where "j' < length ?hb" "?hb ! j' = (b, a)" by (auto simp: in_set_conv_nth)
  then have "\<exists>k'. ?n \<le> k' \<and> k' < nat (numHbSet m') \<and> hbSet m' ! k' = prod.swap (hbSet m' ! k)"
    using at [OF j(2)] at [of j'] ab j(1) n' by (intro exI [of _ "?n + j'"]) simp
  moreover have "take ?n (hbSet m') = take ?n (hbSet m)"
  proof -
    have "take ?n (hbSet m') = take ?n (take (nat (numHbSet m')) (hbSet m'))" using n' by simp
    also have "\<dots> = take ?n (hbSet m)" unfolding p [THEN conjunct1] using len by simp
    finally show ?thesis .
  qed
  ultimately show ?thesis unfolding sum using s(2,3) at [OF j(2)] ab j(1) by simp
qed

theorem recorded_pairs_symmetric_witness:
  "\<exists>m m'. readSegTrace 0 4 1 m = Inr m' \<and> hbSet m' ! 0 = (1, 4) \<and> (\<exists>k. hbSet m' ! k = (4, 1))"
proof -
  let ?ps = "[[''0'', ''1''], [''1'', ''0''], [''1'']]" and ?segs = "[[''0'', ''1''], [''1'', ''0'']]"
  obtain m where m: "holds_trace ?ps m" "buffers_ok m" "hb_ok m" "numHbSet m = 0" "length (hbSet m) = 50"
    using demo_loaded by blast
  have hb: "hb_pairs 1 (map length ?segs) = [(1, 4), (2, 3), (3, 2), (4, 1)]" by code_simp
  have segs: "?segs = map (slice (nat (max (0 - 1) 0)) (nat 4)) (butlast ?ps)" and len: "length (butlast ?ps) \<le> 10"
    by code_simp+
  from readSegTrace_stores [OF m(1-3) len _ segs, unfolded hb m(4,5)] obtain m' where m': "readSegTrace 0 4 1 m = Inr m'"
    "take (nat (numHbSet m')) (hbSet m') = [(1, 4), (2, 3), (3, 2), (4, 1)]" by auto
  have l: "length (take (nat (numHbSet m')) (hbSet m')) = 4" using m'(2) by simp
  then have at: "hbSet m' ! 0 = (1, 4)" using m'(2) by (cases "hbSet m'"; cases "nat (numHbSet m')") auto
  have pos: "0 < numHbSet m'" using l by (cases "0 < numHbSet m'") simp_all
  obtain k where k: "hbSet m' ! k = (4, 1)"
    using recorded_pairs_symmetric [OF m(1-3) len _ m'(1), of 0] pos at m(4) by auto
  with m'(1) at k show ?thesis by blast
qed

end
