(* ===== verification/Smt_Query.thy ===== *)
theory Smt_Query
  imports Trace_Monitor
begin

unbundle bit_operations_syntax

text \<open>
  \<open>Monitor::solveSMT\<close> of main.cpp: the list of assertions it adds to the solver, the meaning of
  these assertions over integers and bit-vectors, and the solver itself as a parameter
  \<open>check\<close>. The central result reduces satisfiability of the assertions to the existence of
  a path of cuts \<open>0 = g\<^sub>0, g\<^sub>1, \<dots>, g\<^sub>N\<close> that is closed under the happened-before pairs;
  from it follow the answers the monitor gets.
\<close>

section \<open>Terms of the C++ API\<close>

datatype bv_term =
    Bv_Const string
  | Bv_Num int
  | F_App int_term
  | Bv_And bv_term bv_term
and int_term =
    Int_Num int
  | Int_Var string
  | Bv2Int bv_term
  | Int_Sub int_term int_term

datatype formula =
    Bv_Eq bv_term bv_term
  | Int_Eq int_term int_term
  | Int_Neq int_term int_term
  | Int_Le int_term int_term
  | Conj formula formula
  | Disj "formula list"
  | Impl formula formula
  | Forall_Int string formula

datatype check_result = unsat | sat | unknown

subsection \<open>Meaning\<close>

text \<open>
  All bit-vectors of a query have the same width \<open>w\<close>; a value is a natural number below
  \<open>2 ^ w\<close>, a numeral is reduced modulo \<open>2 ^ w\<close>, and \<open>f\<close> is the one uninterpreted function.
\<close>

record interp =
  bv_const :: "string \<Rightarrow> nat"
  f_fun :: "int \<Rightarrow> nat"
  int_const :: "string \<Rightarrow> int"

definition bounded :: "nat \<Rightarrow> interp \<Rightarrow> bool" where
  "bounded w I \<longleftrightarrow> (\<forall>s. bv_const I s < 2 ^ w) \<and> (\<forall>x. f_fun I x < 2 ^ w)"

fun bv_val :: "nat \<Rightarrow> interp \<Rightarrow> bv_term \<Rightarrow> nat"
  and int_val :: "nat \<Rightarrow> interp \<Rightarrow> int_term \<Rightarrow> int" where
  "bv_val w I (Bv_Const s) = bv_const I s"
| "bv_val w I (Bv_Num k) = nat (k mod 2 ^ w)"
| "bv_val w I (F_App t) = f_fun I (int_val w I t)"
| "bv_val w I (Bv_And a b) = bv_val w I a AND bv_val w I b"
| "int_val w I (Int_Num k) = k"
| "int_val w I (Int_Var s) = int_const I s"
| "int_val w I (Bv2Int b) = int (bv_val w I b)"
| "int_val w I (Int_Sub a b) = int_val w I a - int_val w I b"

fun holds :: "nat \<Rightarrow> interp \<Rightarrow> formula \<Rightarrow> bool" where
  "holds w I (Bv_Eq a b) \<longleftrightarrow> bv_val w I a = bv_val w I b"
| "holds w I (Int_Eq a b) \<longleftrightarrow> int_val w I a = int_val w I b"
| "holds w I (Int_Neq a b) \<longleftrightarrow> int_val w I a \<noteq> int_val w I b"
| "holds w I (Int_Le a b) \<longleftrightarrow> int_val w I a \<le> int_val w I b"
| "holds w I (Conj p q) \<longleftrightarrow> holds w I p \<and> holds w I q"
| "holds w I (Disj ps) \<longleftrightarrow> (\<exists>p \<in> set ps. holds w I p)"
| "holds w I (Impl p q) \<longleftrightarrow> (holds w I p \<longrightarrow> holds w I q)"
| "holds w I (Forall_Int s p) \<longleftrightarrow> (\<forall>v. holds w (I\<lparr>int_const := (int_const I)(s := v)\<rparr>) p)"

definition satisfiable :: "nat \<Rightarrow> formula list \<Rightarrow> bool" where
  "satisfiable w ps \<longleftrightarrow> (\<exists>I. bounded w I \<and> (\<forall>p \<in> set ps. holds w I p))"

section \<open>The assertions\<close>

definition event_list :: "int \<Rightarrow> bv_term" where
  "event_list i = Bv_Const (''eventList'' @ to_string i)"

function doubling :: "int \<Rightarrow> int \<Rightarrow> int list" where
  \<comment> \<open>the values of \<open>j\<close> in \<open>for (int j = 1; j < limit; j = j * 2)\<close>\<close>
  "doubling j limit = (if 0 < j \<and> j < limit then j # doubling (j * 2) limit else [])"
  by pat_completeness auto
termination
  by (relation "measure (\<lambda>(j, limit). nat (limit - j))") auto

declare doubling.simps [simp del]

definition pow2_int :: "int \<Rightarrow> int result" where
  \<comment> \<open>\<open>(int)pow(2, e)\<close>: truncation below 1, undefined beyond the range of \<open>int\<close>\<close>
  "pow2_int e = (if e < 0 then Inr 0 else if e \<le> 30 then Inr (2 ^ nat e) else Inl Signed_Overflow)"

definition hb_assertions :: "int \<Rightarrow> int \<Rightarrow> int \<Rightarrow> formula list" where
  "hb_assertions i p0 p1 =
     (let b1 = Bv_Const (''b1'' @ to_string i); b2 = Bv_Const (''b2'' @ to_string i); x = Int_Var ''x''
      in [Bv_Eq b1 (Bv_Num p1), Bv_Eq b2 (Bv_Num p0),
          Forall_Int ''x'' (Impl (Int_Neq (Bv2Int (Bv_And (F_App x) b1)) (Int_Num 0))
                                 (Int_Neq (Bv2Int (Bv_And (F_App x) b2)) (Int_Num 0)))])"

definition order_assertions :: "int \<Rightarrow> formula list" where
  "order_assertions n =
     map (\<lambda>i. Bv_Eq (event_list i) (Bv_Num i)) [0..n * n - 1] @
     [Bv_Eq (F_App (Int_Num 0)) (event_list 0)] @
     map (\<lambda>i. Disj (map (\<lambda>j. Bv_Eq (F_App (Int_Num i)) (event_list j)) [0..n * n - 1])) [0..n] @
     map (\<lambda>i. Disj (map (\<lambda>j. Int_Eq (Int_Sub (Bv2Int (F_App (Int_Num (i + 1)))) (Bv2Int (F_App (Int_Num i))))
                                     (Int_Num j)) (doubling 1 (n * n)))) [0..n - 1] @
     [Bv_Eq (F_App (Int_Num n)) (event_list (n * n - 1))] @
     [Conj (Int_Le (Int_Num 0) (Int_Var ''x'')) (Int_Le (Int_Var ''x'') (Int_Num n))]"

definition totNumEvents :: "trace_monitor \<Rightarrow> int result" where
  "totNumEvents m = rfold (\<lambda>i s. rbind (aget (numEvent m) i) (\<lambda>k. Inr (s + k))) [0..numProcess m - 1] 0"

definition hb_query :: "trace_monitor \<Rightarrow> formula list result" where
  "hb_query m =
     rfold (\<lambda>i ps. rbind (aget (hbSet m) i) (\<lambda>(a, b).
       rbind (pow2_int (a - 1)) (\<lambda>p0. rbind (pow2_int (b - 1)) (\<lambda>p1.
         Inr (ps @ hb_assertions i p0 p1))))) [0..numHbSet m - 1] []"

definition solveSMT :: "(nat \<Rightarrow> formula list \<Rightarrow> check_result) \<Rightarrow> trace_monitor \<Rightarrow> bool result" where
  \<comment> \<open>\<open>numFormula\<close> is not used; a bit-vector sort of width 0 makes the API throw\<close>
  "solveSMT check m =
     rbind (totNumEvents m) (\<lambda>n.
       if n \<le> 0 then Inl Solver_Exception
       else rbind (hb_query m) (\<lambda>hb. Inr (check (nat n) (order_assertions n @ hb) = sat)))"

section \<open>Paths of cuts\<close>

text \<open>
  A cut is a natural number; bit \<open>e - 1\<close> of it says that event \<open>e\<close> has happened. What the
  assertions really ask for is a sequence of \<open>n + 1\<close> cuts from 0 to \<open>n\<^sup>2 - 1\<close> (reduced to
  the width), each below \<open>n\<^sup>2\<close>, each larger than the one before by a power of two below
  \<open>n\<^sup>2\<close>, and each closed under the pairs.
\<close>

definition closed_cut :: "(int \<times> int) list \<Rightarrow> nat \<Rightarrow> bool" where
  "closed_cut hb c \<longleftrightarrow> (\<forall>(a, b) \<in> set hb. bit c (nat (b - 1)) \<longrightarrow> bit c (nat (a - 1)))"

definition cut_path :: "nat \<Rightarrow> (int \<times> int) list \<Rightarrow> nat list \<Rightarrow> bool" where
  "cut_path n hb g \<longleftrightarrow> length g = Suc n \<and> g ! 0 = 0 \<and> g ! n = (n * n - 1) mod 2 ^ n \<and>
     (\<forall>i\<le>n. \<exists>j<n * n. g ! i = j mod 2 ^ n) \<and>
     (\<forall>i<n. \<exists>k<n * n. 2 ^ k < n * n \<and> g ! Suc i = g ! i + 2 ^ k) \<and>
     (\<forall>i\<le>n. closed_cut hb (g ! i))"

lemma set_doubling_from: "j = 2 ^ a \<Longrightarrow> set (doubling j limit) = {2 ^ k |k. a \<le> k \<and> 2 ^ k < limit}"
proof (induction j limit arbitrary: a rule: doubling.induct)
  case (1 j limit)
  show ?case
  proof (cases "j < limit")
    case True
    then have "set (doubling j limit) = insert (2 ^ a) {2 ^ k |k. Suc a \<le> k \<and> 2 ^ k < limit}"
      using "1.IH" [of "Suc a"] "1.prems" True by (subst doubling.simps) (simp add: mult.commute)
    then show ?thesis
      using True "1.prems" by (auto simp: le_less Suc_le_eq)
  next
    case False
    have "\<not> 2 ^ k < limit" if "a \<le> k" for k
      using False "1.prems" power_increasing [OF that, of "2::int"] by linarith
    then have "{2 ^ k |k. a \<le> k \<and> 2 ^ k < limit} = {}" by blast
    with False show ?thesis by (subst doubling.simps) simp
  qed
qed

lemma set_doubling: "set (doubling 1 limit) = {2 ^ k |k. 2 ^ k < limit}"
  using set_doubling_from [of 1 0 limit] by simp

lemma to_string_inj:
  assumes "to_string i = to_string j" "0 \<le> i" "0 \<le> j"
  shows "i = j"
proof -
  have "show_nat (nat i) = show_nat (nat j)" using assms by (simp add: to_string_def)
  then have "read_digits (show_nat (nat i)) = read_digits (show_nat (nat j))" by (rule arg_cong)
  then have "nat i = nat j" by (simp only: show_nat_facts [THEN conjunct1])
  with assms show ?thesis by simp
qed

lemma upto_nat: "set [0..int n - 1] = int ` {..<n}"
  using image_int_atLeastLessThan [of 0 n]
  by (auto simp: lessThan_atLeast0 atLeastLessThanPlusOne_atLeastAtMost_int [symmetric])

text \<open>The assertions about the order, read off an interpretation.\<close>

lemma order_assertions_hold:
  assumes "bounded n I" "0 < n"
  shows "(\<forall>p \<in> set (order_assertions (int n)). holds n I p) \<longleftrightarrow>
     (\<forall>i<n * n. bv_const I (''eventList'' @ to_string (int i)) = i mod 2 ^ n) \<and>
     f_fun I 0 = 0 \<and>
     (\<forall>i\<le>n. \<exists>j<n * n. f_fun I (int i) = j mod 2 ^ n) \<and>
     (\<forall>i<n. \<exists>k. 2 ^ k < n * n \<and> f_fun I (int (Suc i)) = f_fun I (int i) + 2 ^ k) \<and>
     f_fun I (int n) = (n * n - 1) mod 2 ^ n \<and>
     0 \<le> int_const I ''x'' \<and> int_const I ''x'' \<le> int n"
proof -
  have sq: "int n * int n - 1 = int (n * n) - 1" "0 < n * n" using assms(2) by auto
  have rng: "set [0..int n * int n - 1] = int ` {..<n * n}" using upto_nat [of "n * n"] by simp
  have num: "nat (int i mod 2 ^ n) = i mod 2 ^ n" for i
    by (metis nat_int of_nat_numeral of_nat_power zmod_int)
  have incl: "set [0..int n] = int ` {..n}"
    using upto_nat [of "Suc n"] by (simp add: lessThan_Suc_atMost)
  have pow: "(\<exists>j \<in> set (doubling 1 (int n * int n)). int a - int b = j) \<longleftrightarrow> (\<exists>k. 2 ^ k < n * n \<and> a = b + 2 ^ k)" for a b
  proof -
    have "(2 ^ k < int n * int n) \<longleftrightarrow> int (2 ^ k) < int (n * n)" for k by simp
    then have "(2 ^ k < int n * int n) \<longleftrightarrow> (2 ^ k < n * n)" for k by (simp only: of_nat_less_iff)
    moreover have "(int a - int b = 2 ^ k) \<longleftrightarrow> int a = int (b + 2 ^ k)" for k by auto
    then have "(int a - int b = 2 ^ k) \<longleftrightarrow> (a = b + 2 ^ k)" for k by (simp only: of_nat_eq_iff)
    ultimately show ?thesis by (auto simp: set_doubling)
  qed
  let ?e = "\<lambda>i. bv_const I (''eventList'' @ to_string i)"
  let ?A = "\<forall>i<n * n. ?e (int i) = i mod 2 ^ n"
  have raw: "(\<forall>p \<in> set (order_assertions (int n)). holds n I p) \<longleftrightarrow>
     ?A \<and> f_fun I 0 = ?e 0 \<and> (\<forall>i\<le>n. \<exists>j<n * n. f_fun I (int i) = ?e (int j)) \<and>
     (\<forall>i<n. \<exists>j \<in> set (doubling 1 (int n * int n)). int (f_fun I (int i + 1)) - int (f_fun I (int i)) = j) \<and>
     f_fun I (int n) = ?e (int n * int n - 1) \<and> 0 \<le> int_const I ''x'' \<and> int_const I ''x'' \<le> int n"
    by (simp add: order_assertions_def ball_Un incl rng upto_nat event_list_def num del: set_upto) blast
  have step: "(\<forall>i<n. \<exists>j \<in> set (doubling 1 (int n * int n)). int (f_fun I (int i + 1)) - int (f_fun I (int i)) = j) \<longleftrightarrow>
     (\<forall>i<n. \<exists>k. 2 ^ k < n * n \<and> f_fun I (int (Suc i)) = f_fun I (int i) + 2 ^ k)"
    unfolding pow by (simp add: add.commute)
  show ?thesis
  proof (cases ?A)
    case True
    have "int n * int n - 1 = int (n * n - 1)" using sq(2) by simp
    with True have "?e 0 = 0" "?e (int n * int n - 1) = (n * n - 1) mod 2 ^ n"
      using sq(2) by (metis mod_0 of_nat_0, metis diff_less less_numeral_extra(1))
    moreover have "(\<exists>j<n * n. a = ?e (int j)) \<longleftrightarrow> (\<exists>j<n * n. a = j mod 2 ^ n)" for a
      using True by auto
    ultimately show ?thesis using True unfolding raw step by simp
  next
    case False
    then show ?thesis unfolding raw by blast
  qed
qed

text \<open>The assertions about one pair say that every cut is closed under it.\<close>

definition hb_list :: "(int \<times> int) list \<Rightarrow> formula list" where
  "hb_list hb = concat (map (\<lambda>i. hb_assertions (int i) (2 ^ nat (fst (hb ! i) - 1)) (2 ^ nat (snd (hb ! i) - 1)))
                            [0..<length hb])"

definition proper_pairs :: "nat \<Rightarrow> (int \<times> int) list \<Rightarrow> bool" where
  "proper_pairs n hb \<longleftrightarrow> (\<forall>(a, b) \<in> set hb. 1 \<le> a \<and> a \<le> int n \<and> 1 \<le> b \<and> b \<le> int n)"

lemma pow2_mod_width: "k < n \<Longrightarrow> nat (2 ^ k mod 2 ^ n) = (2 ^ k :: nat)"
proof -
  assume "k < n"
  then have "(2::int) ^ k mod 2 ^ n = 2 ^ k" by (intro mod_pos_pos_trivial) auto
  then show ?thesis by (simp add: nat_power_eq)
qed

lemma masked_nonzero: "int (v AND 2 ^ k) \<noteq> 0 \<longleftrightarrow> bit v k" for v :: nat
  by (simp add: and_exp_eq_0_iff_not_bit del: of_nat_and_eq)

lemma hb_assertions_hold:
  assumes "k0 < n" "k1 < n"
  shows "(\<forall>p \<in> set (hb_assertions i (2 ^ k0) (2 ^ k1)). holds n I p) \<longleftrightarrow>
     bv_const I (''b1'' @ to_string i) = 2 ^ k1 \<and> bv_const I (''b2'' @ to_string i) = 2 ^ k0 \<and>
     (\<forall>x. bit (f_fun I x) k1 \<longrightarrow> bit (f_fun I x) k0)"
proof -
  let ?b1 = "bv_const I (''b1'' @ to_string i)" and ?b2 = "bv_const I (''b2'' @ to_string i)"
  have "(\<forall>p \<in> set (hb_assertions i (2 ^ k0) (2 ^ k1)). holds n I p) \<longleftrightarrow>
     ?b1 = nat (2 ^ k1 mod 2 ^ n) \<and> ?b2 = nat (2 ^ k0 mod 2 ^ n) \<and>
     (\<forall>x. int (f_fun I x AND ?b1) \<noteq> 0 \<longrightarrow> int (f_fun I x AND ?b2) \<noteq> 0)"
    by (simp add: hb_assertions_def Let_def del: of_nat_and_eq of_nat_eq_0_iff)
  then show ?thesis
    unfolding pow2_mod_width [OF assms(1)] pow2_mod_width [OF assms(2)] by (metis masked_nonzero)
qed

lemma hb_list_hold:
  assumes "proper_pairs n hb"
  shows "(\<forall>p \<in> set (hb_list hb). holds n I p) \<longleftrightarrow>
     (\<forall>i<length hb. bv_const I (''b1'' @ to_string (int i)) = 2 ^ nat (snd (hb ! i) - 1) \<and>
        bv_const I (''b2'' @ to_string (int i)) = 2 ^ nat (fst (hb ! i) - 1)) \<and>
     (\<forall>x. closed_cut hb (f_fun I x))"
proof -
  have "(\<forall>p \<in> set (hb_assertions (int i) (2 ^ nat (fst (hb ! i) - 1)) (2 ^ nat (snd (hb ! i) - 1))). holds n I p) \<longleftrightarrow>
     bv_const I (''b1'' @ to_string (int i)) = 2 ^ nat (snd (hb ! i) - 1) \<and>
     bv_const I (''b2'' @ to_string (int i)) = 2 ^ nat (fst (hb ! i) - 1) \<and>
     (\<forall>x. bit (f_fun I x) (nat (snd (hb ! i) - 1)) \<longrightarrow> bit (f_fun I x) (nat (fst (hb ! i) - 1)))"
    if "i < length hb" for i
    using assms nth_mem [OF that] by (intro hb_assertions_hold) (auto simp: proper_pairs_def)
  then show ?thesis
    by (auto simp: hb_list_def closed_cut_def all_set_conv_all_nth case_prod_beta)
qed

section \<open>Satisfiability is the existence of a path\<close>

lemma model_gives_path:
  assumes "bounded n I" "0 < n" "proper_pairs n hb" "\<forall>p \<in> set (order_assertions (int n) @ hb_list hb). holds n I p"
  shows "cut_path n hb (map (\<lambda>i. f_fun I (int i)) [0..<Suc n])"
proof -
  have o: "f_fun I 0 = 0" "\<forall>i\<le>n. \<exists>j<n * n. f_fun I (int i) = j mod 2 ^ n"
    "\<forall>i<n. \<exists>k. 2 ^ k < n * n \<and> f_fun I (int (Suc i)) = f_fun I (int i) + 2 ^ k"
    "f_fun I (int n) = (n * n - 1) mod 2 ^ n"
    using assms(4) order_assertions_hold [OF assms(1,2)] by auto
  have c: "closed_cut hb (f_fun I x)" for x
    using assms(4) hb_list_hold [OF assms(3), THEN iffD1] by auto
  have "\<exists>k<n * n. 2 ^ k < n * n \<and> f_fun I (int (Suc i)) = f_fun I (int i) + 2 ^ k" if "i < n" for i
    using o(3) that by (meson less_exp order.strict_trans)
  with o c show ?thesis by (auto simp: cut_path_def nth_append less_Suc_eq_le simp del: upt_Suc)
qed

definition path_table :: "nat \<Rightarrow> (int \<times> int) list \<Rightarrow> (string \<times> nat) list" where
  "path_table n hb =
     map (\<lambda>i. (''eventList'' @ to_string (int i), i mod 2 ^ n)) [0..<n * n] @
     map (\<lambda>i. (''b1'' @ to_string (int i), 2 ^ nat (snd (hb ! i) - 1))) [0..<length hb] @
     map (\<lambda>i. (''b2'' @ to_string (int i), 2 ^ nat (fst (hb ! i) - 1))) [0..<length hb]"

definition path_interp :: "nat \<Rightarrow> (int \<times> int) list \<Rightarrow> nat list \<Rightarrow> interp" where
  "path_interp n hb g =
     \<lparr>bv_const = (\<lambda>s. case map_of (path_table n hb) s of None \<Rightarrow> 0 | Some v \<Rightarrow> v),
      f_fun = (\<lambda>x. if 0 \<le> x \<and> x \<le> int n then g ! nat x else 0),
      int_const = (\<lambda>_. 0)\<rparr>"

lemma map_of_named:
  assumes "i < m"
  shows "map_of (map (\<lambda>i. (pre @ to_string (int i), v i)) [0..<m]) (pre @ to_string (int i)) = Some (v i)"
proof -
  have "inj_on (\<lambda>i. pre @ to_string (int i)) {..<m}"
    by (auto simp: inj_on_def dest: to_string_inj)
  then show ?thesis using assms
    by (intro map_of_is_SomeI) (auto simp: distinct_map comp_def inj_on_def lessThan_atLeast0)
qed

lemma map_of_other:
  assumes "hd pre \<noteq> c \<or> hd (tl pre) \<noteq> d" "2 \<le> length pre"
  shows "map_of (map (\<lambda>i. (pre @ to_string (int i), v i)) [0..<m]) (c # d # t) = None"
  using assms by (cases pre; cases "tl pre") (auto simp: map_of_eq_None_iff)

lemma path_names:
  "i < n * n \<Longrightarrow> bv_const (path_interp n hb g) (''eventList'' @ to_string (int i)) = i mod 2 ^ n"
  "i < length hb \<Longrightarrow> bv_const (path_interp n hb g) (''b1'' @ to_string (int i)) = 2 ^ nat (snd (hb ! i) - 1)"
  "i < length hb \<Longrightarrow> bv_const (path_interp n hb g) (''b2'' @ to_string (int i)) = 2 ^ nat (fst (hb ! i) - 1)"
proof -
  note pre = map_of_named [of i "n * n" "''eventList''" "\<lambda>i. i mod 2 ^ n"]
  note b1 = map_of_named [of i "length hb" "''b1''" "\<lambda>i. 2 ^ nat (snd (hb ! i) - 1) :: nat"]
  note b2 = map_of_named [of i "length hb" "''b2''" "\<lambda>i. 2 ^ nat (fst (hb ! i) - 1) :: nat"]
  note other = map_of_other [of "''eventList''", simplified] map_of_other [of "''b1''" _ "CHR ''2''", simplified]
  show "i < n * n \<Longrightarrow> bv_const (path_interp n hb g) (''eventList'' @ to_string (int i)) = i mod 2 ^ n"
    using pre by (simp add: path_interp_def path_table_def map_add_def)
  show "i < length hb \<Longrightarrow> bv_const (path_interp n hb g) (''b1'' @ to_string (int i)) = 2 ^ nat (snd (hb ! i) - 1)"
    using b1 by (simp add: path_interp_def path_table_def map_add_def other)
  show "i < length hb \<Longrightarrow> bv_const (path_interp n hb g) (''b2'' @ to_string (int i)) = 2 ^ nat (fst (hb ! i) - 1)"
    using b2 by (simp add: path_interp_def path_table_def map_add_def other)
qed

lemma path_bounded:
  assumes "proper_pairs n hb" "cut_path n hb g"
  shows "bounded n (path_interp n hb g)"
proof -
  have pos: "0 < (2::nat) ^ n" by simp
  have e: "(2::nat) ^ nat (fst (hb ! i) - 1) < 2 ^ n" "(2::nat) ^ nat (snd (hb ! i) - 1) < 2 ^ n" if "i < length hb" for i
    using assms(1) nth_mem [OF that] by (auto simp: proper_pairs_def intro!: power_strict_increasing)
  have "bv_const (path_interp n hb g) s < 2 ^ n" for s
  proof (cases "map_of (path_table n hb) s")
    case (Some v)
    from map_of_SomeD [OF this] have "v < 2 ^ n" using e pos by (auto simp: path_table_def)
    with Some show ?thesis by (simp add: path_interp_def)
  qed (use pos in \<open>simp add: path_interp_def\<close>)
  moreover have "f_fun (path_interp n hb g) x < 2 ^ n" for x
  proof (cases "0 \<le> x \<and> x \<le> int n")
    case True
    then have "nat x \<le> n" by linarith
    with assms(2) obtain j where "g ! nat x = j mod 2 ^ n" unfolding cut_path_def by blast
    with True pos show ?thesis by (simp add: path_interp_def)
  qed (use pos in \<open>auto simp: path_interp_def\<close>)
  ultimately show ?thesis by (simp add: bounded_def)
qed

lemma path_gives_model:
  assumes "0 < n" "proper_pairs n hb" "cut_path n hb g"
  shows "satisfiable n (order_assertions (int n) @ hb_list hb)"
proof -
  let ?I = "path_interp n hb g"
  have f: "f_fun ?I (int i) = g ! i" if "i \<le> n" for i using that by (simp add: path_interp_def)
  have p: "g ! 0 = 0" "g ! n = (n * n - 1) mod 2 ^ n" "\<forall>i\<le>n. \<exists>j<n * n. g ! i = j mod 2 ^ n"
    "\<forall>i<n. \<exists>k<n * n. 2 ^ k < n * n \<and> g ! Suc i = g ! i + 2 ^ k" "\<forall>i\<le>n. closed_cut hb (g ! i)"
    using assms(3) by (auto simp: cut_path_def)
  have "f_fun ?I 0 = 0" "0 \<le> int_const ?I ''x''" "int_const ?I ''x'' \<le> int n"
    using p(1) f [of 0] by (simp_all add: path_interp_def)
  moreover have "\<forall>i<n. \<exists>k. 2 ^ k < n * n \<and> f_fun ?I (int (Suc i)) = f_fun ?I (int i) + 2 ^ k"
    using p(4) f by (metis Suc_leI less_imp_le)
  ultimately have "\<forall>q \<in> set (order_assertions (int n)). holds n ?I q"
    unfolding order_assertions_hold [OF path_bounded [OF assms(2,3)] assms(1)]
    using path_names(1) f p(2,3) by simp
  moreover have "closed_cut hb (f_fun ?I x)" for x
  proof (cases "0 \<le> x \<and> x \<le> int n")
    case True
    then have "nat x \<le> n" by linarith
    with p(5) True show ?thesis by (simp add: path_interp_def)
  qed (auto simp: path_interp_def closed_cut_def)
  then have "\<forall>q \<in> set (hb_list hb). holds n ?I q"
    unfolding hb_list_hold [OF assms(2)] using path_names(2,3) by simp
  ultimately show ?thesis
    unfolding satisfiable_def using path_bounded [OF assms(2,3)] by auto
qed

lemma query_sat_iff:
  assumes "0 < n" "proper_pairs n hb"
  shows "satisfiable n (order_assertions (int n) @ hb_list hb) \<longleftrightarrow> (\<exists>g. cut_path n hb g)"
  using model_gives_path [OF _ assms] path_gives_model [OF assms] unfolding satisfiable_def by blast

section \<open>What the paths look like\<close>

lemma new_bit_succ:
  fixes c :: nat
  shows "\<lbrakk>\<not> bit c a; \<not> bit c b; bit (Suc c) a; bit (Suc c) b\<rbrakk> \<Longrightarrow> a = b"
proof (induction c arbitrary: a b rule: less_induct)
  case (less c)
  show ?case
  proof (cases "even c")
    case True
    then have "Suc c div 2 = c div 2" by simp
    with less.prems show ?thesis by (cases a; cases b) (auto simp: bit_0 bit_Suc)
  next
    case False
    then have "Suc c div 2 = Suc (c div 2)" "c div 2 < c" by (auto elim!: oddE)
    with False less.prems less.IH [of "c div 2"] show ?thesis by (cases a; cases b) (auto simp: bit_0 bit_Suc)
  qed
qed

lemma new_bit_unique:
  fixes c :: nat
  shows "\<lbrakk>\<not> bit c a; \<not> bit c b; bit (c + 2 ^ k) a; bit (c + 2 ^ k) b\<rbrakk> \<Longrightarrow> a = b"
proof (induction k arbitrary: c a b)
  case 0
  then show ?case using new_bit_succ [of c a b] by simp
next
  case (Suc k)
  have "(c + 2 ^ Suc k) div 2 = c div 2 + 2 ^ k" "even (c + 2 ^ Suc k) = even c" by simp_all
  with Suc.prems Suc.IH [of "c div 2"] show ?case
    by (cases a; cases b) (auto simp: bit_0 bit_Suc add.commute)
qed

lemma cut_path_step: "cut_path n hb g \<Longrightarrow> i < n \<Longrightarrow> \<exists>k. g ! Suc i = g ! i + 2 ^ k"
  unfolding cut_path_def by blast

lemma cut_path_symmetric:
  assumes "cut_path n hb g" "(a, b) \<in> set hb" "(b, a) \<in> set hb" "1 \<le> a" "1 \<le> b" "a \<noteq> b" "i \<le> n"
  shows "\<not> bit (g ! i) (nat (a - 1)) \<and> \<not> bit (g ! i) (nat (b - 1))"
  using assms(7)
proof (induction i)
  case 0
  with assms(1) show ?case by (simp add: cut_path_def)
next
  case (Suc i)
  then have old: "\<not> bit (g ! i) (nat (a - 1))" "\<not> bit (g ! i) (nat (b - 1))" by simp_all
  from cut_path_step [OF assms(1), of i] Suc.prems obtain k where k: "g ! Suc i = g ! i + 2 ^ k" by auto
  have "nat (a - 1) \<noteq> nat (b - 1)" using assms(4-6) by simp
  then have "\<not> (bit (g ! Suc i) (nat (a - 1)) \<and> bit (g ! Suc i) (nat (b - 1)))"
    using new_bit_unique [OF old] unfolding k by blast
  moreover have "closed_cut hb (g ! Suc i)" using assms(1) Suc.prems by (simp add: cut_path_def)
  ultimately show ?case using assms(2,3) by (auto simp: closed_cut_def)
qed

text \<open>Sums of powers of two.\<close>

lemma binary_sum: "m < 2 ^ n \<Longrightarrow> \<exists>ks. length ks \<le> n \<and> sum_list (map (\<lambda>k. 2 ^ k) ks) = (m :: nat)"
proof (induction n arbitrary: m)
  case (Suc n)
  show ?case
  proof (cases "m < 2 ^ n")
    case True
    with Suc.IH show ?thesis by (meson le_Suc_eq)
  next
    case False
    with Suc.prems have "m - 2 ^ n < 2 ^ n" by simp
    with Suc.IH obtain ks where "length ks \<le> n" "sum_list (map (\<lambda>k. 2 ^ k) ks) = m - 2 ^ n" by blast
    with False show ?thesis by (intro exI [of _ "n # ks"]) simp
  qed
qed simp

lemma split_power:
  assumes "length ks < sum_list (map (\<lambda>k. 2 ^ k) ks)"
  shows "\<exists>js. length js = Suc (length ks) \<and> sum_list (map (\<lambda>k. 2 ^ k) js) = (sum_list (map (\<lambda>k. 2 ^ k) ks) :: nat)"
  using assms
proof (induction ks)
  case (Cons k ks)
  show ?case
  proof (cases k)
    case 0
    with Cons obtain js where "length js = Suc (length ks)"
      "sum_list (map (\<lambda>k. 2 ^ k) js) = (sum_list (map (\<lambda>k. 2 ^ k) ks) :: nat)" by auto
    with 0 show ?thesis by (intro exI [of _ "0 # js"]) simp
  next
    case (Suc l)
    then show ?thesis by (intro exI [of _ "l # l # ks"]) simp
  qed
qed simp

lemma sum_of_exactly:
  assumes "m < 2 ^ n" "n \<le> m"
  shows "\<exists>ks. length ks = n \<and> sum_list (map (\<lambda>k. 2 ^ k) ks) = (m :: nat)"
proof -
  obtain ks where ks: "length ks \<le> n" "sum_list (map (\<lambda>k. 2 ^ k) ks) = m" using binary_sum [OF assms(1)] by blast
  have "length ks + d \<le> n \<Longrightarrow> \<exists>js. length js = length ks + d \<and> sum_list (map (\<lambda>k. 2 ^ k) js) = m" for d
  proof (induction d)
    case (Suc d)
    then obtain js where "length js = length ks + d" "sum_list (map (\<lambda>k. 2 ^ k) js) = m" by auto
    with split_power [of js] Suc.prems assms(2) show ?case by auto
  qed (use ks in auto)
  from this [of "n - length ks"] ks(1) show ?thesis by simp
qed

lemma square_below_power: "5 \<le> n \<Longrightarrow> n * n < (2::nat) ^ n"
proof (induction n rule: nat_induct_at_least)
  case (Suc n)
  have "5 * n \<le> n * n" using Suc.hyps by simp
  then have "Suc n * Suc n \<le> 2 * (n * n)" using Suc.hyps unfolding mult_Suc mult_Suc_right by linarith
  with Suc.IH show ?case by simp
qed simp

lemma sum_list_take_le: "sum_list (take i xs) \<le> sum_list xs" for xs :: "nat list"
  by (metis append_take_drop_id le_add1 sum_list.append)

lemma cut_path_empty_exists:
  assumes "n * n - 1 < 2 ^ n" "n \<le> n * n - 1" "0 < n"
  shows "\<exists>g. cut_path n [] g"
proof -
  obtain ks where ks: "length ks = n" "sum_list (map (\<lambda>k. 2 ^ k) ks) = n * n - 1"
    using sum_of_exactly [OF assms(1,2)] by blast
  let ?s = "map (\<lambda>k. 2 ^ k) ks :: nat list" and ?g = "map (\<lambda>i. sum_list (take i (map (\<lambda>k. 2 ^ k) ks)) :: nat) [0..<Suc n]"
  have g: "?g ! i = sum_list (take i ?s)" if "i \<le> n" for i using that by (simp del: upt_Suc)
  have pos: "0 < n * n" using assms(3) by simp
  have below: "?g ! i < n * n" "?g ! i < 2 ^ n" if "i \<le> n" for i
    using sum_list_take_le [of i ?s] g [OF that] ks(2) assms(1) pos by linarith+
  have step: "?g ! Suc i = ?g ! i + 2 ^ (ks ! i)" if "i < n" for i
    using that g [of i] g [of "Suc i"] ks(1) by (simp add: take_Suc_conv_app_nth)
  have pw: "2 ^ (ks ! i) < n * n" if "i < n" for i
    using step [OF that] below(1) [of "Suc i"] that by simp
  have "\<exists>k<n * n. 2 ^ k < n * n \<and> ?g ! Suc i = ?g ! i + 2 ^ k" if "i < n" for i
    using step [OF that] pw [OF that] less_exp [of "ks ! i"] by (meson order.strict_trans)
  moreover have "?g ! n = (n * n - 1) mod 2 ^ n" using g [of n] ks assms(1) by simp
  moreover have "\<exists>j<n * n. ?g ! i = j mod 2 ^ n" if "i \<le> n" for i
    using below [OF that] by (metis mod_less)
  moreover have "?g ! 0 = 0" using g [of 0] by simp
  ultimately have "cut_path n [] ?g" by (simp add: cut_path_def closed_cut_def del: upt_Suc)
  then show ?thesis by blast
qed

lemma cut_path_grows: "cut_path n hb g \<Longrightarrow> i \<le> n \<Longrightarrow> i \<le> g ! i"
proof (induction i)
  case (Suc i)
  from cut_path_step [OF Suc.prems(1), of i] Suc.prems(2) obtain k where "g ! Suc i = g ! i + 2 ^ k" by auto
  moreover have "1 \<le> (2::nat) ^ k" by simp
  ultimately show ?case using Suc by linarith
qed simp

lemma cut_path_empty_iff:
  assumes "0 < n"
  shows "(\<exists>g. cut_path n [] g) \<longleftrightarrow> n = 2 \<or> 4 \<le> n"
proof
  assume "\<exists>g. cut_path n [] g"
  then obtain g where g: "cut_path n [] g" ..
  have "n \<le> (n * n - 1) mod 2 ^ n" using cut_path_grows [OF g, of n] g by (simp add: cut_path_def)
  then have "n \<noteq> 1" "n \<noteq> 3" by auto
  with assms show "n = 2 \<or> 4 \<le> n" by auto
next
  assume n: "n = 2 \<or> 4 \<le> n"
  have "n * n - 1 < 2 ^ n" using n square_below_power [of n] by (cases "n = 2 \<or> n = 4") auto
  moreover have "2 * n \<le> n * n" using n by auto
  then have "n \<le> n * n - 1" using assms by linarith
  ultimately show "\<exists>g. cut_path n [] g" using assms by (rule cut_path_empty_exists)
qed

lemma cut_path_last_event:
  assumes "cut_path n hb g" "7 \<le> n" "i \<le> n"
  shows "\<not> bit (g ! i) (n - 1)"
proof -
  have "n * n \<le> 2 ^ (n - 1)" using assms(2)
  proof (induction n rule: nat_induct_at_least)
    case (Suc n)
    have "7 * n \<le> n * n" using Suc.hyps by simp
    then have "Suc n * Suc n \<le> 2 * (n * n)" using Suc.hyps unfolding mult_Suc mult_Suc_right by linarith
    moreover have "2 * 2 ^ (n - 1) = (2::nat) ^ n" using Suc.hyps by (cases n) auto
    ultimately show ?case using Suc.IH by simp
  qed simp
  moreover from assms obtain j where "j < n * n" "g ! i = j mod 2 ^ n" by (auto simp: cut_path_def)
  ultimately have "g ! i < 2 ^ (n - 1)" by (metis le_less_trans less_le_trans mod_less_eq_dividend)
  then show ?thesis by (metis bit_take_bit_iff less_irrefl take_bit_nat_eq_self)
qed

section \<open>The query of a monitor\<close>

definition known_pairs :: "trace_monitor \<Rightarrow> (int \<times> int) list" where
  "known_pairs m = take (nat (numHbSet m)) (hbSet m)"

definition query_ok :: "nat \<Rightarrow> trace_monitor \<Rightarrow> bool" where
  "query_ok n m \<longleftrightarrow> totNumEvents m = Inr (int n) \<and> 0 < n \<and> n \<le> 31 \<and>
     0 \<le> numHbSet m \<and> numHbSet m \<le> int (length (hbSet m)) \<and> proper_pairs n (known_pairs m)"

lemma upto_int_upt: "[0..int n - 1] = map int [0..<n]"
proof (induction n)
  case (Suc n)
  have "[0..int n] = [0..int n - 1] @ [int n]" by (rule upto_rec2) simp
  with Suc show ?case by simp
qed simp

lemma hb_query_eq:
  assumes "query_ok n m"
  shows "hb_query m = Inr (hb_list (known_pairs m))"
proof -
  let ?f = "\<lambda>k. hb_assertions (int k) (2 ^ nat (fst (known_pairs m ! k) - 1)) (2 ^ nat (snd (known_pairs m ! k) - 1))"
  have len: "length (known_pairs m) = nat (numHbSet m)" "int (nat (numHbSet m)) = numHbSet m"
    using assms by (auto simp: query_ok_def known_pairs_def)
  have body: "rbind (aget (hbSet m) (int k)) (\<lambda>(a, b). rbind (pow2_int (a - 1)) (\<lambda>p0. rbind (pow2_int (b - 1)) (\<lambda>p1.
       Inr (ps @ hb_assertions (int k) p0 p1)))) = Inr (ps @ ?f k)" if "k < nat (numHbSet m)" for k ps
  proof -
    obtain a b where ab: "hbSet m ! k = (a, b)" by (cases "hbSet m ! k")
    have "known_pairs m ! k \<in> set (known_pairs m)" using that len(1) by simp
    moreover have "known_pairs m ! k = (a, b)" using ab that by (simp add: known_pairs_def)
    moreover have "k < length (hbSet m)" using that len by (simp add: known_pairs_def)
    ultimately show ?thesis using assms ab
      by (auto simp: query_ok_def proper_pairs_def aget_def vget_def pow2_int_def)
  qed
  have "rfold (\<lambda>k ps. Inr (ps @ ?f k)) xs ps = Inr (ps @ concat (map ?f xs))" for xs ps
    by (induction xs arbitrary: ps) simp_all
  moreover have "hb_query m = rfold (\<lambda>k ps. Inr (ps @ ?f k)) [0..<nat (numHbSet m)] []"
    unfolding hb_query_def using body upto_int_upt [of "nat (numHbSet m)"] len(2)
    by (auto intro!: rfold_cong)
  ultimately show ?thesis by (simp add: hb_list_def len)
qed

definition solver_sound :: "(nat \<Rightarrow> formula list \<Rightarrow> check_result) \<Rightarrow> bool" where
  "solver_sound check \<longleftrightarrow> (\<forall>w ps. (check w ps = sat \<longrightarrow> satisfiable w ps) \<and> (check w ps = unsat \<longrightarrow> \<not> satisfiable w ps))"

lemma solveSMT_result:
  assumes "query_ok n m"
  shows "solveSMT check m = Inr (check n (order_assertions (int n) @ hb_list (known_pairs m)) = sat)"
  using assms hb_query_eq [OF assms] by (simp add: solveSMT_def query_ok_def)

lemma solver_says:
  assumes "query_ok n m" "solver_sound check"
    "check n (order_assertions (int n) @ hb_list (known_pairs m)) \<noteq> unknown"
  shows "solveSMT check m = Inr (\<exists>g. cut_path n (known_pairs m) g)"
proof -
  have "check n (order_assertions (int n) @ hb_list (known_pairs m)) = sat \<longleftrightarrow>
    satisfiable n (order_assertions (int n) @ hb_list (known_pairs m))"
    using assms(2,3) unfolding solver_sound_def by (metis check_result.exhaust)
  moreover have "0 < n" "proper_pairs n (known_pairs m)" using assms(1) by (auto simp: query_ok_def)
  ultimately show ?thesis by (simp add: solveSMT_result [OF assms(1)] query_sat_iff)
qed

text \<open>The verdict depends on the counts and the pairs only, never on the observed values.\<close>

lemma solveSMT_ignores_values:
  "solveSMT check (m\<lparr>EValue := v, EName := w, EValueAll := u, subformula := fs\<rparr>) = solveSMT check m"
proof -
  have "hb_query (m\<lparr>EValue := v, EName := w, EValueAll := u, subformula := fs\<rparr>) = hb_query m"
    by (simp add: hb_query_def)
  moreover have "totNumEvents (m\<lparr>EValue := v, EName := w, EValueAll := u, subformula := fs\<rparr>) = totNumEvents m"
    by (simp add: totNumEvents_def)
  ultimately show ?thesis unfolding solveSMT_def by (simp only:)
qed

text \<open>Monitors for the witnesses: one process with \<open>n\<close> events and the given pairs.\<close>

definition query_demo :: "int \<Rightarrow> (int \<times> int) list \<Rightarrow> trace_monitor" where
  "query_demo n hb =
     (Monitor 0 [] 1)\<lparr>numProcess := 1, numEvent := n # replicate 9 0,
        hbSet := hb @ replicate (50 - length hb) (0, 0), numHbSet := int (length hb)\<rparr>"

definition ideal_check :: "nat \<Rightarrow> formula list \<Rightarrow> check_result" where
  "ideal_check w ps = (if satisfiable w ps then sat else unsat)"

lemma ideal_check_facts: "solver_sound ideal_check" "ideal_check w ps \<noteq> unknown"
  by (simp_all add: solver_sound_def ideal_check_def)

lemma query_demo_ok:
  assumes "0 < n" "n \<le> 31" "proper_pairs n hb" "length hb \<le> 50"
  shows "query_ok n (query_demo (int n) hb)" "known_pairs (query_demo (int n) hb) = hb"
  using assms by (auto simp: query_ok_def query_demo_def Monitor_def known_pairs_def totNumEvents_def aget_def vget_def)

lemma cut_path_end: "cut_path n hb g \<Longrightarrow> g ! n = (n * n - 1) mod 2 ^ n"
  by (simp add: cut_path_def)

section \<open>Properties\<close>

text \<open>
  C6. When the solver is sound and does not give up, \<open>solveSMT\<close> returns exactly whether
  there is a path of cuts: it starts at 0, ends at \<open>N\<^sup>2 - 1\<close> reduced to the width, grows by a
  power of two in each of the \<open>N\<close> steps and every cut is closed under the recorded
  happened-before pairs.
\<close>

theorem solveSMT_decides_paths:
  assumes "query_ok n m" "solver_sound check"
    and "check n (order_assertions (int n) @ hb_list (known_pairs m)) \<noteq> unknown"
  shows "solveSMT check m = Inr (\<exists>g. cut_path n (known_pairs m) g)"
  using assms by (rule solver_says)

theorem solveSMT_decides_paths_witness:
  "solveSMT ideal_check (query_demo 2 [(1, 2)]) = Inr True"
proof -
  have p: "proper_pairs 2 [(1, 2)]" by (simp add: proper_pairs_def)
  have c: "closed_cut [(1, 2)] 0" "closed_cut [(1, 2)] 1" "closed_cut [(1, 2)] 3"
    by (simp_all add: closed_cut_def bit_iff_odd)
  have below: "(\<forall>i\<le>2. P i) \<longleftrightarrow> P 0 \<and> P 1 \<and> P (2::nat)" "(\<forall>i<2. P i) \<longleftrightarrow> P 0 \<and> P (1::nat)" for P
    by (auto simp: le_Suc_eq less_Suc_eq numeral_2_eq_2)
  have "cut_path 2 [(1, 2)] [0, 1, 3]"
    unfolding cut_path_def below using c
    by (auto intro: exI [of _ 0] exI [of _ 1] exI [of _ 3])
  then show ?thesis
    using solveSMT_decides_paths [OF query_demo_ok(1) ideal_check_facts, of 2 "[(1, 2)]"]
      query_demo_ok(2) [of 2 "[(1, 2)]"] p by auto
qed

text \<open>
  C14. With no happened-before pair the answer is true exactly for two or for at least four
  events: the verdict of the monitor is then a function of the number of events alone.
\<close>

theorem solveSMT_without_pairs:
  assumes "query_ok n m" "solver_sound check" "known_pairs m = []"
    and "check n (order_assertions (int n)) \<noteq> unknown"
  shows "solveSMT check m = Inr (n = 2 \<or> 4 \<le> n)"
  using solver_says [OF assms(1,2)] assms cut_path_empty_iff [of n]
  by (simp add: hb_list_def query_ok_def)

theorem solveSMT_without_pairs_witness:
  "solveSMT ideal_check (query_demo 3 []) = Inr False \<and> solveSMT ideal_check (query_demo 5 []) = Inr True"
  using solveSMT_without_pairs [OF query_demo_ok(1) ideal_check_facts(1), of 3 "[]"]
    solveSMT_without_pairs [OF query_demo_ok(1) ideal_check_facts(1), of 5 "[]"]
    query_demo_ok(2) [of 3 "[]"] query_demo_ok(2) [of 5 "[]"] ideal_check_facts(2)
  by (simp add: proper_pairs_def)

text \<open>
  When two different events are recorded as happening before each other and the final
  cut contains one of them, a sound solver makes \<open>solveSMT\<close> return false.
\<close>

lemma solveSMT_symmetric_pair:
  assumes "query_ok n m" "solver_sound check"
    and "(a, b) \<in> set (known_pairs m)" "(b, a) \<in> set (known_pairs m)" "a \<noteq> b"
    and "bit ((n * n - 1) mod 2 ^ n) (nat (a - 1))"
  shows "solveSMT check m = Inr False"
proof -
  have ok: "0 < n" "proper_pairs n (known_pairs m)" using assms(1) by (auto simp: query_ok_def)
  then have "1 \<le> a" "1 \<le> b" using assms(3) by (auto simp: proper_pairs_def)
  then have "\<not> cut_path n (known_pairs m) g" for g
    using cut_path_symmetric [OF _ assms(3,4) _ _ assms(5), of n g n] assms(6) cut_path_end
    by (metis order_refl)
  then have "\<not> satisfiable n (order_assertions (int n) @ hb_list (known_pairs m))"
    using query_sat_iff [OF ok] by simp
  then show ?thesis
    using assms(1,2) by (auto simp: solveSMT_result solver_sound_def)
qed

text \<open>
  C15. With seven or more events no model of the assertions ever lets the last event
  happen: its bit is clear in every cut, since the cuts stay below \<open>N\<^sup>2\<close>.
\<close>

theorem last_event_never_happens:
  assumes "bounded n I" "proper_pairs n hb" "7 \<le> n" "i \<le> n"
    and "\<forall>p \<in> set (order_assertions (int n) @ hb_list hb). holds n I p"
  shows "\<not> bit (f_fun I (int i)) (n - 1)"
proof -
  have "cut_path n hb (map (\<lambda>i. f_fun I (int i)) [0..<Suc n])"
    using model_gives_path [OF assms(1) _ assms(2,5)] assms(3) by simp
  from cut_path_last_event [OF this assms(3,4)] assms(4) show ?thesis by (simp del: upt_Suc)
qed

theorem last_event_never_happens_witness:
  "\<exists>I. bounded 7 I \<and> (\<forall>p \<in> set (order_assertions 7). holds 7 I p) \<and> \<not> bit (f_fun I 3) 6"
proof -
  have nil: "proper_pairs 7 []" "hb_list [] = []" by (simp_all add: proper_pairs_def hb_list_def)
  have "satisfiable 7 (order_assertions (int 7) @ hb_list [])"
    using query_sat_iff [of 7 "[]"] cut_path_empty_iff [of 7] nil(1) by simp
  then obtain I where "bounded 7 I" "\<forall>p \<in> set (order_assertions (int 7) @ hb_list []). holds 7 I p"
    unfolding satisfiable_def by blast
  with last_event_never_happens [OF this(1) nil(1) _ _ this(2), of 3] nil show ?thesis
    by auto
qed

end
