(* ===== verification/Monitoring_Main.thy ===== *)
theory Monitoring_Main
  imports Smt_Query
begin

text \<open>
  \<open>main\<close> of main.cpp: for every room the switches and lights found in the data directory are
  paired, every pair gets a monitor with its own trace file and a central monitor gets all of
  them; then for every skew \<open>eps\<close> the traces are processed in segments of four events, and
  after each segment all monitors exchange their verdicts. The data directory and the solver
  are parameters; the clock readings and the floating-point statistics are left out.
\<close>

section \<open>Setting up a room\<close>

definition count_devices :: "string \<Rightarrow> string list \<Rightarrow> int \<times> int" where
  "count_devices path entries =
     foldl (\<lambda>(numSwitch, numLight) fileName.
        if contains (path @ ''switch'') fileName then (numSwitch + 1, numLight)
        else if contains (path @ ''light'') fileName then (numSwitch, numLight + 1)
        else (numSwitch, numLight)) (0, 0) entries"

record room_setup =
  outCFile :: "string list"
  formC :: "string list"
  mon :: int
  monitorList :: "trace_monitor list"

definition switch_name :: "string \<Rightarrow> int \<Rightarrow> string" where
  "switch_name path plug = ''data/'' @ path @ ''switch_'' @ to_string plug"

definition light_name :: "string \<Rightarrow> int \<Rightarrow> string" where
  "light_name path light = ''data/'' @ path @ ''light_'' @ to_string light"

definition switch_lines :: "files \<Rightarrow> string \<Rightarrow> int \<Rightarrow> string list" where
  "switch_lines fs path plug = lines_of fs (switch_name path plug @ ''.txt'')"

definition light_lines :: "files \<Rightarrow> string \<Rightarrow> int \<Rightarrow> string list" where
  "light_lines fs path light = lines_of fs (light_name path light @ ''.txt'')"

definition setup_pair :: "files \<Rightarrow> string \<Rightarrow> int \<Rightarrow> int \<Rightarrow> int \<Rightarrow> int \<Rightarrow> room_setup \<Rightarrow> room_setup result" where
  \<comment> \<open>the body of the two loops over \<open>plug\<close> and \<open>light\<close>\<close>
  "setup_pair fs path numSwitch numLight plug light st =
     (let sw = switch_lines fs path plug;
          li = light_lines fs path light;
          outFile = sw @ li;
          form1 = [switch_name path plug, light_name path light]
      in rbind (aget (monitorList st) (mon st)) (\<lambda>m.
         rbind (readFile (fs(''detailsDist.txt'' \<mapsto> outFile))
                  (setValues 0 form1 (numSwitch * numLight) ''detailsDist.txt'' m)) (\<lambda>m'.
         rbind (aset (monitorList st) (mon st) m') (\<lambda>ms.
           Inr (st\<lparr>outCFile := outCFile st @ (if light = 1 then sw else []) @ (if plug = 1 then li else []),
                   formC := formC st @ (if light = 1 then [switch_name path plug] else []) @
                                       (if plug = 1 then [light_name path light] else []),
                   mon := mon st + 1, monitorList := ms\<rparr>)))))"

definition setup_loops :: "files \<Rightarrow> string \<Rightarrow> int \<Rightarrow> int \<Rightarrow> room_setup \<Rightarrow> room_setup result" where
  "setup_loops fs path numSwitch numLight =
     rfold (\<lambda>plug. rfold (\<lambda>light. setup_pair fs path numSwitch numLight plug light) [1..numLight]) [1..numSwitch]"

type_synonym room = "trace_monitor list \<times> trace_monitor"

definition setup_room :: "files \<Rightarrow> string list \<Rightarrow> int \<Rightarrow> string \<Rightarrow> (int \<times> room) result" where
  \<comment> \<open>returns \<open>numMonitor\<close>, \<open>monitorList\<close> and \<open>centMon\<close>; \<open>junk\<close> as in \<open>Monitor_default\<close>\<close>
  "setup_room fs entries junk path =
     (let (numSwitch, numLight) = count_devices path entries
      in rbind (setup_loops fs path numSwitch numLight
                  \<lparr>outCFile = [], formC = [], mon = 0, monitorList = replicate 20 (Monitor_default junk)\<rparr>) (\<lambda>st.
         rbind (readFile (fs(''detailsCen.txt'' \<mapsto> outCFile st))
                  (setValues 0 (formC st) 1 ''detailsCen.txt'' (Monitor_default junk))) (\<lambda>centMon.
           Inr (numSwitch * numLight, monitorList st, centMon))))"

section \<open>Processing a trace\<close>

definition observe :: "(nat \<Rightarrow> formula list \<Rightarrow> check_result) \<Rightarrow> int \<Rightarrow> int \<Rightarrow> int \<Rightarrow> trace_monitor \<Rightarrow> trace_monitor result" where
  \<comment> \<open>\<open>readSegTrace\<close> followed by \<open>verdicts_mod[0] = solveSMT(0)\<close>\<close>
  "observe check start fin eps m =
     rbind (readSegTrace start fin eps m) (\<lambda>m1.
     rbind (solveSMT check m1) (\<lambda>v.
     rbind (vset (verdicts_mod m1) 0 v) (\<lambda>vm. Inr (m1\<lparr>verdicts_mod := vm\<rparr>))))"

definition observe_all :: "(nat \<Rightarrow> formula list \<Rightarrow> check_result) \<Rightarrow> nat \<Rightarrow> int \<Rightarrow> int \<Rightarrow> int \<Rightarrow>
    trace_monitor list \<Rightarrow> trace_monitor list result" where
  "observe_all check n start fin eps =
     rfold (\<lambda>i ms. rbind (vget ms i) (\<lambda>m. rbind (observe check start fin eps m) (\<lambda>m'. vset ms i m'))) [0..<n]"

definition share_all :: "nat \<Rightarrow> trace_monitor list \<Rightarrow> trace_monitor list result" where
  "share_all n =
     rfold (\<lambda>i. rfold (\<lambda>j ms. if i \<noteq> j then share_pair (i, j) ms else Inr ms) [0..<n]) [0..<n]"

definition segment_round :: "(nat \<Rightarrow> formula list \<Rightarrow> check_result) \<Rightarrow> nat \<Rightarrow> int \<Rightarrow> int \<Rightarrow> int \<Rightarrow> room \<Rightarrow> room result" where
  "segment_round check n start fin eps = (\<lambda>(ms, cent).
     rbind (observe_all check n start fin eps ms) (\<lambda>ms1.
     rbind (observe check start fin eps cent) (\<lambda>cent1.
     rbind (share_all n ms1) (\<lambda>ms2. Inr (ms2, cent1)))))"

definition segLength :: int where
  "segLength = 4"

partial_function (option) segment_loop ::
  "(nat \<Rightarrow> formula list \<Rightarrow> check_result) \<Rightarrow> nat \<Rightarrow> int \<Rightarrow> int \<Rightarrow> room \<Rightarrow> room result option" where
  \<comment> \<open>\<open>while (end < centMon.numEventAll[0])\<close>\<close>
  "segment_loop check n eps fin r =
     (case aget (numEventAll (snd r)) 0 of
        Inl e \<Rightarrow> Some (Inl e)
      | Inr events \<Rightarrow>
          if fin < events
          then (case segment_round check n fin (fin + segLength) eps r of
                  Inl e \<Rightarrow> Some (Inl e)
                | Inr r' \<Rightarrow> segment_loop check n eps (fin + segLength) r')
          else Some (Inr r))"

primrec loop_or_fault :: "('i \<Rightarrow> 's \<Rightarrow> 's result option) \<Rightarrow> 'i list \<Rightarrow> 's \<Rightarrow> 's result option" where
  \<comment> \<open>a \<open>for\<close> loop around a body that may not return\<close>
  "loop_or_fault f [] s = Some (Inr s)"
| "loop_or_fault f (x # xs) s =
     (case f x s of None \<Rightarrow> None | Some (Inl e) \<Rightarrow> Some (Inl e) | Some (Inr s') \<Rightarrow> loop_or_fault f xs s')"

definition eps_line :: "int \<Rightarrow> string" where
  "eps_line eps = ''segLength: '' @ to_string segLength @ '' eps: '' @ to_string eps"

definition run_room :: "(nat \<Rightarrow> formula list \<Rightarrow> check_result) \<Rightarrow> files \<Rightarrow> string list \<Rightarrow> int \<Rightarrow> string \<Rightarrow>
    string list \<Rightarrow> string list result option" where
  \<comment> \<open>one iteration of the loop over the rooms; the two timing lines are left out of the output\<close>
  "run_room check fs entries junk path out =
     (case setup_room fs entries junk path of
        Inl e \<Rightarrow> Some (Inl e)
      | Inr (numMonitor, r) \<Rightarrow>
          map_option (map_sum id fst)
            (loop_or_fault (\<lambda>eps (out, r).
               map_option (map_sum id (\<lambda>r'. (out @ [eps_line eps], r'))) (segment_loop check (nat numMonitor) eps 0 r))
             [0..5] (out @ [path], r)))"

definition rooms :: "string list" where
  "rooms = [''entrance'', ''kitchen'', ''office'', ''toilet'', ''staircase'', ''bathroom'']"

definition monitoring_main :: "(nat \<Rightarrow> formula list \<Rightarrow> check_result) \<Rightarrow> files \<Rightarrow> string list \<Rightarrow> int \<Rightarrow>
    string list result option" where
  "monitoring_main check fs entries junk = loop_or_fault (run_room check fs entries junk) rooms []"

section \<open>What an observation leaves alone\<close>

definition same_trace :: "trace_monitor \<Rightarrow> trace_monitor \<Rightarrow> bool" where
  "same_trace m m' \<longleftrightarrow> num_monitors m' = num_monitors m \<and> verdicts m' = verdicts m \<and>
     verdicts_mod m' = verdicts_mod m \<and> EValueAll m' = EValueAll m \<and> numEventAll m' = numEventAll m"

lemma same_trace_refl [simp]: "same_trace m m"
  by (simp add: same_trace_def)

lemma same_trace_trans: "same_trace a b \<Longrightarrow> same_trace b c \<Longrightarrow> same_trace a c"
  by (simp add: same_trace_def)

lemma seg_event_same_trace: "seg_event i j (num, m) = Inr (num', m') \<Longrightarrow> same_trace m m'"
  by (auto simp: seg_event_def same_trace_def result_simps)

lemma seg_process_same_trace:
  assumes "seg_process s f i (num, m) = Inr (num', m')"
  shows "same_trace m m'"
proof -
  from assms obtain counts xs where counts: "aset (numEvent m) i 0 = Inr counts"
    and r: "rfold (seg_event i) xs (num, m\<lparr>numEvent := counts\<rparr>) = Inr (num', m')"
    by (auto simp: seg_process_def result_simps)
  have "same_trace m (snd (num', m'))"
  proof (rule rfold_invariant [OF r, where P = "\<lambda>st. same_trace m (snd st)"])
    show "same_trace m (snd st')" if "same_trace m (snd st)" "seg_event i x st = Inr st'" for x st st'
      using that seg_event_same_trace [of i x "fst st" "snd st" "fst st'" "snd st'"] by (auto intro: same_trace_trans)
  qed (simp add: same_trace_def)
  then show ?thesis by simp
qed

lemma hb_add_same_trace: "hb_add eps i j k l m = Inr m' \<Longrightarrow> same_trace m m'"
  by (auto simp: hb_add_def same_trace_def result_simps split: if_splits)

lemma rfold_same_trace:
  assumes "rfold f xs m = Inr m'" "\<And>x m m'. x \<in> set xs \<Longrightarrow> f x m = Inr m' \<Longrightarrow> same_trace m m'"
  shows "same_trace m m'"
  using assms(1)
proof (rule rfold_invariant [where P = "same_trace m"])
  show "same_trace m s'" if "x \<in> set xs" "same_trace m s" "f x s = Inr s'" for x s s'
    using same_trace_trans [OF that(2) assms(2) [OF that(1,3)]] .
qed simp

lemma hb_loops_same_trace: "hb_loops eps m = Inr m' \<Longrightarrow> same_trace m m'"
  unfolding hb_loops_def
  by (elim rfold_same_trace) (auto simp: result_simps elim!: rfold_same_trace hb_add_same_trace)

lemma readSegTrace_same_trace:
  assumes "readSegTrace s f eps m = Inr m'"
  shows "same_trace m m'"
proof -
  from assms obtain num m1 where
    r: "rfold (seg_process (max (s - eps) 0) f) [0..numProcess m - 1] (1, m) = Inr (num, m1)"
    and hb: "hb_loops eps m1 = Inr m'"
    by (auto simp: readSegTrace_def result_simps)
  have "same_trace m (snd (num, m1))"
  proof (rule rfold_invariant [OF r, where P = "\<lambda>st. same_trace m (snd st)"])
    show "same_trace m (snd st')" if "same_trace m (snd st)" "seg_process (max (s - eps) 0) f x st = Inr st'" for x st st'
      using that seg_process_same_trace [of "max (s - eps) 0" f x "fst st" "snd st" "fst st'" "snd st'"]
      by (auto intro: same_trace_trans)
  qed simp
  with hb_loops_same_trace [OF hb] show ?thesis by (auto intro: same_trace_trans)
qed

lemma observe_keeps:
  assumes "observe check s f eps m = Inr m'"
  shows "numEventAll m' = numEventAll m" "verdicts m' = verdicts m" "num_monitors m' = num_monitors m"
    "\<exists>v. verdicts_mod m' = (verdicts_mod m)[0 := v]"
proof -
  from assms obtain m1 v vm where "readSegTrace s f eps m = Inr m1" "vset (verdicts_mod m1) 0 v = Inr vm"
    "m' = m1\<lparr>verdicts_mod := vm\<rparr>"
    by (auto simp: observe_def rbind_Inr_iff)
  with readSegTrace_same_trace [of s f eps m m1]
  show "numEventAll m' = numEventAll m" "verdicts m' = verdicts m" "num_monitors m' = num_monitors m"
    "\<exists>v. verdicts_mod m' = (verdicts_mod m)[0 := v]"
    by (auto simp: same_trace_def vset_Inr_iff)
qed

section \<open>The segment loop\<close>

text \<open>
  The loop returns, and whatever every round keeps holds when it returns without a fault.
\<close>

lemma segment_round_total_events:
  assumes "segment_round check n s f eps r = Inr r'"
  shows "numEventAll (snd r') = numEventAll (snd r)"
  using assms by (auto simp: segment_round_def rbind_Inr_iff split: prod.splits dest: observe_keeps(1))

lemma segment_loop_total:
  assumes keep: "\<And>s r r'. P r \<Longrightarrow> segment_round check n s (s + segLength) eps r = Inr r' \<Longrightarrow> P r'" and "P r"
  shows "\<exists>res. segment_loop check n eps fin r = Some res \<and> (\<forall>r'. res = Inr r' \<longrightarrow> P r')"
  using assms(2)
proof (induction "nat (numEventAll (snd r) ! 0 - fin)" arbitrary: fin r rule: less_induct)
  case less
  show ?case
  proof (cases "aget (numEventAll (snd r)) 0")
    case (Inl e)
    then show ?thesis by (subst segment_loop.simps) simp
  next
    case (Inr events)
    then have ev: "numEventAll (snd r) ! 0 = events" by (auto simp: aget_def vget_def split: if_splits)
    show ?thesis
    proof (cases "fin < events")
      case True
      show ?thesis
      proof (cases "segment_round check n fin (fin + segLength) eps r")
        case (Inl e)
        with Inr True show ?thesis by (subst segment_loop.simps) simp
      next
        case round: (Inr r')
        have "nat (numEventAll (snd r') ! 0 - (fin + segLength)) < nat (numEventAll (snd r) ! 0 - fin)"
          using segment_round_total_events [OF round] True ev by (simp add: segLength_def)
        from less.hyps [OF this keep [OF less.prems round]] Inr True round show ?thesis
          by (subst segment_loop.simps) simp
      qed
    next
      case False
      with Inr less.prems show ?thesis by (subst segment_loop.simps) auto
    qed
  qed
qed

text \<open>The loop as a number of rounds, one for every \<open>segLength\<close> events of the central monitor's first process.\<close>

primrec segment_rounds :: "(nat \<Rightarrow> formula list \<Rightarrow> check_result) \<Rightarrow> nat \<Rightarrow> int \<Rightarrow> nat \<Rightarrow> int \<Rightarrow> room \<Rightarrow> room result" where
  "segment_rounds check n eps 0 fin r = Inr r"
| "segment_rounds check n eps (Suc k) fin r =
     rbind (segment_round check n fin (fin + segLength) eps r) (segment_rounds check n eps k (fin + segLength))"

lemma segment_loop_rounds:
  assumes "numEventAll (snd r) \<noteq> []"
  shows "segment_loop check n eps fin r =
    Some (segment_rounds check n eps (nat ((numEventAll (snd r) ! 0 - fin + 3) div 4)) fin r)"
  using assms
proof (induction "nat ((numEventAll (snd r) ! 0 - fin + 3) div 4)" arbitrary: fin r)
  case 0
  then have "\<not> fin < numEventAll (snd r) ! 0" by linarith
  with 0 show ?case by (subst segment_loop.simps) (simp add: aget_def vget_def)
next
  case (Suc k)
  from Suc(2) have k: "k = nat ((numEventAll (snd r) ! 0 - (fin + segLength) + 3) div 4)" and fin: "fin < numEventAll (snd r) ! 0"
    unfolding segLength_def by linarith+
  show ?case
  proof (cases "segment_round check n fin (fin + segLength) eps r")
    case (Inl e)
    with fin Suc(2,3) show ?thesis by (subst segment_loop.simps) (simp add: aget_def vget_def flip: Suc(2))
  next
    case (Inr r')
    note ev = segment_round_total_events [OF Inr]
    have "segment_loop check n eps (fin + segLength) r' = Some (segment_rounds check n eps k (fin + segLength) r')"
      using Suc(1) [of r' "fin + segLength"] k Suc(3) by (simp add: ev)
    with fin Suc(3) Inr show ?thesis by (subst segment_loop.simps) (simp add: aget_def vget_def flip: Suc(2))
  qed
qed

lemma segment_rounds_keep:
  assumes keep: "\<And>s r r'. P r \<Longrightarrow> segment_round check n s (s + segLength) eps r = Inr r' \<Longrightarrow> P r'"
  shows "P r \<Longrightarrow> segment_rounds check n eps k fin r = Inr r' \<Longrightarrow> P r'"
proof (induction k arbitrary: fin r)
  case (Suc k)
  then obtain r1 where "segment_round check n fin (fin + segLength) eps r = Inr r1" "segment_rounds check n eps k (fin + segLength) r1 = Inr r'"
    by (auto simp: rbind_Inr_iff)
  with Suc.IH keep [OF Suc.prems(1)] show ?case by blast
qed simp

lemma loop_or_fault_total:
  assumes "\<And>x s. x \<in> set xs \<Longrightarrow> \<exists>res. f x s = Some res \<and> (\<forall>s'. res = Inr s' \<longrightarrow> g s' = g s @ h x)"
  shows "\<exists>res. loop_or_fault f xs s = Some res \<and> (\<forall>s'. res = Inr s' \<longrightarrow> g s' = g s @ concat (map h xs))"
  using assms
proof (induction xs arbitrary: s)
  case (Cons x xs)
  from Cons.prems [of x s] obtain res where res: "f x s = Some res" "\<forall>s'. res = Inr s' \<longrightarrow> g s' = g s @ h x"
    by auto
  show ?case
  proof (cases res)
    case (Inr s')
    with res Cons.IH [of s'] Cons.prems show ?thesis by fastforce
  qed (use res in simp)
qed simp

section \<open>Exchange after a segment\<close>

lemma rfold_concat: "rfold f (concat xss) s = rfold (\<lambda>xs. rfold f xs) xss s"
proof (induction xss arbitrary: s)
  case (Cons xs xss)
  then have "rfold f (concat xss) = rfold (\<lambda>xs. rfold f xs) xss" by (simp add: fun_eq_iff)
  then show ?case by (simp add: rfold_append)
qed simp

lemma rfold_filter: "rfold f (filter P xs) s = rfold (\<lambda>x s. if P x then f x s else Inr s) xs s"
proof (induction xs arbitrary: s)
  case (Cons x xs)
  then have "rfold f (filter P xs) = rfold (\<lambda>x s. if P x then f x s else Inr s) xs" by (simp add: fun_eq_iff)
  then show ?case by simp
qed simp

lemma share_all_pairs: "share_all n ms = rfold share_pair (all_pairs n) ms"
proof -
  have "rfold (\<lambda>j ms. if i \<noteq> j then share_pair (i, j) ms else Inr ms) [0..<n] =
     rfold share_pair (map (\<lambda>j. (i, j)) (filter (\<lambda>j. i \<noteq> j) [0..<n]))" for i
    by (rule ext) (simp add: rfold_filter)
  then show ?thesis
    unfolding share_all_def all_pairs_def rfold_concat by simp
qed

lemma gossip_no_more:
  assumes "set es \<subseteq> {..<n} \<times> {..<n}" "j < n"
  shows "dom (gossip es k j) \<subseteq> (\<Union>i<n. dom (k i))"
  using assms(1)
proof (induction es arbitrary: k)
  case Nil
  with assms(2) show ?case by auto
next
  case (Cons e es)
  obtain a b where e: "e = (a, b)" by (cases e)
  have "dom (gossip (e # es) k j) \<subseteq> (\<Union>i<n. dom (learn a b k i))"
    using Cons e by simp
  also have "\<dots> \<subseteq> (\<Union>i<n. dom (k i))"
    using Cons.prems e unfolding UN_subset_iff
    by (auto simp: learn_def split: if_splits)
  finally show ?case .
qed

lemma all_pairs_broadcast:
  assumes "j < n"
  shows "dom (gossip (all_pairs n) k j) = (\<Union>i<n. dom (k i))"
proof
  show "dom (gossip (all_pairs n) k j) \<subseteq> (\<Union>i<n. dom (k i))"
  proof (rule gossip_no_more [OF _ assms])
    show "set (all_pairs n) \<subseteq> {..<n} \<times> {..<n}" by (auto simp: all_pairs_def)
  qed
  show "(\<Union>i<n. dom (k i)) \<subseteq> dom (gossip (all_pairs n) k j)"
    by (rule UN_least) (simp add: all_pairs_knows assms)
qed

lemma share_all_broadcast:
  assumes "room_inv n ms"
  shows "\<exists>ms'. share_all n ms = Inr ms' \<and> room_inv n ms' \<and>
     (\<forall>j<n. \<forall>c<n. verdicts_mod (ms' ! j) ! c \<longleftrightarrow> (\<exists>i<n. verdicts_mod (ms ! i) ! c))"
proof -
  have "set (all_pairs n) \<subseteq> distinct_pairs n" by (auto simp: all_pairs_def distinct_pairs_def)
  from room.run_refines_gossip [OF this assms] obtain ms' where ms':
    "rfold share_pair (all_pairs n) ms = Inr ms'" "room_inv n ms'" "know ms' = gossip (all_pairs n) (know ms)"
    by auto
  have flag: "verdicts_mod (s ! j) ! c \<longleftrightarrow> c \<in> dom (know s j)" if "room_inv n s" "j < n" "c < n" for s j c
    using that by (auto simp: room_inv_def know_def known_def dom_def)
  have "verdicts_mod (ms' ! j) ! c \<longleftrightarrow> (\<exists>i<n. verdicts_mod (ms ! i) ! c)" if "j < n" "c < n" for j c
  proof -
    have "c \<in> dom (know ms' j) \<longleftrightarrow> c \<in> (\<Union>i<n. dom (know ms i))"
      using all_pairs_broadcast [OF that(1)] by (simp add: ms'(3))
    with flag [OF ms'(2) that] flag [OF assms _ that(2)] show ?thesis by auto
  qed
  with ms'(1,2) show ?thesis by (auto simp: share_all_pairs)
qed

lemma observe_room_inv:
  assumes "observe_all check n s f eps ms = Inr ms'" "room_inv n ms"
  shows "room_inv n ms'"
proof (rule rfold_invariant [OF assms(1) [unfolded observe_all_def], where P = "room_inv n"])
  fix i ms ms'
  assume inv: "room_inv n ms"
    and step: "rbind (vget ms i) (\<lambda>m. rbind (observe check s f eps m) (\<lambda>m'. vset ms i m')) = Inr ms'"
  from step obtain m' where m': "i < length ms" "observe check s f eps (ms ! i) = Inr m'" "ms' = ms[i := m']"
    by (auto simp: rbind_Inr_iff result_simps)
  from observe_keeps [OF m'(2)] inv m'(1,3) show "room_inv n ms'"
    by (auto simp: room_inv_def nth_list_update)
qed (rule assms(2))

definition no_verdict :: "trace_monitor \<Rightarrow> bool" where
  "no_verdict m \<longleftrightarrow> set (verdicts m) \<subseteq> {False}"

lemma observe_no_verdict:
  assumes "observe_all check n s f eps ms = Inr ms'" "list_all no_verdict ms"
  shows "list_all no_verdict ms'"
proof (rule rfold_invariant [OF assms(1) [unfolded observe_all_def], where P = "list_all no_verdict"])
  fix i ms ms'
  assume inv: "list_all no_verdict ms"
    and step: "rbind (vget ms i) (\<lambda>m. rbind (observe check s f eps m) (\<lambda>m'. vset ms i m')) = Inr ms'"
  from step obtain m' where m': "i < length ms" "observe check s f eps (ms ! i) = Inr m'" "ms' = ms[i := m']"
    by (auto simp: rbind_Inr_iff result_simps)
  from observe_keeps(2) [OF m'(2)] inv m'(1,3) show "list_all no_verdict ms'"
    by (auto simp: no_verdict_def list_all_length nth_list_update)
qed (rule assms(2))

lemma share_no_verdict:
  assumes "ShareVerdict this m = Inr m'" "no_verdict this" "no_verdict m"
  shows "no_verdict m'"
  using assms(1) [unfolded ShareVerdict_def]
proof (rule rfold_invariant [where P = no_verdict])
  show "no_verdict s'" if "no_verdict s" "share_body this c s = Inr s'" for c s s'
    using that assms(2) unfolding share_body_def GetVerdict_def no_verdict_def
    by (auto simp: result_simps split: if_splits dest!: set_update_subset_insert [THEN subsetD]) (metis nth_mem subsetD singletonD)+
qed (rule assms(3))

lemma share_all_no_verdict:
  assumes "share_all n ms = Inr ms'" "list_all no_verdict ms"
  shows "list_all no_verdict ms'"
proof (rule rfold_invariant [OF assms(1) [unfolded share_all_pairs], where P = "list_all no_verdict"])
  fix e ms ms'
  assume inv: "list_all no_verdict ms" and step: "share_pair e ms = Inr ms'"
  obtain i j where e: "e = (i, j)" by (cases e)
  from step obtain m' where m': "i < length ms" "j < length ms" "ShareVerdict (ms ! i) (ms ! j) = Inr m'" "ms' = ms[j := m']"
    by (auto simp: share_pair_def e rbind_Inr_iff result_simps)
  with share_no_verdict [OF m'(3)] inv show "list_all no_verdict ms'"
    by (auto simp: list_all_length nth_list_update)
qed (rule assms(2))

section \<open>The monitors of a room\<close>

definition ready :: "nat \<Rightarrow> string list \<Rightarrow> trace_monitor \<Rightarrow> bool" where
  \<comment> \<open>a monitor of \<open>n\<close> that has read the given lines and recorded nothing yet\<close>
  "ready n ls m \<longleftrightarrow> holds_trace (foldl add_line [] ls) m \<and> buffers_ok m \<and>
     numHbSet m = 0 \<and> length (hbSet m) = 50 \<and> num_monitors m = int n \<and>
     verdicts m = replicate n False \<and> verdicts_mod m = replicate n False"

definition pair_lines :: "files \<Rightarrow> string \<Rightarrow> int \<times> int \<Rightarrow> string list" where
  "pair_lines fs path = (\<lambda>(plug, light). switch_lines fs path plug @ light_lines fs path light)"

definition central_part :: "files \<Rightarrow> string \<Rightarrow> int \<times> int \<Rightarrow> string list" where
  "central_part fs path = (\<lambda>(plug, light). (if light = 1 then switch_lines fs path plug else []) @
     (if plug = 1 then light_lines fs path light else []))"

definition device_pairs :: "int \<Rightarrow> int \<Rightarrow> (int \<times> int) list" where
  "device_pairs numSwitch numLight = concat (map (\<lambda>plug. map (\<lambda>light. (plug, light)) [1..numLight]) [1..numSwitch])"

definition central_lines :: "files \<Rightarrow> string \<Rightarrow> int \<Rightarrow> int \<Rightarrow> string list" where
  "central_lines fs path numSwitch numLight = concat (map (central_part fs path) (device_pairs numSwitch numLight))"

lemma load_monitor:
  fixes n :: nat
  assumes "fs name = Some ls"
  shows "if fits [] ls
     then \<exists>m. readFile fs (setValues i form (int n) name (Monitor_default junk)) = Inr m \<and> ready n ls m
     else readFile fs (setValues i form (int n) name (Monitor_default junk)) = Inl Out_Of_Range"
proof -
  let ?m = "setValues i form (int n) name (Monitor_default junk)"
  have "ready n ls m" if m: "readFile fs ?m = Inr m" "holds_trace (foldl add_line [] ls) m" for m
  proof -
    have "num_monitors ?m = int n" "verdicts ?m = replicate n False" "verdicts_mod ?m = replicate n False"
      "numHbSet ?m = 0" "length (hbSet ?m) = 50" "buffers_ok ?m"
      by (simp_all add: setValues_def Monitor_default_def buffers_ok_def)
    with readFile_same_work [OF m(1)] m(2) show ?thesis
      by (simp add: ready_def same_work_def buffers_ok_def)
  qed
  moreover have "lines_of fs name = ls" using assms by (simp add: lines_of_def)
  ultimately show ?thesis
    using readFile_after_setValues [of fs name i form "int n" "Monitor_default junk"] by (auto split: if_splits)
qed

lemma setup_pair_step:
  assumes "numSwitch * numLight = int n" "mon st = int k" "length (monitorList st) = 20"
    "k < 20 \<Longrightarrow> monitorList st ! k = Monitor_default junk"
  shows "if k < 20 \<and> fits [] (pair_lines fs path x)
     then \<exists>m form. setup_pair fs path numSwitch numLight (fst x) (snd x) st =
            Inr (st\<lparr>outCFile := outCFile st @ central_part fs path x, formC := form,
                    mon := int (Suc k), monitorList := (monitorList st)[k := m]\<rparr>) \<and> ready n (pair_lines fs path x) m
     else setup_pair fs path numSwitch numLight (fst x) (snd x) st = Inl Out_Of_Range"
proof (cases "k < 20")
  case True
  obtain plug light where x: "x = (plug, light)" by (cases x)
  let ?form = "formC st @ (if light = 1 then [switch_name path plug] else []) @
     (if plug = 1 then [light_name path light] else [])"
  note load = load_monitor [of "fs(''detailsDist.txt'' \<mapsto> pair_lines fs path x)" "''detailsDist.txt''"
      "pair_lines fs path x" 0 "[switch_name path plug, light_name path light]" n junk]
  note unfold = setup_pair_def x Let_def pair_lines_def central_part_def
  show ?thesis
  proof (cases "fits [] (pair_lines fs path x)")
    case fits: True
    with load obtain m where m: "readFile (fs(''detailsDist.txt'' \<mapsto> pair_lines fs path x))
        (setValues 0 [switch_name path plug, light_name path light] (int n) ''detailsDist.txt'' (Monitor_default junk)) = Inr m"
      "ready n (pair_lines fs path x) m" by auto
    have "setup_pair fs path numSwitch numLight (fst x) (snd x) st =
        Inr (st\<lparr>outCFile := outCFile st @ central_part fs path x, formC := ?form,
                mon := int (Suc k), monitorList := (monitorList st)[k := m]\<rparr>)"
      using True assms m(1) by (simp add: unfold)
    with True fits m(2) show ?thesis by metis
  next
    case False
    with load have "readFile (fs(''detailsDist.txt'' \<mapsto> pair_lines fs path x))
        (setValues 0 [switch_name path plug, light_name path light] (int n) ''detailsDist.txt'' (Monitor_default junk)) = Inl Out_Of_Range"
      by auto
    then have "setup_pair fs path numSwitch numLight (fst x) (snd x) st = Inl Out_Of_Range"
      using True assms by (simp add: unfold)
    with False show ?thesis by argo
  qed
next
  case False
  with assms show ?thesis by (simp add: setup_pair_def Let_def aget_def vget_def)
qed

lemma setup_pairs:
  assumes "numSwitch * numLight = int n" "mon st = int k" "length (monitorList st) = 20"
    "\<forall>i. k \<le> i \<longrightarrow> i < 20 \<longrightarrow> monitorList st ! i = Monitor_default junk"
  shows "if (xs = [] \<or> k + length xs \<le> 20) \<and> (\<forall>x \<in> set xs. fits [] (pair_lines fs path x))
     then \<exists>st'. rfold (\<lambda>x. setup_pair fs path numSwitch numLight (fst x) (snd x)) xs st = Inr st' \<and>
            outCFile st' = outCFile st @ concat (map (central_part fs path) xs) \<and> length (monitorList st') = 20 \<and>
            (\<forall>i<length xs. ready n (pair_lines fs path (xs ! i)) (monitorList st' ! (k + i))) \<and>
            (\<forall>i<k. monitorList st' ! i = monitorList st ! i) \<and>
            (\<forall>i. k + length xs \<le> i \<longrightarrow> i < 20 \<longrightarrow> monitorList st' ! i = Monitor_default junk)
     else rfold (\<lambda>x. setup_pair fs path numSwitch numLight (fst x) (snd x)) xs st = Inl Out_Of_Range"
  using assms(2-4)
proof (induction xs arbitrary: k st)
  case Nil
  then show ?case by simp
next
  case (Cons x xs)
  note step = setup_pair_step [OF assms(1) Cons.prems(1,2), of junk fs path x]
  have fresh: "k < 20 \<Longrightarrow> monitorList st ! k = Monitor_default junk" using Cons.prems(3) by simp
  show ?case
  proof (cases "k < 20 \<and> fits [] (pair_lines fs path x)")
    case True
    with step fresh obtain m form where m: "ready n (pair_lines fs path x) m"
      "setup_pair fs path numSwitch numLight (fst x) (snd x) st =
         Inr (st\<lparr>outCFile := outCFile st @ central_part fs path x, formC := form,
                 mon := int (Suc k), monitorList := (monitorList st)[k := m]\<rparr>)" (is "_ = Inr ?st1")
      by auto
    have st1: "mon ?st1 = int (Suc k)" "length (monitorList ?st1) = 20"
      "\<forall>i. Suc k \<le> i \<longrightarrow> i < 20 \<longrightarrow> monitorList ?st1 ! i = Monitor_default junk"
      "outCFile ?st1 = outCFile st @ central_part fs path x" "monitorList ?st1 ! k = m"
      "\<forall>i<k. monitorList ?st1 ! i = monitorList st ! i"
      using Cons.prems True by auto
    have run: "rfold (\<lambda>x. setup_pair fs path numSwitch numLight (fst x) (snd x)) (x # xs) st =
        rfold (\<lambda>x. setup_pair fs path numSwitch numLight (fst x) (snd x)) xs ?st1"
      using m(2) by simp
    show ?thesis
    proof (cases "(xs = [] \<or> Suc k + length xs \<le> 20) \<and> (\<forall>x \<in> set xs. fits [] (pair_lines fs path x))")
      case ok: True
      with Cons.IH [OF st1(1-3)] obtain st' where st':
        "rfold (\<lambda>x. setup_pair fs path numSwitch numLight (fst x) (snd x)) xs ?st1 = Inr st'"
        "outCFile st' = outCFile ?st1 @ concat (map (central_part fs path) xs)" "length (monitorList st') = 20"
        "\<forall>i<length xs. ready n (pair_lines fs path (xs ! i)) (monitorList st' ! (Suc k + i))"
        "\<forall>i<Suc k. monitorList st' ! i = monitorList ?st1 ! i"
        "\<forall>i. Suc k + length xs \<le> i \<longrightarrow> i < 20 \<longrightarrow> monitorList st' ! i = Monitor_default junk"
        by auto
      have "\<forall>i<length (x # xs). ready n (pair_lines fs path ((x # xs) ! i)) (monitorList st' ! (k + i))"
      proof (intro allI impI)
        fix i
        assume "i < length (x # xs)"
        then show "ready n (pair_lines fs path ((x # xs) ! i)) (monitorList st' ! (k + i))"
          using st'(4,5) [rule_format] st1(5) m(1) by (cases i) auto
      qed
      moreover have "\<forall>i<k. monitorList st' ! i = monitorList st ! i" using st'(5) st1(6) by simp
      moreover have "outCFile st' = outCFile st @ concat (map (central_part fs path) (x # xs))"
        using st'(2) st1(4) by simp
      moreover have "k + length (x # xs) \<le> 20" using ok True by auto
      ultimately show ?thesis using st'(1,3,6) ok True unfolding run by auto
    next
      case False
      with Cons.IH [OF st1(1-3)]
      have "rfold (\<lambda>x. setup_pair fs path numSwitch numLight (fst x) (snd x)) xs ?st1 = Inl Out_Of_Range" by argo
      moreover have "\<not> ((x # xs = [] \<or> k + length (x # xs) \<le> 20) \<and> (\<forall>y \<in> set (x # xs). fits [] (pair_lines fs path y)))"
        using False by auto
      ultimately show ?thesis unfolding run by argo
    qed
  next
    case False
    with step fresh have "setup_pair fs path numSwitch numLight (fst x) (snd x) st = Inl Out_Of_Range" by auto
    with False show ?thesis by auto
  qed
qed

lemma setup_loops_pairs:
  "setup_loops fs path numSwitch numLight st =
     rfold (\<lambda>x. setup_pair fs path numSwitch numLight (fst x) (snd x)) (device_pairs numSwitch numLight) st"
  by (simp add: setup_loops_def device_pairs_def rfold_concat)

lemma length_device_pairs:
  assumes "0 \<le> numSwitch" "0 \<le> numLight"
  shows "int (length (device_pairs numSwitch numLight)) = numSwitch * numLight"
  using assms by (simp add: device_pairs_def length_concat comp_def sum_list_triv)

lemma count_devices_nonneg: "0 \<le> fst (count_devices path entries) \<and> 0 \<le> snd (count_devices path entries)"
proof -
  have "0 \<le> fst st \<and> 0 \<le> snd st \<Longrightarrow>
    0 \<le> fst (foldl (\<lambda>(numSwitch, numLight) fileName.
        if contains (path @ ''switch'') fileName then (numSwitch + 1, numLight)
        else if contains (path @ ''light'') fileName then (numSwitch, numLight + 1)
        else (numSwitch, numLight)) st entries) \<and>
    0 \<le> snd (foldl (\<lambda>(numSwitch, numLight) fileName.
        if contains (path @ ''switch'') fileName then (numSwitch + 1, numLight)
        else if contains (path @ ''light'') fileName then (numSwitch, numLight + 1)
        else (numSwitch, numLight)) st entries)" for st :: "int \<times> int"
    by (induction entries arbitrary: st) (auto split: prod.splits)
  then show ?thesis by (simp add: count_devices_def)
qed

lemma device_pairs_nth:
  assumes "p < S" "l < L"
  shows "p * L + l < length (device_pairs (int S) (int L))"
    "device_pairs (int S) (int L) ! (p * L + l) = (int p + 1, int l + 1)"
proof -
  have up: "[1..int k] = map (\<lambda>i. int i + 1) [0..<k]" for k
  proof (induction k)
    case (Suc k)
    have "[1..int k + 1] = [1..int k] @ [int k + 1]" using upto_rec2 [of 1 "int k + 1"] by simp
    with Suc show ?case by (simp add: add.commute)
  qed simp
  have eq: "device_pairs (int S) (int L) = concat (map (\<lambda>p. map (\<lambda>l. (int p + 1, int l + 1)) [0..<L]) [0..<S])"
    by (simp add: device_pairs_def up comp_def)
  have "p * L + l < length (concat (map (\<lambda>p. map (\<lambda>l. (int p + 1, int l + 1)) [0..<L]) [0..<S])) \<and>
    concat (map (\<lambda>p. map (\<lambda>l. (int p + 1, int l + 1)) [0..<L]) [0..<S]) ! (p * L + l) = (int p + 1, int l + 1)"
    using assms(1)
  proof (induction S)
    case (Suc S)
    have len: "length (concat (map (\<lambda>p. map (\<lambda>l. (int p + 1, int l + 1)) [0..<L]) [0..<S])) = S * L"
      by (simp add: length_concat comp_def sum_list_triv)
    show ?case
    proof (cases "p < S")
      case True
      with Suc.IH show ?thesis by (auto simp: nth_append)
    next
      case False
      with Suc.prems have "p = S" by simp
      with len assms(2) show ?thesis by (simp add: nth_append)
    qed
  qed simp
  then show "p * L + l < length (device_pairs (int S) (int L))"
    "device_pairs (int S) (int L) ! (p * L + l) = (int p + 1, int l + 1)"
    unfolding eq by blast+
qed

lemma fits_all_pairs:
  "(\<forall>x \<in> set (device_pairs (int S) (int L)). P x) \<longleftrightarrow> (\<forall>p<S. \<forall>l<L. P (int p + 1, int l + 1))"
proof -
  have "set [1..int k] = (\<lambda>i. int i + 1) ` {..<k}" for k
    using image_int_atLeastLessThan [of 0 k] by (force simp: image_iff intro: bexI [of _ "nat (_ - 1)"])
  then show ?thesis by (auto simp: device_pairs_def)
qed

lemma setup_room_total:
  assumes "count_devices path entries = (int S, int L)"
  shows "if S * L \<le> 20 \<and> (\<forall>p<S. \<forall>l<L. fits [] (pair_lines fs path (int p + 1, int l + 1))) \<and>
            fits [] (central_lines fs path (int S) (int L))
         then \<exists>ms c. setup_room fs entries junk path = Inr (int (S * L), ms, c) \<and>
                ready 1 (central_lines fs path (int S) (int L)) c \<and>
                (\<forall>p<S. \<forall>l<L. ready (S * L) (pair_lines fs path (int p + 1, int l + 1)) (ms ! (p * L + l))) \<and>
                room_inv (S * L) ms \<and> list_all no_verdict (c # ms)
         else setup_room fs entries junk path = Inl Out_Of_Range"
proof -
  let ?xs = "device_pairs (int S) (int L)"
  let ?st = "\<lparr>outCFile = [], formC = [], mon = 0, monitorList = replicate 20 (Monitor_default junk)\<rparr>"
  let ?loops = "setup_loops fs path (int S) (int L) ?st"
  let ?pairs_ok = "S * L \<le> 20 \<and> (\<forall>p<S. \<forall>l<L. fits [] (pair_lines fs path (int p + 1, int l + 1)))"
  have "int (length ?xs) = int (S * L)" using length_device_pairs [of "int S" "int L"] by simp
  then have len: "length ?xs = S * L" by (simp only: of_nat_eq_iff)
  have S: "int S * int L = int (S * L)" by simp
  note loops = setup_pairs [OF S, of ?st 0 junk ?xs fs path, simplified, folded setup_loops_pairs central_lines_def,
      unfolded len fits_all_pairs]
  show ?thesis
  proof (cases ?pairs_ok)
    case True
    with loops obtain st' where st': "?loops = Inr st'" "outCFile st' = central_lines fs path (int S) (int L)"
      "length (monitorList st') = 20" "\<And>i. i < S * L \<Longrightarrow> ready (S * L) (pair_lines fs path (?xs ! i)) (monitorList st' ! i)"
      "\<And>i. S * L \<le> i \<Longrightarrow> i < 20 \<Longrightarrow> monitorList st' ! i = Monitor_default junk"
      by auto
    have inv: "room_inv (S * L) (monitorList st')"
    proof -
      have "int (S * L) \<le> 20" using True by linarith
      then have "int (S * L) \<le> INT_MAX" by (simp add: INT_MAX_def)
      moreover have "S * L \<le> length (monitorList st')" using True st'(3) by simp
      ultimately show ?thesis using st'(4) unfolding room_inv_def by (auto simp: ready_def)
    qed
    have "no_verdict (monitorList st' ! i)" if "i < 20" for i
      using st'(4,5) that by (cases "i < S * L") (auto simp: ready_def no_verdict_def Monitor_default_def)
    then have nov: "list_all no_verdict (monitorList st')" using st'(3) by (simp add: list_all_length)
    have mons: "\<forall>p<S. \<forall>l<L. ready (S * L) (pair_lines fs path (int p + 1, int l + 1)) (monitorList st' ! (p * L + l))"
      using st'(4) device_pairs_nth len by metis
    show ?thesis
      using load_monitor [of "fs(''detailsCen.txt'' \<mapsto> outCFile st')" "''detailsCen.txt''" "outCFile st'" 0 "formC st'" 1 junk]
        True st'(1,2) inv nov mons
      by (auto simp: setup_room_def assms ready_def no_verdict_def split: if_splits)
  next
    case False
    have "?xs = [] \<or> S * L \<le> 20 \<longleftrightarrow> S * L \<le> 20" using len by (cases "?xs = []") auto
    with False loops have "?loops = Inl Out_Of_Range" by (simp split: if_splits)
    then have "setup_room fs entries junk path = Inl Out_Of_Range" by (simp add: setup_room_def assms)
    with False show ?thesis by argo
  qed
qed

lemma segment_round_keeps:
  assumes "segment_round check n s f eps (ms, c) = Inr (ms', c')"
  shows "room_inv n ms \<Longrightarrow> room_inv n ms'" "list_all no_verdict (c # ms) \<Longrightarrow> list_all no_verdict (c' # ms')"
proof -
  from assms obtain ms1 where r: "observe_all check n s f eps ms = Inr ms1" "observe check s f eps c = Inr c'"
    "share_all n ms1 = Inr ms'"
    by (auto simp: segment_round_def rbind_Inr_iff)
  show "room_inv n ms'" if "room_inv n ms"
    using share_all_broadcast [OF observe_room_inv [OF r(1) that]] r(3) by auto
  show "list_all no_verdict (c' # ms')" if "list_all no_verdict (c # ms)"
    using that share_all_no_verdict [OF r(3) observe_no_verdict [OF r(1)]] observe_keeps(2) [OF r(2)]
    by (simp add: no_verdict_def)
qed

lemma run_room_total:
  "\<exists>res. run_room check fs entries junk path out = Some res \<and>
     (\<forall>out'. res = Inr out' \<longrightarrow> out' = out @ path # map eps_line [0..5])"
proof (cases "setup_room fs entries junk path")
  case (Inl e)
  then show ?thesis by (simp add: run_room_def)
next
  case (Inr x)
  obtain nm r where x: "x = (nm, r)" by (cases x)
  let ?f = "\<lambda>eps (out, r). map_option (map_sum id (\<lambda>r'. (out @ [eps_line eps], r'))) (segment_loop check (nat nm) eps 0 r)"
  have "\<exists>res. ?f eps s = Some res \<and> (\<forall>s'. res = Inr s' \<longrightarrow> fst s' = fst s @ [eps_line eps])" for eps s
  proof -
    obtain out r where s: "s = (out, r)" by (cases s)
    obtain res where "segment_loop check (nat nm) eps 0 r = Some res"
      using segment_loop_total [of "\<lambda>_. True" check "nat nm" eps r 0] by auto
    with s show ?thesis by (cases res) auto
  qed
  from loop_or_fault_total [of "[0..5]" ?f fst "\<lambda>eps. [eps_line eps]" "(out @ [path], r)", OF this]
  obtain res where "loop_or_fault ?f [0..5] (out @ [path], r) = Some res"
    "\<forall>s'. res = Inr s' \<longrightarrow> fst s' = (out @ [path]) @ map eps_line [0..5]"
    by (auto simp: comp_def simp del: upto_rec_numeral)
  with Inr x show ?thesis by (cases res) (auto simp: run_room_def)
qed

section \<open>Properties\<close>

text \<open>
  C7. Setting up a room with \<open>S\<close> switches and \<open>L\<close> lights: when there are at most twenty
  pairs and every file fits, monitor \<open>p * L + l\<close> has read the lines of switch \<open>p + 1\<close>
  followed by those of light \<open>l + 1\<close>, the central monitor has read all files, and no verdict
  is set; otherwise the code writes out of bounds.
\<close>

theorem setup_room_correct:
  assumes "count_devices path entries = (int S, int L)"
  shows "if S * L \<le> 20 \<and> (\<forall>p<S. \<forall>l<L. fits [] (pair_lines fs path (int p + 1, int l + 1))) \<and>
            fits [] (central_lines fs path (int S) (int L))
         then \<exists>ms c. setup_room fs entries junk path = Inr (int (S * L), ms, c) \<and>
                ready 1 (central_lines fs path (int S) (int L)) c \<and>
                (\<forall>p<S. \<forall>l<L. ready (S * L) (pair_lines fs path (int p + 1, int l + 1)) (ms ! (p * L + l))) \<and>
                room_inv (S * L) ms \<and> list_all no_verdict (c # ms)
         else setup_room fs entries junk path = Inl Out_Of_Range"
  using assms by (rule setup_room_total)

definition demo_entries :: "string list" where
  "demo_entries = [''data/officelight_1.txt'', ''data/officeswitch_1.txt'', ''data/kitchenlight_1.txt'']"

definition demo_files :: files where
  "demo_files = [''data/officeswitch_1.txt'' \<mapsto> [''officeswitch_1'', ''1''],
                 ''data/officelight_1.txt'' \<mapsto> [''officelight_1'', ''0'', ''1'']]"

lemma demo_setup:
  "count_devices ''office'' demo_entries = (1, 1)"
  "fits [] (pair_lines demo_files ''office'' (1, 1))"
  "fits [] (central_lines demo_files ''office'' 1 1)"
  by code_simp+

theorem setup_room_correct_witness:
  "\<exists>ms c. setup_room demo_files demo_entries 7 ''office'' = Inr (1, ms, c) \<and>
     ready 1 [''officeswitch_1'', ''1'', ''officelight_1'', ''0'', ''1''] c"
proof -
  have "central_lines demo_files ''office'' 1 1 = [''officeswitch_1'', ''1'', ''officelight_1'', ''0'', ''1'']"
    by code_simp
  with setup_room_correct [of "''office''" demo_entries 1 1 demo_files 7] demo_setup show ?thesis by auto
qed

text \<open>
  C9. \<open>main\<close> always ends: the segment loop, the loop over \<open>eps\<close> and the loop over the rooms
  return for every data directory and every solver, either with a fault or after printing the
  name of every room followed by one line for each \<open>eps\<close>.
\<close>

theorem monitoring_main_ends:
  "(\<exists>e. monitoring_main check fs entries junk = Some (Inl e)) \<or>
   monitoring_main check fs entries junk = Some (Inr (concat (map (\<lambda>path. path # map eps_line [0..5]) rooms)))"
proof -
  obtain res where "loop_or_fault (run_room check fs entries junk) rooms [] = Some res"
    "\<forall>out. res = Inr out \<longrightarrow> out = concat (map (\<lambda>path. path # map eps_line [0..5]) rooms)"
    using loop_or_fault_total [of rooms "run_room check fs entries junk" id "\<lambda>path. path # map eps_line [0..5]" "[]"]
      run_room_total [of check fs entries junk] by auto
  then show ?thesis by (cases res) (auto simp: monitoring_main_def)
qed

text \<open>
  C8. From a room as it is set up, the segment loop makes exactly one round for every four events,
  rounded up, of the first process of the central monitor, and ends with the room after the last
  round or with the fault of the first round that has one. After every round without a fault
  the room has kept its shape and the number of events, and no monitor has a true verdict,
  because the answers of the solver go into \<open>verdicts_mod\<close> and \<open>verdicts\<close> is only copied.
\<close>

theorem segment_loop_safe:
  assumes "setup_room fs entries junk path = Inr (numMonitor, ms, c)"
  shows "segment_loop check (nat numMonitor) eps 0 (ms, c) =
      Some (segment_rounds check (nat numMonitor) eps (nat ((numEventAll c ! 0 + 3) div 4)) 0 (ms, c)) \<and>
    (\<forall>k ms' c'. segment_rounds check (nat numMonitor) eps k 0 (ms, c) = Inr (ms', c') \<longrightarrow>
      room_inv (nat numMonitor) ms' \<and> list_all no_verdict (c' # ms') \<and> numEventAll c' = numEventAll c)"
proof -
  obtain S L where SL: "count_devices path entries = (int S, int L)"
    using count_devices_nonneg [of path entries] by (metis nonneg_int_cases prod.collapse)
  let ?P = "\<lambda>(ms', c'). room_inv (nat numMonitor) ms' \<and> list_all no_verdict (c' # ms') \<and> numEventAll c' = numEventAll c"
  have start: "?P (ms, c)" "numEventAll c \<noteq> []"
    using setup_room_total [OF SL, of fs junk] assms by (auto simp: nat_mult_distrib ready_def holds_trace_def split: if_splits)
  have step: "?P r'" if "?P r" "segment_round check (nat numMonitor) s (s + segLength) eps r = Inr r'" for s r r'
    using that segment_round_keeps [of check "nat numMonitor" s "s + segLength" eps "fst r" "snd r" "fst r'" "snd r'"]
      segment_round_total_events [OF that(2)] by (simp only: case_prod_beta prod.collapse)
  have "?P (ms', c')" if "segment_rounds check (nat numMonitor) eps k 0 (ms, c) = Inr (ms', c')" for k ms' c'
    by (rule segment_rounds_keep [where P = ?P, OF step start(1) that])
  then show ?thesis using segment_loop_rounds [of "(ms, c)" check "nat numMonitor" eps 0] start(2) by simp
qed

theorem segment_loop_safe_witness:
  "\<exists>ms c. setup_room demo_files demo_entries 7 ''office'' = Inr (1, ms, c) \<and>
     segment_loop ideal_check 1 0 0 (ms, c) = Some (segment_rounds ideal_check 1 0 1 0 (ms, c)) \<and>
     (\<forall>k ms' c'. segment_rounds ideal_check 1 0 k 0 (ms, c) = Inr (ms', c') \<longrightarrow> room_inv 1 ms' \<and> list_all no_verdict (c' # ms'))"
proof -
  have lines: "foldl add_line [] (central_lines demo_files ''office'' 1 1) = [[''1''], [''0'', ''1'']]" by code_simp
  obtain ms c where r: "setup_room demo_files demo_entries 7 ''office'' = Inr (1, ms, c)" "ready 1 (central_lines demo_files ''office'' 1 1) c"
    using setup_room_total [of "''office''" demo_entries 1 1 demo_files 7] demo_setup by auto
  then have "numEventAll c ! 0 = 1" using lines by (simp add: ready_def holds_trace_def)
  with r(1) segment_loop_safe [OF r(1), of ideal_check 0] show ?thesis by auto
qed

text \<open>
  C10. The exchange after a segment returns and makes the flags of all monitors of the room
  equal: a position is marked as known afterwards exactly when some monitor had marked it.
\<close>

theorem share_all_broadcasts:
  assumes "room_inv n ms"
  shows "\<exists>ms'. share_all n ms = Inr ms' \<and> room_inv n ms' \<and>
     (\<forall>j<n. \<forall>c<n. verdicts_mod (ms' ! j) ! c \<longleftrightarrow> (\<exists>i<n. verdicts_mod (ms ! i) ! c))"
  using assms by (rule share_all_broadcast)

theorem share_all_broadcasts_witness:
  "\<exists>ms'. share_all 2 [Monitor 0 [] 2, (Monitor 0 [] 2)\<lparr>verdicts_mod := [True, False]\<rparr>] = Inr ms' \<and>
     verdicts_mod (ms' ! 0) ! 0 \<and> \<not> verdicts_mod (ms' ! 0) ! 1"
proof -
  have two: "(\<forall>i<2. P i) \<longleftrightarrow> P 0 \<and> P (1::nat)" "(\<exists>i<2. P i) \<longleftrightarrow> P 0 \<or> P (1::nat)" for P
    by (auto simp: less_Suc_eq numeral_2_eq_2)
  have inv: "room_inv 2 [Monitor 0 [] 2, (Monitor 0 [] 2)\<lparr>verdicts_mod := [True, False]\<rparr>]"
    by (simp add: room_inv_def two Monitor_def INT_MAX_def)
  have "replicate 2 False = [False, False]" by (simp add: numeral_2_eq_2)
  with share_all_broadcasts [OF inv] show ?thesis unfolding two by (auto simp: Monitor_def)
qed

end
