(* ===== verification/Get_Data.thy ===== *)
theory Get_Data
  imports Monitoring_Main
begin

text \<open>
  get_data.cpp: the exporter that writes every table of the database into a text file, the
  name of the table first and then the second column of every row. The database is a
  parameter: \<open>connected\<close>, the answer \<open>db q\<close> to a query (\<open>None\<close> for an error) and the error
  text. The files written are what \<open>readFile\<close> of main.cpp reads.
\<close>

section \<open>Rows, text files\<close>

type_synonym row = "string option list"
  \<comment> \<open>a \<open>MYSQL_ROW\<close>: NULL columns are null pointers\<close>

definition cell :: "row \<Rightarrow> nat \<Rightarrow> string result" where
  \<comment> \<open>\<open>string(row[k])\<close>\<close>
  "cell r k = rbind (vget r k) (\<lambda>c. case c of None \<Rightarrow> Inl Bad_Pointer | Some s \<Rightarrow> Inr s)"

definition fetch_column :: "nat \<Rightarrow> row list \<Rightarrow> string list \<Rightarrow> string list result" where
  \<comment> \<open>\<open>while (row = mysql_fetch_row(data)) v.push_back(string(row[k]))\<close>\<close>
  "fetch_column k = rfold (\<lambda>r v. rbind (cell r k) (\<lambda>s. Inr (v @ [s])))"

fun getlines :: "string \<Rightarrow> string \<Rightarrow> string list" where
  \<comment> \<open>successive \<open>getline\<close> calls; the first argument collects the current line\<close>
  "getlines acc [] = (if acc = [] then [] else [acc])"
| "getlines acc (c # cs) = (if c = CHR 0x0A then acc # getlines [] cs else getlines (acc @ [c]) cs)"

definition file_text :: "string list \<Rightarrow> string" where
  "file_text ls = concat (map (\<lambda>l. l @ [CHR 0x0A]) ls)"

section \<open>The exporter\<close>

record export_state =
  details :: "string list list"
  table_names :: "string list"
  export_log :: "string list"

definition query_failed :: "(string \<Rightarrow> string) \<Rightarrow> string \<Rightarrow> string" where
  "query_failed err q = ''SQL Query failed: '' @ err q"

definition list_tables :: "(string \<Rightarrow> row list option) \<Rightarrow> (string \<Rightarrow> string) \<Rightarrow> (string list \<times> string list) result" where
  \<comment> \<open>the tables and what is printed\<close>
  "list_tables db err =
     (let q = ''show tables from light_switch''
      in case db q of
           Some rows \<Rightarrow> rbind (fetch_column 0 rows []) (\<lambda>tables. Inr (tables, []))
         | None \<Rightarrow> Inr ([], [query_failed err q]))"

definition read_table :: "(string \<Rightarrow> row list option) \<Rightarrow> (string \<Rightarrow> string) \<Rightarrow> nat \<times> string \<Rightarrow> export_state \<Rightarrow>
    export_state result" where
  \<comment> \<open>the body of the loop over the tables, for the table with index \<open>i\<close>\<close>
  "read_table db err = (\<lambda>(i, table) st.
     let q = ''SELECT * FROM '' @ table;
         st1 = st\<lparr>table_names := table_names st @ [table]\<rparr>
     in case db q of
          Some rows \<Rightarrow> rbind (fetch_column 1 rows [table]) (\<lambda>input.
            rbind (vset (details st1) i input) (\<lambda>d. Inr (st1\<lparr>details := d\<rparr>)))
        | None \<Rightarrow> Inr (st1\<lparr>export_log := export_log st1 @ [query_failed err q]\<rparr>))"

definition write_table :: "export_state \<Rightarrow> nat \<Rightarrow> files \<times> string list \<Rightarrow> (files \<times> string list) result" where
  "write_table st i = (\<lambda>(fs, out).
     rbind (vget (table_names st) i) (\<lambda>name.
     rbind (vget (details st) i) (\<lambda>ls.
       Inr (fs(name @ ''.txt'' \<mapsto> getlines [] (file_text ls)), out @ ls @ [[]]))))"

definition get_data_main :: "bool \<Rightarrow> (string \<Rightarrow> row list option) \<Rightarrow> (string \<Rightarrow> string) \<Rightarrow> files \<Rightarrow>
    (files \<times> string list) result" where
  "get_data_main connected db err fs =
     (if connected then
        rbind (list_tables db err) (\<lambda>(tables, out).
        rbind (rfold (read_table db err) (zip [0..<length tables] tables)
                 \<lparr>details = replicate (length tables) [], table_names = [],
                  export_log = [''Connection Successful !''] @ out\<rparr>) (\<lambda>st.
        rfold (write_table st) [0..<length (details st)] (fs, export_log st)))
      else Inr (fs, [''Connection failed!'']))"

section \<open>Lemmas\<close>

lemma getlines_line: "CHR 0x0A \<notin> set l \<Longrightarrow> getlines acc (l @ CHR 0x0A # cs) = (acc @ l) # getlines [] cs"
  by (induction l arbitrary: acc) auto

lemma getlines_file_text: "\<forall>l \<in> set ls. CHR 0x0A \<notin> set l \<Longrightarrow> getlines [] (file_text ls) = ls"
  by (induction ls) (simp_all add: file_text_def getlines_line)

lemma fetch_column_total:
  assumes "\<forall>r \<in> set rows. k < length r \<and> r ! k \<noteq> None"
  shows "fetch_column k rows v = Inr (v @ map (\<lambda>r. the (r ! k)) rows)"
  using assms by (induction rows arbitrary: v) (auto simp: fetch_column_def cell_def)

definition table_lines :: "(string \<Rightarrow> row list option) \<Rightarrow> string \<Rightarrow> string list" where
  \<comment> \<open>what is exported for a table\<close>
  "table_lines db table = (case db (''SELECT * FROM '' @ table) of
      None \<Rightarrow> [] | Some rows \<Rightarrow> table # map (\<lambda>r. the (r ! 1)) rows)"

definition good_rows :: "(string \<Rightarrow> row list option) \<Rightarrow> string \<Rightarrow> bool" where
  "good_rows db table \<longleftrightarrow> (\<forall>rows. db (''SELECT * FROM '' @ table) = Some rows \<longrightarrow>
      (\<forall>r \<in> set rows. 1 < length r \<and> r ! 1 \<noteq> None))"

lemma read_tables_total:
  assumes "\<forall>t \<in> set tables. good_rows db t"
    "length (details st) = k + length tables" "length (table_names st) = k"
    "\<forall>i. k \<le> i \<longrightarrow> i < k + length tables \<longrightarrow> details st ! i = []"
  shows "\<exists>st'. rfold (read_table db err) (zip [k..<k + length tables] tables) st = Inr st' \<and>
     details st' = take k (details st) @ map (table_lines db) tables \<and>
     table_names st' = table_names st @ tables"
  using assms
proof (induction tables arbitrary: k st)
  case Nil
  then show ?case by simp
next
  case (Cons t ts)
  have up: "[k..<k + length (t # ts)] = k # [Suc k..<Suc k + length ts]" by (subst upt_conv_Cons) simp_all
  let ?d = "(details st)[k := table_lines db t]"
  have "details st ! k = []" using Cons.prems(4) by simp
  then have same: "db (''SELECT * FROM '' @ t) = None \<Longrightarrow> ?d = details st"
    by (metis list_update_id option.simps(4) table_lines_def)
  have "\<exists>log. read_table db err (k, t) st = Inr (st\<lparr>table_names := table_names st @ [t], details := ?d, export_log := log\<rparr>)"
  proof (cases "db (''SELECT * FROM '' @ t)")
    case None
    with same show ?thesis by (auto simp: read_table_def Let_def)
  next
    case (Some rows)
    moreover have "fetch_column 1 rows [t] = Inr (t # map (\<lambda>r. the (r ! 1)) rows)"
      using fetch_column_total [of rows 1 "[t]"] Cons.prems(1) Some by (simp add: good_rows_def)
    ultimately show ?thesis using Cons.prems(2)
      by (auto simp: read_table_def Let_def table_lines_def intro: exI [of _ "export_log st"])
  qed
  then obtain log where log: "read_table db err (k, t) st =
      Inr (st\<lparr>table_names := table_names st @ [t], details := ?d, export_log := log\<rparr>)" (is "_ = Inr ?st1") ..
  have "\<exists>st'. rfold (read_table db err) (zip [Suc k..<Suc k + length ts] ts) ?st1 = Inr st' \<and>
     details st' = take (Suc k) (details ?st1) @ map (table_lines db) ts \<and> table_names st' = table_names ?st1 @ ts"
    using Cons.prems by (intro Cons.IH) auto
  moreover have "take (Suc k) (details ?st1) = take k (details st) @ [table_lines db t]"
    using Cons.prems(2) by (simp add: take_Suc_conv_app_nth)
  ultimately show ?case using log unfolding up by (auto simp del: upt_Suc)
qed

lemma write_tables_total:
  assumes "length (table_names st) = length (details st)" "distinct (table_names st)" "n \<le> length (details st)"
  shows "\<exists>fs' out'. rfold (write_table st) [0..<n] (fs, out) = Inr (fs', out') \<and>
     (\<forall>i<n. fs' (table_names st ! i @ ''.txt'') = Some (getlines [] (file_text (details st ! i)))) \<and>
     (\<forall>f. f \<notin> (\<lambda>t. t @ ''.txt'') ` set (table_names st) \<longrightarrow> fs' f = fs f)"
  using assms(3)
proof (induction n)
  case (Suc n)
  then obtain fs' out' where IH: "rfold (write_table st) [0..<n] (fs, out) = Inr (fs', out')"
    "\<forall>i<n. fs' (table_names st ! i @ ''.txt'') = Some (getlines [] (file_text (details st ! i)))"
    "\<forall>f. f \<notin> (\<lambda>t. t @ ''.txt'') ` set (table_names st) \<longrightarrow> fs' f = fs f"
    by auto
  let ?name = "table_names st ! n"
  let ?fs = "fs'(?name @ ''.txt'' \<mapsto> getlines [] (file_text (details st ! n)))"
  have "rfold (write_table st) [0..<Suc n] (fs, out) = Inr (?fs, out' @ details st ! n @ [[]])"
    using IH(1) Suc.prems assms(1) by (simp add: rfold_append write_table_def)
  moreover have "table_names st ! i \<noteq> ?name" if "i < n" for i
    using that assms(1,2) Suc.prems by (simp add: nth_eq_iff_index_eq)
  then have "\<forall>i<Suc n. ?fs (table_names st ! i @ ''.txt'') = Some (getlines [] (file_text (details st ! i)))"
    using IH(2) by (auto simp: less_Suc_eq)
  moreover have "?name \<in> set (table_names st)" using Suc.prems assms(1) by simp
  then have "\<forall>f. f \<notin> (\<lambda>t. t @ ''.txt'') ` set (table_names st) \<longrightarrow> ?fs f = fs f"
    using IH(3) by auto
  ultimately show ?case by blast
qed auto

lemma export_total:
  assumes "db ''show tables from light_switch'' = Some (map (\<lambda>t. [Some t]) tables)" "distinct tables"
    and "\<forall>t \<in> set tables. good_rows db t"
  shows "\<exists>fs' out. get_data_main True db err fs = Inr (fs', out) \<and>
     (\<forall>t \<in> set tables. fs' (t @ ''.txt'') = Some (getlines [] (file_text (table_lines db t)))) \<and>
     (\<forall>f. f \<notin> (\<lambda>t. t @ ''.txt'') ` set tables \<longrightarrow> fs' f = fs f)"
proof -
  let ?st = "\<lparr>details = replicate (length tables) [], table_names = [], export_log = [''Connection Successful !'']\<rparr>"
  have "fetch_column 0 (map (\<lambda>t. [Some t]) tables) [] = Inr tables"
    using fetch_column_total [of "map (\<lambda>t. [Some t]) tables" 0 "[]"] by (simp add: comp_def)
  then have list: "list_tables db err = Inr (tables, [])" using assms(1) by (simp add: list_tables_def)
  obtain st where st: "rfold (read_table db err) (zip [0..<length tables] tables) ?st = Inr st"
    "details st = map (table_lines db) tables" "table_names st = tables"
    using read_tables_total [OF assms(3), of ?st 0 err] by auto
  obtain fs' out where w: "rfold (write_table st) [0..<length (details st)] (fs, export_log st) = Inr (fs', out)"
    "\<forall>i<length tables. fs' (tables ! i @ ''.txt'') = Some (getlines [] (file_text (table_lines db (tables ! i))))"
    "\<forall>f. f \<notin> (\<lambda>t. t @ ''.txt'') ` set tables \<longrightarrow> fs' f = fs f"
    using write_tables_total [of st "length (details st)" fs "export_log st"] st(2,3) assms(2) by auto
  have "get_data_main True db err fs = Inr (fs', out)"
    using list st(1) w(1) by (simp add: get_data_main_def)
  with w(2,3) show ?thesis by (auto simp: in_set_conv_nth)
qed

section \<open>Properties\<close>

text \<open>
  C11. The export writes, for every table whose rows have a second column without NULL or
  line breaks, a file of the table's name whose lines are the name and the second column of
  every row in order, and touches no other file.
\<close>

theorem get_data_exports:
  assumes "db ''show tables from light_switch'' = Some (map (\<lambda>t. [Some t]) tables)" "distinct tables"
    and "\<forall>t \<in> set tables. good_rows db t"
    and "\<forall>t \<in> set tables. \<forall>l \<in> set (table_lines db t). CHR 0x0A \<notin> set l"
  shows "\<exists>fs' out. get_data_main True db err fs = Inr (fs', out) \<and>
     (\<forall>t \<in> set tables. fs' (t @ ''.txt'') = Some (table_lines db t)) \<and>
     (\<forall>f. f \<notin> (\<lambda>t. t @ ''.txt'') ` set tables \<longrightarrow> fs' f = fs f)"
  using export_total [OF assms(1-3), of err fs] assms(4) by (auto simp: getlines_file_text)

definition demo_db :: "string \<Rightarrow> row list option" where
  "demo_db q = (if q = ''show tables from light_switch'' then Some [[Some ''aswitch''], [Some ''alight'']]
     else if q = ''SELECT * FROM aswitch'' then Some [[Some ''1'', Some ''0''], [Some ''2'', Some ''1'']]
     else if q = ''SELECT * FROM alight'' then Some [[Some ''1'', Some ''1'']] else None)"

lemma demo_db_facts:
  "demo_db ''show tables from light_switch'' = Some (map (\<lambda>t. [Some t]) [''aswitch'', ''alight''])"
  "\<forall>t \<in> set [''aswitch'', ''alight'']. good_rows demo_db t"
  "table_lines demo_db ''aswitch'' = [''aswitch'', ''0'', ''1'']" "table_lines demo_db ''alight'' = [''alight'', ''1'']"
  by (auto simp: demo_db_def good_rows_def table_lines_def)

theorem get_data_exports_witness:
  "\<exists>fs' out. get_data_main True demo_db (\<lambda>_. []) Map.empty = Inr (fs', out) \<and>
     fs' ''aswitch.txt'' = Some [''aswitch'', ''0'', ''1''] \<and> fs' ''x'' = None"
  using get_data_exports [OF demo_db_facts(1) _ demo_db_facts(2), of "\<lambda>_. []" Map.empty] demo_db_facts(3,4)
  by auto

text \<open>A file as the export writes it is read as one process.\<close>

lemma read_exported:
  assumes "db (''SELECT * FROM '' @ t) = Some rows" "is_header t" "length rows \<le> 100"
    and "list_all (\<lambda>v. \<not> is_header v) (map (\<lambda>r. the (r ! 1)) rows)"
    and "fs path = Some (table_lines db t)"
  shows "\<exists>m. readFile fs (setValues i form n path m0) = Inr m \<and> holds_trace [map (\<lambda>r. the (r ! 1)) rows] m"
proof -
  let ?vs = "map (\<lambda>r. the (r ! 1)) rows"
  have lines: "lines_of fs path = concat (map (\<lambda>(h, vs). h # vs) [(t, ?vs)])"
    using assms(1,5) by (simp add: lines_of_def table_lines_def)
  have blocks: "\<forall>(h, vs) \<in> set [(t, ?vs)]. is_header h \<and> list_all (\<lambda>l. \<not> is_header l) vs"
    using assms(2,4) by simp
  have "fits [] (lines_of fs path)" "foldl add_line [] (lines_of fs path) = [?vs]"
    unfolding lines using fits_blocks [OF blocks, of "[]"] foldl_blocks [OF blocks, of "[]"] assms(3) by simp_all
  then show ?thesis using readFile_after_setValues [of fs "path" i form n m0] by auto
qed

text \<open>
  C12. Export and import fit together: after the export of a database, whose tables have distinct
  names and rows with a second column without NULL or line breaks, the file of a table
  named after a light or a switch, with at most a hundred rows and no value that looks like such a
  name, is read back by \<open>readFile\<close> as one process with exactly the second column.
\<close>

theorem export_import:
  assumes "db ''show tables from light_switch'' = Some (map (\<lambda>t. [Some t]) tables)" "distinct tables"
    and "\<forall>t \<in> set tables. \<exists>rows. db (''SELECT * FROM '' @ t) = Some rows \<and>
      list_all (\<lambda>r. 1 < length r \<and> r ! 1 \<noteq> None \<and> CHR 0x0A \<notin> set (the (r ! 1))) rows \<and> CHR 0x0A \<notin> set t"
    and "t \<in> set tables" "db (''SELECT * FROM '' @ t) = Some rows" "is_header t" "length rows \<le> 100"
    and "list_all (\<lambda>r. \<not> is_header (the (r ! 1))) rows"
  shows "\<exists>fs' out m. get_data_main True db err fs = Inr (fs', out) \<and>
    readFile fs' (setValues i form n (t @ ''.txt'') m0) = Inr m \<and> holds_trace [map (\<lambda>r. the (r ! 1)) rows] m"
proof -
  have good: "\<forall>t \<in> set tables. good_rows db t" using assms(3) by (fastforce simp: good_rows_def list_all_iff)
  have clean: "\<forall>t \<in> set tables. \<forall>l \<in> set (table_lines db t). CHR 0x0A \<notin> set l"
    using assms(3) by (fastforce simp: table_lines_def list_all_iff)
  obtain fs' out where e: "get_data_main True db err fs = Inr (fs', out)" "fs' (t @ ''.txt'') = Some (table_lines db t)"
    using export_total [OF assms(1,2) good, of err fs] clean assms(4) by (auto simp: getlines_file_text)
  have "list_all (\<lambda>v. \<not> is_header v) (map (\<lambda>r. the (r ! 1)) rows)" using assms(8) by (simp add: list_all_iff)
  from read_exported [where fs = fs' and path = "t @ ''.txt''" and db = db and t = t and rows = rows, OF assms(5-7) this e(2)] e(1)
  show ?thesis by blast
qed

theorem export_import_witness:
  "\<exists>fs' out m. get_data_main True demo_db (\<lambda>_. []) Map.empty = Inr (fs', out) \<and>
     readFile fs' (setValues 0 [] 1 ''aswitch.txt'' (Monitor_default 0)) = Inr m \<and> holds_trace [[''0'', ''1'']] m"
proof -
  have h: "is_header ''aswitch''" "\<not> is_header ''0''" "\<not> is_header ''1''" by code_simp+
  have "\<exists>fs' out m. get_data_main True demo_db (\<lambda>_. []) Map.empty = Inr (fs', out) \<and>
     readFile fs' (setValues 0 [] 1 (''aswitch'' @ ''.txt'') (Monitor_default 0)) = Inr m \<and>
     holds_trace [map (\<lambda>r. the (r ! 1)) [[Some ''1'', Some ''0''], [Some ''2'', Some ''1'']]] m"
    by (rule export_import [where tables = "[''aswitch'', ''alight'']"]) (use h demo_db_facts(1) in \<open>auto simp: demo_db_def\<close>)
  then show ?thesis by simp
qed

end
