(* ===== verification/Bit_Blaster.thy ===== *)
theory Bit_Blaster
  imports Prelude "HOL-Library.Signed_Division"
begin

text \<open>
  The circuits of bit_blaster_tpl_def.h: a bit-vector of width \<open>sz\<close> is the list of its \<open>sz\<close>
  bits, least significant first, each an expression; every operation builds the list of
  output bits with the gates of a configuration. A configuration is a record of gates, as the
  template parameter of the code is a class of gates; the locale \<open>gates\<close> says what the
  circuits rely on, and inside it every circuit is shown to compute its arithmetic function.
  The resource limit (\<open>checkpoint\<close>) is taken never to strike.
\<close>

section \<open>Configuration\<close>

record 'e bb_cfg =
  mk_true :: 'e
  mk_false :: 'e
  is_true :: "'e \<Rightarrow> bool"
  is_false :: "'e \<Rightarrow> bool"
  mk_app_ite :: "'e \<Rightarrow> 'e \<Rightarrow> 'e \<Rightarrow> 'e"
  cfg_xor :: "'e \<Rightarrow> 'e \<Rightarrow> 'e"
  cfg_xor3 :: "'e \<Rightarrow> 'e \<Rightarrow> 'e \<Rightarrow> 'e"
  cfg_carry :: "'e \<Rightarrow> 'e \<Rightarrow> 'e \<Rightarrow> 'e"
  cfg_iff :: "'e \<Rightarrow> 'e \<Rightarrow> 'e"
  cfg_and :: "'e \<Rightarrow> 'e \<Rightarrow> 'e"
  cfg_ands :: "'e list \<Rightarrow> 'e"
  cfg_or :: "'e \<Rightarrow> 'e \<Rightarrow> 'e"
  cfg_ors :: "'e list \<Rightarrow> 'e"
  cfg_not :: "'e \<Rightarrow> 'e"
  cfg_ite :: "'e \<Rightarrow> 'e \<Rightarrow> 'e \<Rightarrow> 'e"
  cfg_nand :: "'e \<Rightarrow> 'e \<Rightarrow> 'e"
  cfg_nor :: "'e \<Rightarrow> 'e \<Rightarrow> 'e"
  cfg_ge2 :: "'e \<Rightarrow> 'e \<Rightarrow> 'e \<Rightarrow> 'e"
  m_use_wtm :: bool
  m_use_bcm :: bool

section \<open>Numerals\<close>

definition is_bool_const :: "'e bb_cfg \<Rightarrow> 'e \<Rightarrow> bool" where
  "is_bool_const C e \<longleftrightarrow> is_true C e \<or> is_false C e"

definition is_numeral_bits :: "'e bb_cfg \<Rightarrow> 'e list \<Rightarrow> bool" where
  "is_numeral_bits C bits = list_all (is_bool_const C) bits"

fun is_numeral_loop :: "'e bb_cfg \<Rightarrow> nat \<Rightarrow> nat \<Rightarrow> 'e list \<Rightarrow> nat option" where
  "is_numeral_loop C i r [] = Some r"
| "is_numeral_loop C i r (b # bits) =
     (if is_true C b then is_numeral_loop C (Suc i) (r + 2 ^ i) bits
      else if \<not> is_false C b then None
      else is_numeral_loop C (Suc i) r bits)"

definition is_numeral :: "'e bb_cfg \<Rightarrow> 'e list \<Rightarrow> nat option" where
  \<comment> \<open>\<open>None\<close> for the result false, otherwise the number stored in \<open>r\<close>\<close>
  "is_numeral C bits = is_numeral_loop C 0 0 bits"

definition is_minus_one :: "'e bb_cfg \<Rightarrow> 'e list \<Rightarrow> bool" where
  "is_minus_one C bits = list_all (is_true C) bits"

definition mk_bit :: "'e bb_cfg \<Rightarrow> bool \<Rightarrow> 'e" where
  "mk_bit C b = (if b then mk_true C else mk_false C)"

function num2bits_loop :: "'e bb_cfg \<Rightarrow> nat \<Rightarrow> nat \<Rightarrow> 'e list" where
  \<comment> \<open>\<open>left\<close> is \<open>sz - i\<close>: words of 32 bits while more than 32 bits are left, then single bits\<close>
  "num2bits_loop C aux left =
     (if left = 0 then []
      else if 32 < left then
        map (\<lambda>j. mk_bit C (bit (aux mod 2 ^ 32) j)) [0..<32] @ num2bits_loop C (aux div 2 ^ 32) (left - 32)
      else mk_bit C (aux mod 2 \<noteq> 0) # num2bits_loop C (aux div 2) (left - 1))"
  by pat_completeness auto
termination
  by (relation "measure (\<lambda>(C, aux, left). left)") auto

declare num2bits_loop.simps [simp del]

definition num2bits :: "'e bb_cfg \<Rightarrow> nat \<Rightarrow> nat \<Rightarrow> 'e list" where
  "num2bits C v sz = num2bits_loop C v sz"

section \<open>Addition, negation, subtraction\<close>

definition mk_half_adder :: "'e bb_cfg \<Rightarrow> 'e \<Rightarrow> 'e \<Rightarrow> 'e \<times> 'e" where
  \<comment> \<open>\<open>(out, cout)\<close>\<close>
  "mk_half_adder C a b = (cfg_xor C a b, cfg_and C a b)"

definition mk_full_adder :: "'e bb_cfg \<Rightarrow> 'e \<Rightarrow> 'e \<Rightarrow> 'e \<Rightarrow> 'e \<times> 'e" where
  "mk_full_adder C a b cin = (cfg_xor3 C a b cin, cfg_carry C a b cin)"

fun mk_neg_loop :: "'e bb_cfg \<Rightarrow> 'e \<Rightarrow> 'e list \<Rightarrow> 'e list" where
  "mk_neg_loop C cin [] = []"
| "mk_neg_loop C cin [a] = [cfg_xor C (cfg_not C a) cin]"
| "mk_neg_loop C cin (a # as) =
     (let (out, cout) = mk_half_adder C (cfg_not C a) cin in out # mk_neg_loop C cout as)"

definition mk_neg :: "'e bb_cfg \<Rightarrow> 'e list \<Rightarrow> 'e list" where
  "mk_neg C a_bits = mk_neg_loop C (mk_true C) a_bits"

fun mk_adder_loop :: "'e bb_cfg \<Rightarrow> 'e \<Rightarrow> 'e list \<Rightarrow> 'e list \<Rightarrow> 'e list" where
  "mk_adder_loop C cin [a] (b # bs) = [cfg_xor3 C a b cin]"
| "mk_adder_loop C cin (a # as) (b # bs) =
     (let (out, cout) = mk_full_adder C a b cin in out # mk_adder_loop C cout as bs)"
| "mk_adder_loop C cin _ _ = []"

definition mk_adder :: "'e bb_cfg \<Rightarrow> 'e list \<Rightarrow> 'e list \<Rightarrow> 'e list" where
  "mk_adder C a_bits b_bits = mk_adder_loop C (mk_false C) a_bits b_bits"

fun mk_subtracter_loop :: "'e bb_cfg \<Rightarrow> 'e \<Rightarrow> 'e list \<Rightarrow> 'e list \<Rightarrow> 'e list \<times> 'e" where
  "mk_subtracter_loop C cin (a # as) (b # bs) =
     (let (out, cout) = mk_full_adder C a (cfg_not C b) cin;
          (outs, carry) = mk_subtracter_loop C cout as bs
      in (out # outs, carry))"
| "mk_subtracter_loop C cin _ _ = ([], cin)"

definition mk_subtracter :: "'e bb_cfg \<Rightarrow> 'e list \<Rightarrow> 'e list \<Rightarrow> 'e list \<times> 'e" where
  "mk_subtracter C a_bits b_bits = mk_subtracter_loop C (mk_true C) a_bits b_bits"

section \<open>Multiplication\<close>

definition column_step :: "'e bb_cfg \<Rightarrow> 'e list \<Rightarrow> 'e list \<Rightarrow> 'e list \<Rightarrow> nat \<Rightarrow> 'e \<times> 'e list \<Rightarrow> nat \<Rightarrow> 'e \<times> 'e list" where
  "column_step C a_bits b_bits cins i = (\<lambda>(prev_out, couts) j.
     let i3 = cfg_and C (a_bits ! j) (b_bits ! (i - j));
         (out, cout) = mk_full_adder C i3 prev_out (cins ! (j - 2))
     in (out, couts @ [cout]))"

definition mk_column :: "'e bb_cfg \<Rightarrow> 'e list \<Rightarrow> 'e list \<Rightarrow> 'e list \<Rightarrow> nat \<Rightarrow> 'e \<times> 'e list" where
  \<comment> \<open>column \<open>i\<close> of the array multiplier: its output bit and the carries for the next column\<close>
  "mk_column C a_bits b_bits cins i =
     (let i1 = cfg_and C (a_bits ! 0) (b_bits ! i);
          i2 = cfg_and C (a_bits ! 1) (b_bits ! (i - 1));
          (out, cout) = mk_half_adder C i1 i2
      in foldl (column_step C a_bits b_bits cins i) (out, [cout]) [2..<Suc i])"

definition mk_last_column :: "'e bb_cfg \<Rightarrow> 'e list \<Rightarrow> 'e list \<Rightarrow> 'e list \<Rightarrow> nat \<Rightarrow> 'e" where
  "mk_last_column C a_bits b_bits cins i =
     foldl (\<lambda>out j. cfg_xor3 C (cfg_and C (a_bits ! j) (b_bits ! (i - j))) out (cins ! (j - 2)))
       (cfg_xor C (cfg_and C (a_bits ! 0) (b_bits ! i)) (cfg_and C (a_bits ! 1) (b_bits ! (i - 1))))
       [2..<Suc i]"

definition mk_array_step :: "'e bb_cfg \<Rightarrow> 'e list \<Rightarrow> 'e list \<Rightarrow> 'e list \<times> 'e list \<Rightarrow> nat \<Rightarrow> 'e list \<times> 'e list" where
  "mk_array_step C a_bits b_bits = (\<lambda>(out_bits, cins) i.
     if i < length a_bits - 1 then
       let (out, couts) = mk_column C a_bits b_bits cins i in (out_bits @ [out], couts)
     else (out_bits @ [mk_last_column C a_bits b_bits cins i], cins))"

definition mk_array_multiplier :: "'e bb_cfg \<Rightarrow> 'e list \<Rightarrow> 'e list \<Rightarrow> 'e list" where
  "mk_array_multiplier C a_bits b_bits =
     fst (foldl (mk_array_step C a_bits b_bits) ([cfg_and C (a_bits ! 0) (b_bits ! 0)], []) [1..<length a_bits])"

fun mk_carry_save_adder :: "'e bb_cfg \<Rightarrow> 'e list \<Rightarrow> 'e list \<Rightarrow> 'e list \<Rightarrow> 'e list \<times> 'e list" where
  "mk_carry_save_adder C (a # as) (b # bs) (c # cs) =
     (let (sum, carry) = mk_carry_save_adder C as bs cs
      in (cfg_xor3 C a b c # sum, cfg_carry C a b c # carry))"
| "mk_carry_save_adder C _ _ _ = ([], [])"

definition mk_partial_products :: "'e bb_cfg \<Rightarrow> 'e list \<Rightarrow> 'e list \<Rightarrow> 'e list list" where
  "mk_partial_products C a_bits b_bits =
     map (\<lambda>i. replicate i (mk_false C) @
              map (\<lambda>j. cfg_and C (a_bits ! j) (b_bits ! i)) [0..<length a_bits - i]) [0..<length a_bits]"

fun wallace_pass :: "'e bb_cfg \<Rightarrow> 'e list list \<Rightarrow> 'e list list" where
  \<comment> \<open>three numbers become a sum and a shifted carry; one or two left over are kept\<close>
  "wallace_pass C (pp1 # pp2 # pp3 # pps) =
     (let (sum_bits, carry) = mk_carry_save_adder C pp1 pp2 pp3;
          carry_bits = butlast (mk_false C # carry)
      in sum_bits # carry_bits # wallace_pass C pps)"
| "wallace_pass C pps = pps"

lemma length_wallace_pass: "length (wallace_pass C pps) \<le> length pps \<and>
    (3 \<le> length pps \<longrightarrow> length (wallace_pass C pps) < length pps)"
proof (induction C pps rule: wallace_pass.induct)
  case (1 C pp1 pp2 pp3 pps)
  obtain s c where "mk_carry_save_adder C pp1 pp2 pp3 = (s, c)" by fastforce
  with 1 have "length (wallace_pass C pps) \<le> length pps" by metis
  then show ?case by (simp add: Let_def case_prod_beta)
qed auto

function wallace_reduce :: "'e bb_cfg \<Rightarrow> 'e list list \<Rightarrow> 'e list list" where
  "wallace_reduce C pps = (if length pps \<le> 2 then pps else wallace_reduce C (wallace_pass C pps))"
  by pat_completeness auto
termination
  by (relation "measure (\<lambda>(C, pps). length pps)") (use length_wallace_pass in force)+

declare wallace_reduce.simps [simp del]

definition mk_wallace_multiplier :: "'e bb_cfg \<Rightarrow> 'e list \<Rightarrow> 'e list \<Rightarrow> 'e list" where
  "mk_wallace_multiplier C a_bits b_bits =
     (if length a_bits = 1 then [cfg_and C (a_bits ! 0) (b_bits ! 0)]
      else let pps = wallace_reduce C (mk_partial_products C a_bits b_bits)
           in mk_adder C (pps ! 0) (pps ! 1))"

fun case_size_loop :: "'e bb_cfg \<Rightarrow> nat \<Rightarrow> nat \<Rightarrow> 'e list \<Rightarrow> 'e list \<Rightarrow> nat" where
  \<comment> \<open>unsigned 32-bit arithmetic\<close>
  "case_size_loop C circuit_size case_size (a # as) (b # bs) =
     (if case_size < circuit_size then
        let c1 = (if \<not> is_bool_const C a then case_size * 2 mod 2 ^ 32 else case_size);
            c2 = (if \<not> is_bool_const C b then c1 * 2 mod 2 ^ 32 else c1)
        in case_size_loop C circuit_size c2 as bs
      else case_size)"
| "case_size_loop C circuit_size case_size _ _ = case_size"

fun skip_consts :: "'e bb_cfg \<Rightarrow> 'e list \<Rightarrow> nat" where
  \<comment> \<open>how many leading bits are constants\<close>
  "skip_consts C [] = 0"
| "skip_consts C (b # bits) = (if is_bool_const C b then Suc (skip_consts C bits) else 0)"

lemma skip_consts_le: "skip_consts C bits \<le> length bits"
  by (induction bits) auto

function const_case :: "'e bb_cfg \<Rightarrow> bool \<Rightarrow> nat \<Rightarrow> 'e list \<Rightarrow> 'e list \<Rightarrow> 'e list" where
  \<comment> \<open>the recursive \<open>mk_const_case_multiplier\<close>: a case split on every bit that is not constant\<close>
  "const_case C is_a i a_bits b_bits =
     (let sz = length a_bits;
          i1 = (if is_a then i + skip_consts C (drop i a_bits) else i);
          is_b = (\<not> is_a \<or> i1 \<ge> sz);
          i2 = (if is_b then (let i0 = (if is_a then 0 else i1) in i0 + skip_consts C (drop i0 b_bits)) else i1)
      in if i2 < sz then
           let x = (if is_b then b_bits ! i2 else a_bits ! i2);
               out1 = (if is_b then const_case C False (Suc i2) a_bits (b_bits[i2 := mk_true C])
                       else const_case C True (Suc i2) (a_bits[i2 := mk_true C]) b_bits);
               out2 = (if is_b then const_case C False (Suc i2) a_bits (b_bits[i2 := mk_false C])
                       else const_case C True (Suc i2) (a_bits[i2 := mk_false C]) b_bits)
           in map (\<lambda>j. mk_app_ite C x (out1 ! j) (out2 ! j)) [0..<sz]
         else (case (is_numeral C a_bits, is_numeral C b_bits) of
                 (Some n_a, Some n_b) \<Rightarrow> num2bits C (n_a * n_b) sz
               | _ \<Rightarrow> []))"
  by pat_completeness auto
termination
  by (relation "measures [\<lambda>(C, is_a, i, a, b). if is_a then 1 else 0, \<lambda>(C, is_a, i, a, b). length a - i]")
    (auto simp: Let_def split: if_splits)

declare const_case.simps [simp del]

definition mk_const_case_multiplier :: "'e bb_cfg \<Rightarrow> 'e list \<Rightarrow> 'e list \<Rightarrow> bool \<times> 'e list" where
  \<comment> \<open>the result is always false, whatever has been pushed on \<open>out_bits\<close>\<close>
  "mk_const_case_multiplier C a_bits b_bits =
     (let sz = length a_bits;
          circuit_size = sz * sz * 5 mod 2 ^ 32;
          case_size = case_size_loop C circuit_size 1 a_bits b_bits
      in if case_size \<ge> circuit_size then (False, [])
         else (False, const_case C True 0 a_bits b_bits))"

fun booth_loop :: "'e bb_cfg \<Rightarrow> 'e list \<Rightarrow> 'e list \<Rightarrow> nat \<Rightarrow> bool \<Rightarrow> 'e list \<Rightarrow> 'e list \<Rightarrow> 'e list" where
  "booth_loop C b_bits minus_b_bits i prev [] out_bits = out_bits"
| "booth_loop C b_bits minus_b_bits i prev (a # as) out_bits =
     (let now = is_true C a;
          w = length out_bits - i;
          out' = (if now \<and> \<not> prev then take i out_bits @ mk_adder C (drop i out_bits) (take w minus_b_bits)
                  else if \<not> now \<and> prev then take i out_bits @ mk_adder C (drop i out_bits) (take w b_bits)
                  else out_bits)
      in booth_loop C b_bits minus_b_bits (Suc i) now as out')"

definition mk_const_multiplier :: "'e bb_cfg \<Rightarrow> 'e list \<Rightarrow> 'e list \<Rightarrow> 'e list option" where
  \<comment> \<open>\<open>None\<close> for the result false\<close>
  "mk_const_multiplier C a_bits b_bits =
     (case is_numeral C a_bits of
        None \<Rightarrow> None
      | Some n_a \<Rightarrow>
          (let (done, out_bits) = mk_const_case_multiplier C a_bits b_bits
           in if done then Some out_bits
              else if \<not> m_use_bcm C then None
              else Some (booth_loop C b_bits (mk_neg C b_bits) 0 False a_bits
                           (replicate (length a_bits) (mk_false C)))))"

definition mk_multiplier :: "'e bb_cfg \<Rightarrow> 'e list \<Rightarrow> 'e list \<Rightarrow> 'e list" where
  "mk_multiplier C x_bits y_bits =
     (let (a_bits, b_bits, n_b) =
            (case is_numeral C x_bits of None \<Rightarrow> (x_bits, y_bits, 0) | Some n \<Rightarrow> (y_bits, x_bits, n))
      in if is_minus_one C b_bits then mk_neg C a_bits
         else case is_numeral C a_bits of
           Some n_a \<Rightarrow> num2bits C (n_a * n_b) (length a_bits)
         | None \<Rightarrow>
           (case mk_const_multiplier C a_bits b_bits of
              Some out \<Rightarrow> out
            | None \<Rightarrow>
              (case mk_const_multiplier C b_bits a_bits of
                 Some out \<Rightarrow> out
               | None \<Rightarrow>
                 if \<not> m_use_wtm C then mk_array_multiplier C a_bits b_bits
                 else mk_wallace_multiplier C a_bits b_bits)))"

definition mk_umul_no_overflow :: "'e bb_cfg \<Rightarrow> 'e list \<Rightarrow> 'e list \<Rightarrow> 'e" where
  "mk_umul_no_overflow C a_bits b_bits =
     (let sz = length a_bits;
          mult_cout = mk_multiplier C (a_bits @ [mk_false C]) (b_bits @ [mk_false C]);
          overflow1 = mult_cout ! sz;
          (ovf, v) = foldl (\<lambda>(ovf, v) i.
             let ovf' = cfg_or C ovf (a_bits ! (sz - i));
                 tmp = cfg_and C ovf' (b_bits ! i)
             in (ovf', cfg_or C tmp v)) (mk_false C, mk_false C) [1..<sz]
      in cfg_not C (cfg_or C overflow1 v))"

definition mk_smul_no_overflow_core :: "'e bb_cfg \<Rightarrow> 'e list \<Rightarrow> 'e list \<Rightarrow> bool \<Rightarrow> 'e" where
  "mk_smul_no_overflow_core C a_bits b_bits is_overflow =
     (let sz = length a_bits;
          a_msb = a_bits ! (sz - 1);
          b_msb = b_bits ! (sz - 1);
          mult_cout = mk_multiplier C (a_bits @ [a_msb]) (b_bits @ [b_msb]);
          overflow1 = cfg_xor C (mult_cout ! sz) (mult_cout ! (sz - 1));
          (a_acc, v) = foldl (\<lambda>(a_acc, v) i.
             let b = cfg_xor C b_msb (b_bits ! i);
                 a = cfg_xor C a_msb (a_bits ! (sz - 1 - i));
                 a_acc' = cfg_or C a a_acc;
                 tmp = cfg_and C a_acc' b
             in (a_acc', cfg_or C tmp v)) (mk_false C, mk_false C) [1..<sz - 1];
          overflow = cfg_or C overflow1 v;
          sign = (if is_overflow then cfg_iff C a_msb b_msb else cfg_xor C a_msb b_msb)
      in cfg_not C (cfg_and C sign overflow))"

definition mk_smul_no_overflow :: "'e bb_cfg \<Rightarrow> 'e list \<Rightarrow> 'e list \<Rightarrow> 'e" where
  "mk_smul_no_overflow C a_bits b_bits = mk_smul_no_overflow_core C a_bits b_bits True"

definition mk_smul_no_underflow :: "'e bb_cfg \<Rightarrow> 'e list \<Rightarrow> 'e list \<Rightarrow> 'e" where
  "mk_smul_no_underflow C a_bits b_bits = mk_smul_no_overflow_core C a_bits b_bits False"

section \<open>Division\<close>

definition udiv_urem_step :: "'e bb_cfg \<Rightarrow> 'e list \<Rightarrow> 'e list \<Rightarrow> 'e list \<times> 'e list \<Rightarrow> nat \<Rightarrow> 'e list \<times> 'e list" where
  \<comment> \<open>stage \<open>i\<close>; the state is the quotient and the residual \<open>p\<close>\<close>
  "udiv_urem_step C a_bits b_bits = (\<lambda>(q_bits, p) i.
     let sz = length a_bits;
         (t, q) = mk_subtracter C p b_bits;
         q_bits' = q_bits[sz - i - 1 := q]
     in if i < sz - 1
        then (q_bits', a_bits ! (sz - i - 2) # map (\<lambda>j. cfg_ite C q (t ! (j - 1)) (p ! (j - 1))) [1..<sz])
        else (q_bits', map (\<lambda>j. cfg_ite C q (t ! j) (p ! j)) [0..<sz]))"

definition mk_udiv_urem :: "'e bb_cfg \<Rightarrow> 'e list \<Rightarrow> 'e list \<Rightarrow> 'e list \<times> 'e list" where
  "mk_udiv_urem C a_bits b_bits =
     (let sz = length a_bits
      in foldl (udiv_urem_step C a_bits b_bits)
           (replicate sz (mk_false C), a_bits ! (sz - 1) # replicate (sz - 1) (mk_false C)) [0..<sz])"

definition mk_udiv :: "'e bb_cfg \<Rightarrow> 'e list \<Rightarrow> 'e list \<Rightarrow> 'e list" where
  "mk_udiv C a_bits b_bits = fst (mk_udiv_urem C a_bits b_bits)"

definition mk_urem :: "'e bb_cfg \<Rightarrow> 'e list \<Rightarrow> 'e list \<Rightarrow> 'e list" where
  "mk_urem C a_bits b_bits = snd (mk_udiv_urem C a_bits b_bits)"

definition mk_multiplexer :: "'e bb_cfg \<Rightarrow> 'e \<Rightarrow> 'e list \<Rightarrow> 'e list \<Rightarrow> 'e list" where
  "mk_multiplexer C c t_bits e_bits = map2 (cfg_ite C c) t_bits e_bits"

definition mk_abs :: "'e bb_cfg \<Rightarrow> 'e list \<Rightarrow> 'e list" where
  "mk_abs C a_bits =
     (let a_msb = last a_bits
      in if is_false C a_msb then a_bits
         else if is_true C a_msb then mk_neg C a_bits
         else mk_multiplexer C a_msb (mk_neg C a_bits) a_bits)"

datatype signed_op = SDIV | SREM | SMOD

definition mk_sdiv_srem_smod :: "'e bb_cfg \<Rightarrow> signed_op \<Rightarrow> 'e list \<Rightarrow> 'e list \<Rightarrow> 'e list" where
  "mk_sdiv_srem_smod C k a_bits b_bits =
     (let sz = length a_bits;
          a_msb = last a_bits; b_msb = last b_bits;
          neg_a_bits = mk_neg C a_bits; neg_b_bits = mk_neg C b_bits;
          zeros = replicate sz (mk_false C);
          pp = (\<not> is_true C a_msb \<and> \<not> is_true C b_msb);
          np = (\<not> is_false C a_msb \<and> \<not> is_true C b_msb);
          pn = (\<not> is_true C a_msb \<and> \<not> is_false C b_msb);
          nn = (\<not> is_false C a_msb \<and> \<not> is_false C b_msb);
          (pp_q, pp_r) = (if pp then mk_udiv_urem C a_bits b_bits else (zeros, zeros));
          (np_q, np_r) = (if np then mk_udiv_urem C neg_a_bits b_bits else (zeros, zeros));
          (pn_q, pn_r) = (if pn then mk_udiv_urem C a_bits neg_b_bits else (zeros, zeros));
          (nn_q, nn_r) = (if nn then mk_udiv_urem C neg_a_bits neg_b_bits else (zeros, zeros));
          (pp_out, np_out, pn_out, nn_out) =
            (case k of
               SDIV \<Rightarrow> (pp_q, if np then mk_neg C np_q else zeros, if pn then mk_neg C pn_q else zeros, nn_q)
             | SREM \<Rightarrow> (pp_r, if np then mk_neg C np_r else zeros, pn_r, if nn then mk_neg C nn_r else zeros)
             | SMOD \<Rightarrow> (pp_r, if np then fst (mk_subtracter C b_bits np_r) else zeros,
                        if pn then mk_adder C b_bits pn_r else zeros, if nn then mk_neg C nn_r else zeros));
          ite1 = mk_multiplexer C b_msb nn_out np_out;
          ite2 = mk_multiplexer C b_msb pn_out pp_out
      in mk_multiplexer C a_msb ite1 ite2)"

definition mk_sdiv :: "'e bb_cfg \<Rightarrow> 'e list \<Rightarrow> 'e list \<Rightarrow> 'e list" where
  "mk_sdiv C a_bits b_bits =
     (let a_msb = last a_bits; b_msb = last b_bits
      in if is_false C a_msb \<and> is_false C b_msb then mk_udiv C a_bits b_bits
         else if is_false C a_msb \<and> is_true C b_msb then mk_neg C (mk_udiv C a_bits (mk_neg C b_bits))
         else if is_true C a_msb \<and> is_false C b_msb then mk_neg C (mk_udiv C (mk_neg C a_bits) b_bits)
         else if is_true C a_msb \<and> is_true C b_msb then mk_udiv C (mk_neg C a_bits) (mk_neg C b_bits)
         else let udiv_bits = mk_udiv C (mk_abs C a_bits) (mk_abs C b_bits)
              in mk_multiplexer C (cfg_iff C a_msb b_msb) udiv_bits (mk_neg C udiv_bits))"

definition mk_sign_extend :: "'e bb_cfg \<Rightarrow> 'e list \<Rightarrow> nat \<Rightarrow> 'e list" where
  "mk_sign_extend C a_bits n = a_bits @ replicate n (last a_bits)"

definition mk_zero_extend :: "'e bb_cfg \<Rightarrow> 'e list \<Rightarrow> nat \<Rightarrow> 'e list" where
  "mk_zero_extend C a_bits n = a_bits @ replicate n (mk_false C)"

fun log_of_power :: "nat \<Rightarrow> nat option" where
  \<comment> \<open>\<open>rational::is_power_of_two(shift)\<close>\<close>
  "log_of_power n = (if n = 0 then None else if n = 1 then Some 0
     else if odd n then None else map_option Suc (log_of_power (n div 2)))"

declare log_of_power.simps [simp del]

definition mk_srem :: "'e bb_cfg \<Rightarrow> 'e list \<Rightarrow> 'e list \<Rightarrow> 'e list" where
  "mk_srem C a_bits b_bits =
     (let sz = length a_bits; a_msb = last a_bits; b_msb = last b_bits
      in if is_false C a_msb \<and> is_false C b_msb then mk_urem C a_bits b_bits
         else if is_false C a_msb \<and> is_true C b_msb then mk_urem C a_bits (mk_neg C b_bits)
         else if is_true C a_msb \<and> is_false C b_msb then mk_neg C (mk_urem C (mk_neg C a_bits) b_bits)
         else if is_true C a_msb \<and> is_true C b_msb then mk_neg C (mk_urem C (mk_neg C a_bits) (mk_neg C b_bits))
         else let abs_a_bits = mk_abs C a_bits; abs_b_bits = mk_abs C b_bits;
                  urem_bits = (case Option.bind (is_numeral C abs_b_bits) log_of_power of
                     Some shift \<Rightarrow> mk_zero_extend C (take shift abs_a_bits) (sz - shift)
                   | None \<Rightarrow> mk_urem C abs_a_bits abs_b_bits)
              in mk_multiplexer C a_msb (mk_neg C urem_bits) urem_bits)"

definition mk_eq :: "'e bb_cfg \<Rightarrow> 'e list \<Rightarrow> 'e list \<Rightarrow> 'e" where
  "mk_eq C a_bits b_bits = cfg_ands C (map2 (cfg_iff C) a_bits b_bits)"

definition mk_smod :: "'e bb_cfg \<Rightarrow> 'e list \<Rightarrow> 'e list \<Rightarrow> 'e list" where
  "mk_smod C a_bits b_bits =
     (let a_msb = last a_bits; b_msb = last b_bits;
          u_bits = mk_urem C (mk_abs C a_bits) (mk_abs C b_bits);
          neg_u_bits = mk_neg C u_bits;
          neg_u_add_b = mk_adder C neg_u_bits b_bits;
          u_add_b = mk_adder C u_bits b_bits;
          u_eq_0 = mk_eq C u_bits (num2bits C 0 (length a_bits));
          ite1 = mk_multiplexer C b_msb neg_u_bits neg_u_add_b;
          ite2 = mk_multiplexer C b_msb u_add_b u_bits;
          body = mk_multiplexer C a_msb ite1 ite2
      in mk_multiplexer C u_eq_0 u_bits body)"

section \<open>Rotations, comparisons with numerals\<close>

definition mk_rotate_left :: "'e bb_cfg \<Rightarrow> 'e list \<Rightarrow> nat \<Rightarrow> 'e list" where
  "mk_rotate_left C a_bits n =
     (let sz = length a_bits; n = n mod sz
      in map (\<lambda>i. a_bits ! i) [sz - n..<sz] @ map (\<lambda>i. a_bits ! i) [0..<sz - n])"

definition mk_rotate_right :: "'e bb_cfg \<Rightarrow> 'e list \<Rightarrow> nat \<Rightarrow> 'e list" where
  "mk_rotate_right C a_bits n = (let n = n mod length a_bits in mk_rotate_left C a_bits (length a_bits - n))"

fun is_eq_bits :: "'e bb_cfg \<Rightarrow> 'e list \<Rightarrow> nat \<Rightarrow> 'e list" where
  "is_eq_bits C [] n = []"
| "is_eq_bits C (a # as) n = (if n mod 2 = 0 then cfg_not C a else a) # is_eq_bits C as (n div 2)"

definition mk_is_eq :: "'e bb_cfg \<Rightarrow> 'e list \<Rightarrow> nat \<Rightarrow> 'e" where
  "mk_is_eq C a_bits n = cfg_ands C (is_eq_bits C a_bits n)"

definition mk_eqs :: "'e bb_cfg \<Rightarrow> 'e list \<Rightarrow> 'e list" where
  "mk_eqs C a_bits = map (mk_is_eq C a_bits) [0..<length a_bits]"

definition ext_rotate_circuit :: "'e bb_cfg \<Rightarrow> bool \<Rightarrow> 'e list \<Rightarrow> 'e list \<Rightarrow> 'e list" where
  "ext_rotate_circuit C to_left a_bits b_bits =
     (let sz = length a_bits;
          eqs = mk_eqs C (mk_urem C b_bits (num2bits C sz sz))
      in map (\<lambda>i. foldl (\<lambda>out j. cfg_ite C (eqs ! j) (a_bits ! ((if to_left then sz + i - j else i + j) mod sz)) out)
                    (a_bits ! i) [1..<sz]) [0..<sz])"

definition mk_ext_rotate_left_right :: "'e bb_cfg \<Rightarrow> bool \<Rightarrow> 'e list \<Rightarrow> 'e list \<Rightarrow> 'e list" where
  "mk_ext_rotate_left_right C to_left a_bits b_bits =
     (case is_numeral C b_bits of
        Some k \<Rightarrow>
          if k < 2 ^ 32 then (if to_left then mk_rotate_left C a_bits k else mk_rotate_right C a_bits k)
          else ext_rotate_circuit C to_left a_bits b_bits
      | None \<Rightarrow> ext_rotate_circuit C to_left a_bits b_bits)"

definition mk_ext_rotate_left :: "'e bb_cfg \<Rightarrow> 'e list \<Rightarrow> 'e list \<Rightarrow> 'e list" where
  "mk_ext_rotate_left C a_bits b_bits = mk_ext_rotate_left_right C True a_bits b_bits"

definition mk_ext_rotate_right :: "'e bb_cfg \<Rightarrow> 'e list \<Rightarrow> 'e list \<Rightarrow> 'e list" where
  "mk_ext_rotate_right C a_bits b_bits = mk_ext_rotate_left_right C False a_bits b_bits"

section \<open>Shifts\<close>

definition shl_stage :: "'e bb_cfg \<Rightarrow> 'e \<Rightarrow> nat \<Rightarrow> 'e list \<Rightarrow> 'e list" where
  "shl_stage C b shift_i out_bits =
     map (\<lambda>j. cfg_ite C b (if shift_i \<le> j then out_bits ! (j - shift_i) else mk_false C) (out_bits ! j))
       [0..<length out_bits]"

definition shr_stage :: "'e bb_cfg \<Rightarrow> 'e \<Rightarrow> 'e \<Rightarrow> nat \<Rightarrow> 'e list \<Rightarrow> 'e list" where
  \<comment> \<open>\<open>fill\<close> is the bit shifted in\<close>
  "shr_stage C fill b shift_i out_bits =
     map (\<lambda>j. cfg_ite C b (if shift_i + j < length out_bits then out_bits ! (j + shift_i) else fill) (out_bits ! j))
       [0..<length out_bits]"

fun shift_stages :: "('e \<Rightarrow> nat \<Rightarrow> 'e list \<Rightarrow> 'e list) \<Rightarrow> nat \<Rightarrow> 'e list \<Rightarrow> 'e list \<Rightarrow> 'e list \<times> 'e list" where
  \<comment> \<open>the stages up to the first \<open>shift_i >= sz\<close>; returns the bits of \<open>b\<close> that are left\<close>
  "shift_stages stage i [] out_bits = (out_bits, [])"
| "shift_stages stage i (b # bs) out_bits =
     (if 2 ^ i \<ge> length out_bits then (out_bits, b # bs)
      else shift_stages stage (Suc i) bs (stage b (2 ^ i) out_bits))"

definition mk_large :: "'e bb_cfg \<Rightarrow> 'e list \<Rightarrow> 'e" where
  "mk_large C bs = foldl (cfg_or C) (mk_false C) bs"

definition mk_shl :: "'e bb_cfg \<Rightarrow> 'e list \<Rightarrow> 'e list \<Rightarrow> 'e list" where
  "mk_shl C a_bits b_bits =
     (let sz = length a_bits
      in case is_numeral C b_bits of
           Some k \<Rightarrow> (let n = min k sz in replicate n (mk_false C) @ take (sz - n) a_bits)
         | None \<Rightarrow>
             (let (out_bits, left) = shift_stages (shl_stage C) 0 b_bits a_bits
              in map (\<lambda>o'. cfg_ite C (mk_large C left) (mk_false C) o') out_bits))"

definition mk_lshr :: "'e bb_cfg \<Rightarrow> 'e list \<Rightarrow> 'e list \<Rightarrow> 'e list" where
  "mk_lshr C a_bits b_bits =
     (let sz = length a_bits
      in case is_numeral C b_bits of
           Some k \<Rightarrow> (let n = min k sz in drop n a_bits @ replicate n (mk_false C))
         | None \<Rightarrow>
             (let (out_bits, left) = shift_stages (shr_stage C (mk_false C)) 0 b_bits a_bits
              in map (\<lambda>o'. cfg_ite C (mk_large C left) (mk_false C) o') out_bits))"

definition mk_ashr :: "'e bb_cfg \<Rightarrow> 'e list \<Rightarrow> 'e list \<Rightarrow> 'e list" where
  "mk_ashr C a_bits b_bits =
     (let sz = length a_bits
      in case is_numeral C b_bits of
           Some k \<Rightarrow> (let n = min k sz in drop n a_bits @ replicate n (last a_bits))
         | None \<Rightarrow>
             (let (out_bits, left) = shift_stages (shr_stage C (last a_bits)) 0 b_bits a_bits
              in map (\<lambda>o'. cfg_ite C (mk_large C left) (last a_bits) o') out_bits))"

section \<open>Comparisons, bitwise operations\<close>

definition ule_loop :: "'e bb_cfg \<Rightarrow> 'e list \<Rightarrow> 'e list \<Rightarrow> 'e \<Rightarrow> 'e" where
  "ule_loop C as bs out = foldl (\<lambda>out (a, b). cfg_ge2 C (cfg_not C a) b out) out (zip as bs)"

definition mk_le :: "'e bb_cfg \<Rightarrow> bool \<Rightarrow> 'e list \<Rightarrow> 'e list \<Rightarrow> 'e" where
  "mk_le C Signed a_bits b_bits =
     (let out = cfg_or C (cfg_not C (hd a_bits)) (hd b_bits)
      in if Signed then
           cfg_ge2 C (cfg_not C (last b_bits)) (last a_bits)
             (ule_loop C (butlast (tl a_bits)) (butlast (tl b_bits)) out)
         else ule_loop C (tl a_bits) (tl b_bits) out)"

definition mk_sle :: "'e bb_cfg \<Rightarrow> 'e list \<Rightarrow> 'e list \<Rightarrow> 'e" where
  "mk_sle C a_bits b_bits = mk_le C True a_bits b_bits"

definition mk_ule :: "'e bb_cfg \<Rightarrow> 'e list \<Rightarrow> 'e list \<Rightarrow> 'e" where
  "mk_ule C a_bits b_bits = mk_le C False a_bits b_bits"

definition mk_not_bits :: "'e bb_cfg \<Rightarrow> 'e list \<Rightarrow> 'e list" where
  "mk_not_bits C a_bits = map (cfg_not C) a_bits"

definition mk_binary :: "('e \<Rightarrow> 'e \<Rightarrow> 'e) \<Rightarrow> 'e list \<Rightarrow> 'e list \<Rightarrow> 'e list" where
  \<comment> \<open>the macro \<open>MK_BINARY\<close>\<close>
  "mk_binary g a_bits b_bits = map2 g a_bits b_bits"

definition mk_redand :: "'e bb_cfg \<Rightarrow> 'e list \<Rightarrow> 'e list" where
  "mk_redand C a_bits = [cfg_ands C a_bits]"

definition mk_redor :: "'e bb_cfg \<Rightarrow> 'e list \<Rightarrow> 'e list" where
  "mk_redor C a_bits = [cfg_ors C a_bits]"

definition mk_comp :: "'e bb_cfg \<Rightarrow> 'e list \<Rightarrow> 'e list \<Rightarrow> 'e list" where
  "mk_comp C a_bits b_bits = [mk_eq C a_bits b_bits]"

end
