(* ===== verification/Bit_Values.thy ===== *)
theory Bit_Values
  imports Prelude
begin

text \<open>
  The number a list of booleans denotes, least significant bit first: unsigned (\<open>bval\<close>) and
  in two's complement (\<open>sval\<close>), with the arithmetic of appending, cutting and reading bits.
\<close>

fun bval :: "bool list \<Rightarrow> nat" where
  "bval [] = 0"
| "bval (b # bs) = of_bool b + 2 * bval bs"

definition sval :: "bool list \<Rightarrow> int" where
  "sval bs = int (bval bs) - (if bs \<noteq> [] \<and> last bs then 2 ^ length bs else 0)"

named_theorems bval_simps

lemma bval_less: "bval bs < 2 ^ length bs"
  by (induction bs) auto

lemma bval_append [bval_simps]: "bval (xs @ ys) = bval xs + 2 ^ length xs * bval ys"
  by (induction xs) (auto simp: algebra_simps)

lemma bval_replicate_False [simp]: "bval (replicate n False) = 0"
  by (induction n) auto

lemma bval_replicate_True: "Suc (bval (replicate n True)) = 2 ^ n"
  by (induction n) auto

lemma bval_all_False: "list_all Not bs \<Longrightarrow> bval bs = 0"
  by (induction bs) auto

lemma bval_all_True: "list_all (\<lambda>b. b) bs \<Longrightarrow> Suc (bval bs) = 2 ^ length bs"
  by (induction bs) auto

lemma bval_eq_0_iff: "bval bs = 0 \<longleftrightarrow> list_all Not bs"
  by (induction bs) auto

lemma bval_inject: "length xs = length ys \<Longrightarrow> bval xs = bval ys \<longleftrightarrow> xs = ys"
proof (induction xs ys rule: list_induct2)
  case (Cons x xs y ys)
  have "of_bool x + 2 * bval xs = of_bool y + 2 * bval ys \<longleftrightarrow> x = y \<and> bval xs = bval ys"
    by (cases x; cases y) (simp_all, presburger+)
  with Cons.IH show ?case by simp
qed simp

lemma bval_take [bval_simps]: "bval (take n xs) = bval xs mod 2 ^ n"
proof (induction n arbitrary: xs)
  case (Suc n)
  show ?case
  proof (cases xs)
    case (Cons x ys)
    have "(of_bool x + 2 * bval ys) mod (2 * 2 ^ n) = of_bool x + 2 * (bval ys mod 2 ^ n)"
      by (cases x) (simp_all add: mod_mult2_eq)
    with Suc Cons show ?thesis by simp
  qed simp
qed simp

lemma bval_drop [bval_simps]: "bval (drop n xs) = bval xs div 2 ^ n"
proof (induction n arbitrary: xs)
  case (Suc n)
  show ?case
  proof (cases xs)
    case (Cons x ys)
    have "(of_bool x + 2 * bval ys) div (2 * 2 ^ n) = bval ys div 2 ^ n"
      by (cases x) (simp_all add: div_mult2_eq)
    with Suc Cons show ?thesis by simp
  qed simp
qed simp

lemma bit_bval: "bit (bval bs) i \<longleftrightarrow> i < length bs \<and> bs ! i"
proof (induction bs arbitrary: i)
  case (Cons b bs)
  show ?case
  proof (cases i)
    case 0
    then show ?thesis by (cases b) (simp_all add: bit_0)
  next
    case (Suc j)
    have "(of_bool b + 2 * bval bs) div 2 = bval bs" by (cases b) simp_all
    with Suc Cons show ?thesis by (simp add: bit_Suc)
  qed
qed simp

lemma bval_bits: "bval (map (bit v) [0..<n]) = v mod 2 ^ n"
proof (rule bit_eqI)
  fix i
  show "bit (bval (map (bit v) [0..<n])) i = bit (v mod 2 ^ n) i"
    by (auto simp: bit_bval bit_take_bit_iff simp flip: take_bit_eq_mod)
qed

lemma bval_eqI:
  assumes "length xs = n" "\<And>i. i < n \<Longrightarrow> xs ! i \<longleftrightarrow> bit v i"
  shows "bval xs = v mod 2 ^ n"
proof -
  have "xs = map (bit v) [0..<n]" using assms by (intro nth_equalityI) auto
  then show ?thesis by (simp only: bval_bits)
qed

lemma bval_sum: "bval bs = (\<Sum>i<length bs. of_bool (bs ! i) * 2 ^ i)"
proof (induction bs rule: rev_induct)
  case (snoc b bs)
  have "(\<Sum>i<length bs. of_bool ((bs @ [b]) ! i) * 2 ^ i) = (\<Sum>i<length bs. of_bool (bs ! i) * (2::nat) ^ i)"
    by (rule sum.cong) (auto simp: nth_append)
  with snoc show ?case by (simp add: bval_append)
qed simp

lemma bval_last: "bs \<noteq> [] \<Longrightarrow> bval bs = bval (butlast bs) + of_bool (last bs) * 2 ^ (length bs - 1)"
  by (cases bs rule: rev_cases) (auto simp: bval_append)

lemma bval_msb: "bs \<noteq> [] \<Longrightarrow> last bs \<longleftrightarrow> 2 ^ (length bs - 1) \<le> bval bs"
proof -
  assume "bs \<noteq> []"
  with bval_last [OF this] bval_less [of "butlast bs"] show ?thesis by (cases "last bs") auto
qed

subsection \<open>Two's complement\<close>

lemma sval_mod: "int (bval bs) = sval bs mod 2 ^ length bs"
proof -
  have "int (bval bs) < 2 ^ length bs" using bval_less [of bs] by (metis of_nat_less_iff of_nat_numeral of_nat_power)
  then have "int (bval bs) mod 2 ^ length bs = int (bval bs)" by simp
  moreover have "sval bs mod 2 ^ length bs = int (bval bs) mod 2 ^ length bs"
    by (simp add: sval_def)
  ultimately show ?thesis by simp
qed

lemma sign_cases:
  fixes x p s :: int
  shows "0 \<le> x \<Longrightarrow> x < p \<Longrightarrow> s = x - (if b then p else 0) \<Longrightarrow> - p \<le> s \<and> s < p \<and> (s < 0 \<longleftrightarrow> b)"
  by (cases b) auto

lemma sval_range:
  assumes "bs \<noteq> []"
  shows "- (2 ^ (length bs - 1)) \<le> sval bs" "sval bs < 2 ^ (length bs - 1)" "sval bs < 0 \<longleftrightarrow> last bs"
proof -
  obtain n where n: "length bs = Suc n" using assms by (cases bs) auto
  have "bval (butlast bs) < 2 ^ n" using bval_less [of "butlast bs"] n by simp
  then have "int (bval (butlast bs)) < 2 ^ n" by (metis of_nat_less_iff of_nat_numeral of_nat_power)
  moreover have "sval bs = int (bval (butlast bs)) - (if last bs then 2 ^ n else 0)"
    unfolding sval_def using assms bval_last [OF assms] n by simp
  moreover have "(0::int) \<le> int (bval (butlast bs))" "(0::int) < 2 ^ n" by simp_all
  ultimately have "- (2 ^ n) \<le> sval bs \<and> sval bs < 2 ^ n \<and> (sval bs < 0 \<longleftrightarrow> last bs)"
    using sign_cases [of "int (bval (butlast bs))" "2 ^ n" "sval bs" "last bs"] by blast
  with n show "- (2 ^ (length bs - 1)) \<le> sval bs" "sval bs < 2 ^ (length bs - 1)" "sval bs < 0 \<longleftrightarrow> last bs"
    by simp_all
qed

lemma sval_abs:
  assumes "bs \<noteq> []"
  shows "int (if last bs then 2 ^ length bs - bval bs else bval bs) = \<bar>sval bs\<bar>"
proof -
  have "bval bs < 2 ^ length bs" by (rule bval_less)
  then have "int (2 ^ length bs - bval bs) = 2 ^ length bs - int (bval bs)" by (simp add: of_nat_diff)
  with assms sval_range(3) [OF assms] show ?thesis by (auto simp: sval_def)
qed

end
