(* ===== verification/Circuits.thy ===== *)
theory Circuits
  imports Bit_Blaster Bit_Values
begin

text \<open>
  What the circuits of \<open>Bit_Blaster\<close> compute. The locale \<open>gates\<close> is the contract between the
  template and its configuration: a valuation \<open>ev\<close> of the expressions, the expressions \<open>ok\<close>
  the gates are applied to, and for every gate the boolean function it computes. Inside it,
  every circuit of width \<open>n\<close> is shown to compute the arithmetic function modulo \<open>2 ^ n\<close>.
\<close>

locale gates =
  fixes C :: "'e bb_cfg"
    and ev :: "'e \<Rightarrow> bool"
    and ok :: "'e \<Rightarrow> bool"
  assumes true_law: "ok (mk_true C) \<and> ev (mk_true C)"
    and false_law: "ok (mk_false C) \<and> \<not> ev (mk_false C)"
    and is_true_law: "is_true C a \<Longrightarrow> ev a"
    and is_false_law: "is_false C a \<Longrightarrow> \<not> ev a"
    and not_law: "ok a \<Longrightarrow> ok (cfg_not C a) \<and> ev (cfg_not C a) = (\<not> ev a)"
    and and_law: "ok a \<Longrightarrow> ok b \<Longrightarrow> ok (cfg_and C a b) \<and> ev (cfg_and C a b) = (ev a \<and> ev b)"
    and or_law: "ok a \<Longrightarrow> ok b \<Longrightarrow> ok (cfg_or C a b) \<and> ev (cfg_or C a b) = (ev a \<or> ev b)"
    and xor_law: "ok a \<Longrightarrow> ok b \<Longrightarrow> ok (cfg_xor C a b) \<and> ev (cfg_xor C a b) = (ev a \<noteq> ev b)"
    and iff_law: "ok a \<Longrightarrow> ok b \<Longrightarrow> ok (cfg_iff C a b) \<and> ev (cfg_iff C a b) = (ev a = ev b)"
    and nand_law: "ok a \<Longrightarrow> ok b \<Longrightarrow> ok (cfg_nand C a b) \<and> ev (cfg_nand C a b) = (\<not> (ev a \<and> ev b))"
    and nor_law: "ok a \<Longrightarrow> ok b \<Longrightarrow> ok (cfg_nor C a b) \<and> ev (cfg_nor C a b) = (\<not> (ev a \<or> ev b))"
    and ite_law: "ok a \<Longrightarrow> ok b \<Longrightarrow> ok c \<Longrightarrow>
      ok (cfg_ite C a b c) \<and> ev (cfg_ite C a b c) = (if ev a then ev b else ev c)"
    and xor3_law: "ok a \<Longrightarrow> ok b \<Longrightarrow> ok c \<Longrightarrow>
      ok (cfg_xor3 C a b c) \<and> ev (cfg_xor3 C a b c) = (ev a \<noteq> (ev b \<noteq> ev c))"
    and carry_law: "ok a \<Longrightarrow> ok b \<Longrightarrow> ok c \<Longrightarrow>
      ok (cfg_carry C a b c) \<and> ev (cfg_carry C a b c) = (ev a \<and> ev b \<or> ev a \<and> ev c \<or> ev b \<and> ev c)"
    and ge2_law: "ok a \<Longrightarrow> ok b \<Longrightarrow> ok c \<Longrightarrow>
      ok (cfg_ge2 C a b c) \<and> ev (cfg_ge2 C a b c) = (ev a \<and> ev b \<or> ev a \<and> ev c \<or> ev b \<and> ev c)"
    and ands_law: "list_all ok as \<Longrightarrow> ok (cfg_ands C as) \<and> ev (cfg_ands C as) = list_all ev as"
    and ors_law: "list_all ok as \<Longrightarrow> ok (cfg_ors C as) \<and> ev (cfg_ors C as) = list_ex ev as"
begin

lemmas gate_laws = true_law false_law not_law and_law or_law xor_law iff_law nand_law nor_law ite_law
  xor3_law carry_law ge2_law ands_law ors_law

definition uv :: "'e list \<Rightarrow> nat" where
  "uv as = bval (map ev as)"

definition sv :: "'e list \<Rightarrow> int" where
  "sv as = sval (map ev as)"

definition bits :: "nat \<Rightarrow> 'e list \<Rightarrow> bool" where
  "bits n as \<longleftrightarrow> length as = n \<and> list_all ok as"

lemma uv_Nil [simp]: "uv [] = 0"
  by (simp add: uv_def)

lemma uv_Cons [simp]: "uv (a # as) = of_bool (ev a) + 2 * uv as"
  by (simp add: uv_def)

lemma uv_append: "uv (as @ bs) = uv as + 2 ^ length as * uv bs"
  by (simp add: uv_def bval_append)

lemma uv_less: "bits n as \<Longrightarrow> uv as < 2 ^ n"
  using bval_less [of "map ev as"] by (auto simp: uv_def bits_def)

lemma bits_length: "bits n as \<Longrightarrow> length as = n"
  by (simp add: bits_def)

lemma bits_Nil [simp]: "bits n [] \<longleftrightarrow> n = 0"
  by (auto simp: bits_def)

lemma bits_Cons [simp]: "bits n (a # as) \<longleftrightarrow> 0 < n \<and> ok a \<and> bits (n - 1) as"
  by (auto simp: bits_def)

lemma bits_append: "bits n (as @ bs) \<longleftrightarrow> (\<exists>k m. n = k + m \<and> bits k as \<and> bits m bs)"
  by (auto simp: bits_def)

lemma bits_nth: "bits n as \<Longrightarrow> i < n \<Longrightarrow> ok (as ! i)"
  by (auto simp: bits_def list_all_length)

lemma bits_last: "bits n as \<Longrightarrow> 0 < n \<Longrightarrow> ok (last as)"
  by (auto simp: bits_def list_all_iff)

lemma bits_take: "bits n as \<Longrightarrow> k \<le> n \<Longrightarrow> bits k (take k as)"
  by (auto simp: bits_def list_all_length)

lemma bits_drop: "bits n as \<Longrightarrow> k \<le> n \<Longrightarrow> bits (n - k) (drop k as)"
  by (auto simp: bits_def list_all_length)

lemma uv_replicate_false: "uv (replicate n (mk_false C)) = 0"
  by (simp add: uv_def false_law)

lemma bits_replicate: "ok a \<Longrightarrow> bits n (replicate n a)"
  by (simp add: bits_def list_all_length)

lemma uv_take: "uv (take k as) = uv as mod 2 ^ k"
  by (simp add: uv_def bval_take flip: take_map)

lemma uv_drop: "uv (drop k as) = uv as div 2 ^ k"
  by (simp add: uv_def bval_drop flip: drop_map)

lemma bit_uv: "bit (uv as) i \<longleftrightarrow> i < length as \<and> ev (as ! i)"
  by (auto simp: uv_def bit_bval)

lemma uv_eqI:
  assumes "length as = n" "\<And>i. i < n \<Longrightarrow> ev (as ! i) \<longleftrightarrow> bit v i"
  shows "uv as = v mod 2 ^ n"
  unfolding uv_def using assms by (intro bval_eqI) auto

lemma uv_nth_sum: "bits n as \<Longrightarrow> uv as = (\<Sum>i<n. of_bool (ev (as ! i)) * 2 ^ i)"
  by (simp add: uv_def bval_sum bits_def)

text \<open>Arithmetic of one bit.\<close>

lemma full_add: "of_bool (x \<noteq> (y \<noteq> z)) + 2 * of_bool (x \<and> y \<or> x \<and> z \<or> y \<and> z) = (of_bool x + of_bool y + of_bool z :: nat)"
  by (cases x; cases y; cases z) simp_all

lemma half_add: "of_bool (x \<noteq> y) + 2 * of_bool (x \<and> y) = (of_bool x + of_bool y :: nat)"
  by (cases x; cases y) simp_all

lemma split_mod: "b < 2 \<Longrightarrow> (b + 2 * v) mod (2 * m) = b + 2 * (v mod m)" for b v m :: nat
proof -
  assume "b < 2"
  then have "b = 0 \<or> b = 1" by auto
  then show ?thesis by (auto simp: mod_mult2_eq)
qed

subsection \<open>Numerals\<close>

lemma is_numeral_loop_value:
  "is_numeral_loop C i r as = Some v \<Longrightarrow> v = r + 2 ^ i * uv as"
proof (induction as arbitrary: i r)
  case (Cons a as)
  show ?case
  proof (cases "is_true C a")
    case True
    with Cons.prems Cons.IH [of "Suc i" "r + 2 ^ i"] is_true_law [OF True] show ?thesis by (simp add: algebra_simps)
  next
    case False
    with Cons.prems have "is_false C a" by (auto split: if_splits)
    with False Cons.prems Cons.IH [of "Suc i" r] is_false_law show ?thesis by (simp add: algebra_simps)
  qed
qed simp

lemma is_numeral_value: "is_numeral C as = Some v \<Longrightarrow> uv as = v"
  unfolding is_numeral_def using is_numeral_loop_value [of 0 0 as v] by simp

lemma is_minus_one_value: "is_minus_one C as \<Longrightarrow> Suc (uv as) = 2 ^ length as"
  using bval_all_True [of "map ev as"] is_true_law
  by (auto simp: is_minus_one_def uv_def list_all_length)

lemma mk_bit_facts [simp]: "ok (mk_bit C b)" "ev (mk_bit C b) = b"
  using true_law false_law by (auto simp: mk_bit_def)

lemma num2bits_loop_value: "bits n (num2bits_loop C v n) \<and> uv (num2bits_loop C v n) = v mod 2 ^ n"
proof (induction n arbitrary: v rule: less_induct)
  case (less n)
  consider "n = 0" | "32 < n" | "0 < n" "n \<le> 32" by linarith
  then show ?case
  proof cases
    case 1
    then show ?thesis by (simp add: num2bits_loop.simps)
  next
    case 2
    let ?w = "map (\<lambda>j. mk_bit C (bit (v mod 2 ^ 32) j)) [0..<32]"
    have unfold: "num2bits_loop C v n = ?w @ num2bits_loop C (v div 2 ^ 32) (n - 32)"
      using 2 by (subst num2bits_loop.simps) simp
    have IH: "bits (n - 32) (num2bits_loop C (v div 2 ^ 32) (n - 32))"
      "uv (num2bits_loop C (v div 2 ^ 32) (n - 32)) = v div 2 ^ 32 mod 2 ^ (n - 32)"
      using less [of "n - 32" "v div 2 ^ 32"] 2 by simp_all
    have w: "bits 32 ?w" "uv ?w = v mod 2 ^ 32"
      using bval_bits [of "v mod 2 ^ 32" 32] by (simp_all add: bits_def list_all_length uv_def comp_def del: upt_rec_numeral)
    have "2 ^ n = (2::nat) ^ 32 * 2 ^ (n - 32)" using 2 by (metis le_add_diff_inverse less_imp_le power_add)
    then have "v mod 2 ^ n = v mod 2 ^ 32 + 2 ^ 32 * (v div 2 ^ 32 mod 2 ^ (n - 32))"
      by (simp add: mod_mult2_eq del: power_numeral)
    then have "uv (?w @ num2bits_loop C (v div 2 ^ 32) (n - 32)) = v mod 2 ^ n"
      unfolding uv_append w(2) IH(2) by (simp only: length_map length_upt diff_zero)
    moreover have "bits n (?w @ num2bits_loop C (v div 2 ^ 32) (n - 32))"
      using w(1) IH(1) 2 unfolding bits_append by (intro exI [of _ 32] exI [of _ "n - 32"]) auto
    ultimately show ?thesis unfolding unfold by blast
  next
    case 3
    then obtain m where m: "n = Suc m" by (cases n) auto
    have "of_bool (v mod 2 \<noteq> 0) = v mod 2" by (simp add: mod_2_eq_odd)
    with less [of m "v div 2"] m 3 show ?thesis
      by (subst (1 2) num2bits_loop.simps) (simp add: mod_mult2_eq)
  qed
qed

lemma num2bits_value: "bits n (num2bits C v n)" "uv (num2bits C v n) = v mod 2 ^ n"
  using num2bits_loop_value by (simp_all add: num2bits_def)

subsection \<open>Addition, negation, subtraction\<close>

lemma adder_loop_value:
  assumes "bits n as" "bits n bs" "ok cin"
  shows "bits n (mk_adder_loop C cin as bs) \<and>
         uv (mk_adder_loop C cin as bs) = (uv as + uv bs + of_bool (ev cin)) mod 2 ^ n"
  using assms
proof (induction as arbitrary: n bs cin)
  case (Cons a as)
  from Cons.prems(1,2) obtain m b bs' where m: "n = Suc m" "bs = b # bs'" by (cases n; cases bs) auto
  with Cons.prems have o: "ok a" "ok b" "ok cin" "bits m as" "bits m bs'" by simp_all
  show ?case
  proof (cases as)
    case Nil
    with o(4,5) have "m = 0" "bs' = []" by (auto simp: bits_def)
    with Nil m o show ?thesis by (cases "ev a"; cases "ev b"; cases "ev cin") (simp_all add: gate_laws)
  next
    case (Cons a' as')
    let ?c = "cfg_carry C a b cin"
    have IH: "bits m (mk_adder_loop C ?c as bs')"
      "uv (mk_adder_loop C ?c as bs') = (uv as + uv bs' + of_bool (ev ?c)) mod 2 ^ m"
      using Cons.IH [OF o(4,5), of ?c] o(1-3) by (simp_all add: gate_laws)
    have step: "mk_adder_loop C cin (a # as) bs = cfg_xor3 C a b cin # mk_adder_loop C ?c as bs'"
      using Cons m by (simp add: mk_full_adder_def)
    have "uv (a # as) + uv bs + of_bool (ev cin) =
        of_bool (ev (cfg_xor3 C a b cin)) + 2 * (uv as + uv bs' + of_bool (ev ?c))"
      using full_add [of "ev a" "ev b" "ev cin"] o(1-3) m by (simp add: gate_laws)
    then have "(uv (a # as) + uv bs + of_bool (ev cin)) mod 2 ^ n =
        of_bool (ev (cfg_xor3 C a b cin)) + 2 * ((uv as + uv bs' + of_bool (ev ?c)) mod 2 ^ m)"
      using m(1) by (simp only: power_Suc) (rule split_mod, simp)
    with step IH o(1-3) m(1) show ?thesis by (simp add: gate_laws)
  qed
qed simp

lemma adder_value:
  assumes "bits n as" "bits n bs"
  shows "bits n (mk_adder C as bs)" "uv (mk_adder C as bs) = (uv as + uv bs) mod 2 ^ n"
  using adder_loop_value [OF assms, of "mk_false C"] by (simp_all add: mk_adder_def false_law)

lemma neg_loop_value:
  assumes "bits n as" "ok cin"
  shows "bits n (mk_neg_loop C cin as) \<and>
         uv (mk_neg_loop C cin as) = (2 ^ n - 1 - uv as + of_bool (ev cin)) mod 2 ^ n"
  using assms
proof (induction as arbitrary: n cin)
  case (Cons a as)
  then obtain m where m: "n = Suc m" by (cases n) auto
  with Cons.prems have o: "ok a" "ok cin" "bits m as" by simp_all
  show ?case
  proof (cases as)
    case Nil
    with o(3) have "m = 0" by (auto simp: bits_def)
    with Nil m o show ?thesis by (cases "ev a"; cases "ev cin") (simp_all add: gate_laws)
  next
    case (Cons a' as')
    let ?x = "cfg_xor C (cfg_not C a) cin" and ?c = "cfg_and C (cfg_not C a) cin"
    have IH: "bits m (mk_neg_loop C ?c as)"
      "uv (mk_neg_loop C ?c as) = (2 ^ m - 1 - uv as + of_bool (ev ?c)) mod 2 ^ m"
      using Cons.IH [OF o(3), of ?c] o(1-2) by (simp_all add: gate_laws)
    have step: "mk_neg_loop C cin (a # as) = ?x # mk_neg_loop C ?c as"
      using Cons by (simp add: mk_half_adder_def)
    have "uv as < 2 ^ m" using uv_less [OF o(3)] .
    then have "2 ^ n - 1 - uv (a # as) + of_bool (ev cin) =
        of_bool (\<not> ev a) + of_bool (ev cin) + 2 * (2 ^ m - 1 - uv as)"
      using m by (cases "ev a") simp_all
    also have "\<dots> = of_bool (ev ?x) + 2 * (2 ^ m - 1 - uv as + of_bool (ev ?c))"
      using half_add [of "\<not> ev a" "ev cin"] o(1,2) by (simp add: gate_laws)
    finally have "(2 ^ n - 1 - uv (a # as) + of_bool (ev cin)) mod 2 ^ n =
        of_bool (ev ?x) + 2 * ((2 ^ m - 1 - uv as + of_bool (ev ?c)) mod 2 ^ m)"
      using m(1) by (simp only: power_Suc) (rule split_mod, simp)
    with step IH o(1,2) m(1) show ?thesis by (simp add: gate_laws)
  qed
qed simp

lemma neg_value:
  assumes "bits n as"
  shows "bits n (mk_neg C as)" "uv (mk_neg C as) = (2 ^ n - uv as) mod 2 ^ n"
  using neg_loop_value [OF assms, of "mk_true C"] uv_less [OF assms]
  by (simp_all add: mk_neg_def true_law Suc_diff_Suc)

lemma subtracter_loop_value:
  assumes "bits n as" "bits n bs" "ok cin" "mk_subtracter_loop C cin as bs = (t, c)"
  shows "bits n t \<and> ok c \<and> uv t + 2 ^ n * of_bool (ev c) = uv as + (2 ^ n - 1 - uv bs) + of_bool (ev cin)"
  using assms
proof (induction as arbitrary: n bs cin t c)
  case Nil
  then show ?case by auto
next
  case (Cons a as)
  from Cons.prems(1,2) obtain m b bs' where m: "n = Suc m" "bs = b # bs'" by (cases n; cases bs) auto
  with Cons.prems have o: "ok a" "ok b" "ok cin" "bits m as" "bits m bs'" by simp_all
  let ?x = "cfg_xor3 C a (cfg_not C b) cin" and ?k = "cfg_carry C a (cfg_not C b) cin"
  obtain t' where t: "t = ?x # t'" "mk_subtracter_loop C ?k as bs' = (t', c)"
    using Cons.prems(4) m by (auto simp: mk_full_adder_def Let_def split: prod.splits)
  have IH: "bits m t'" "ok c" "uv t' + 2 ^ m * of_bool (ev c) = uv as + (2 ^ m - 1 - uv bs') + of_bool (ev ?k)"
    using Cons.IH [OF o(4,5) _ t(2)] o(1-3) by (simp_all add: gate_laws)
  have xk: "of_bool (ev ?x) + 2 * of_bool (ev ?k) = (of_bool (ev a) + of_bool (\<not> ev b) + of_bool (ev cin) :: nat)"
    using full_add [of "ev a" "\<not> ev b" "ev cin"] o(1-3) by (simp add: gate_laws)
  have "uv bs' < 2 ^ m" using uv_less [OF o(5)] .
  then have "2 ^ n - 1 - uv bs = of_bool (\<not> ev b) + 2 * (2 ^ m - 1 - uv bs')"
    using m by (cases "ev b") simp_all
  then have "uv t + 2 ^ n * of_bool (ev c) = uv (a # as) + (2 ^ n - 1 - uv bs) + of_bool (ev cin)"
    using IH(3) xk t(1) m(1) by (simp add: algebra_simps)
  with IH o m t show ?case by (simp add: gate_laws)
qed

lemma subtracter_value:
  assumes "bits n as" "bits n bs" "mk_subtracter C as bs = (t, c)"
  shows "bits n t" "ok c" "uv t = (uv as + (2 ^ n - uv bs)) mod 2 ^ n" "ev c \<longleftrightarrow> uv bs \<le> uv as"
    "ev c \<Longrightarrow> uv t = uv as - uv bs"
proof -
  have *: "bits n t" "ok c" "uv t + 2 ^ n * of_bool (ev c) = uv as + (2 ^ n - uv bs)"
    using subtracter_loop_value [OF assms(1,2) _ assms(3) [unfolded mk_subtracter_def]] uv_less [OF assms(2)]
    by (simp_all add: true_law)
  show "bits n t" "ok c" by (fact *)+
  have lt: "uv t < 2 ^ n" "uv as < 2 ^ n" "uv bs < 2 ^ n" by (rule uv_less; fact *(1) assms(1,2))+
  then have "(uv t + 2 ^ n * of_bool (ev c)) mod 2 ^ n = uv t" by simp
  then show "uv t = (uv as + (2 ^ n - uv bs)) mod 2 ^ n" unfolding *(3) by simp
  show "ev c \<longleftrightarrow> uv bs \<le> uv as" "ev c \<Longrightarrow> uv t = uv as - uv bs"
    using *(3) lt by (cases "ev c"; simp)+
qed

subsection \<open>The array multiplier\<close>

definition count :: "'e list \<Rightarrow> nat" where
  "count cs = sum_list (map (\<lambda>c. of_bool (ev c)) cs)"

definition conv :: "'e list \<Rightarrow> 'e list \<Rightarrow> nat \<Rightarrow> nat \<Rightarrow> nat" where
  \<comment> \<open>how many of the first \<open>k\<close> partial products of weight \<open>2 ^ i\<close> are set\<close>
  "conv as bs i k = (\<Sum>j<k. of_bool (ev (as ! j)) * of_bool (ev (bs ! (i - j))))"

lemma bits_snoc: "bits n as \<Longrightarrow> ok a \<Longrightarrow> bits (Suc n) (as @ [a])"
  by (simp add: bits_def)

lemma count_snoc: "count (cs @ [c]) = count cs + of_bool (ev c)"
  by (simp add: count_def)

lemma count_Suc: "k < length cs \<Longrightarrow> count (take (Suc k) cs) = count (take k cs) + of_bool (ev (cs ! k))"
  by (simp add: take_Suc_conv_app_nth count_snoc)

lemma conv_Suc: "conv as bs i (Suc k) = conv as bs i k + of_bool (ev (as ! k) \<and> ev (bs ! (i - k)))"
  by (simp add: conv_def of_bool_conj)

lemma column_loop:
  assumes "bits n as" "bits n bs" "i < n" "bits (i - 1) cins" "1 \<le> i"
    and "foldl (column_step C as bs cins i) (out0, [cout0]) [2..<2 + k] = (out, couts)" "k < i"
    and "ok out0" "ok cout0" "of_bool (ev out0) + 2 * of_bool (ev cout0) = conv as bs i 2"
  shows "ok out \<and> bits (Suc k) couts \<and> of_bool (ev out) + 2 * count couts = conv as bs i (2 + k) + count (take k cins)"
  using assms(6,7)
proof (induction k arbitrary: out couts)
  case 0
  with assms(8-) show ?case by (auto simp: count_def)
next
  case (Suc k)
  obtain o1 c1 where s: "foldl (column_step C as bs cins i) (out0, [cout0]) [2..<2 + k] = (o1, c1)" by fastforce
  with Suc have IH: "ok o1" "bits (Suc k) c1" "of_bool (ev o1) + 2 * count c1 = conv as bs i (2 + k) + count (take k cins)"
    by auto
  let ?p = "cfg_and C (as ! (2 + k)) (bs ! (i - (2 + k)))"
  have oks: "ok (as ! (2 + k))" "ok (bs ! (i - (2 + k)))" "ok (cins ! k)" "k < length cins"
    using assms(3) Suc.prems(2) bits_nth [OF assms(1)] bits_nth [OF assms(2)] bits_nth [OF assms(4)] bits_length [OF assms(4)]
    by auto
  have "[2..<2 + Suc k] = [2..<2 + k] @ [2 + k]" by simp
  then have new: "out = cfg_xor3 C ?p o1 (cins ! k)" "couts = c1 @ [cfg_carry C ?p o1 (cins ! k)]"
    using s Suc.prems(1) by (simp_all add: column_step_def mk_full_adder_def Let_def)
  have "of_bool (ev out) + 2 * of_bool (ev (cfg_carry C ?p o1 (cins ! k))) =
      (of_bool (ev (as ! (2 + k)) \<and> ev (bs ! (i - (2 + k)))) + of_bool (ev o1) + of_bool (ev (cins ! k)) :: nat)"
    unfolding new using full_add [of "ev ?p" "ev o1" "ev (cins ! k)"] IH(1) oks by (simp add: gate_laws)
  then have "of_bool (ev out) + 2 * count couts = conv as bs i (2 + Suc k) + count (take (Suc k) cins)"
    using IH(3) conv_Suc [of as bs i "2 + k"] count_Suc [OF oks(4)] unfolding new(2) count_snoc by simp
  moreover have "bits (Suc (Suc k)) couts" unfolding new using IH(1,2) oks by (intro bits_snoc) (simp_all add: gate_laws)
  moreover have "ok out" unfolding new using IH(1) oks by (simp add: gate_laws)
  ultimately show ?case by simp
qed

lemma column_value:
  assumes "bits n as" "bits n bs" "i < n" "bits (i - 1) cins" "1 \<le> i" "mk_column C as bs cins i = (out, couts)"
  shows "ok out" "bits i couts" "of_bool (ev out) + 2 * count couts = conv as bs i (Suc i) + count cins"
proof -
  let ?i1 = "cfg_and C (as ! 0) (bs ! i)" and ?i2 = "cfg_and C (as ! 1) (bs ! (i - 1))"
  have oks: "ok (as ! 0)" "ok (bs ! i)" "ok (as ! 1)" "ok (bs ! (i - 1))"
    using assms(3,5) bits_nth [OF assms(1)] bits_nth [OF assms(2)] by auto
  have i: "[2..<Suc i] = [2..<2 + (i - 1)]" "2 + (i - 1) = Suc i" using assms(5) by auto
  have run: "foldl (column_step C as bs cins i) (cfg_xor C ?i1 ?i2, [cfg_and C ?i1 ?i2]) [2..<2 + (i - 1)] = (out, couts)"
    using assms(6) i(1) by (simp add: mk_column_def mk_half_adder_def Let_def)
  have "of_bool (ev (cfg_xor C ?i1 ?i2)) + 2 * of_bool (ev (cfg_and C ?i1 ?i2)) = conv as bs i 2"
    using half_add [of "ev ?i1" "ev ?i2"] oks by (simp add: gate_laws numeral_2_eq_2 conv_Suc) (simp add: conv_def)
  from column_loop [OF assms(1-5) run _ _ _ this] oks assms(5) i(2)
  have "ok out \<and> bits (Suc (i - 1)) couts \<and> of_bool (ev out) + 2 * count couts = conv as bs i (Suc i) + count (take (i - 1) cins)"
    by (simp add: gate_laws)
  with assms(5) bits_length [OF assms(4)]
  show "ok out" "bits i couts" "of_bool (ev out) + 2 * count couts = conv as bs i (Suc i) + count cins" by simp_all
qed

lemma last_column_value:
  assumes "bits n as" "bits n bs" "i < n" "bits (i - 1) cins" "1 \<le> i"
  shows "ok (mk_last_column C as bs cins i) \<and>
    of_bool (ev (mk_last_column C as bs cins i)) = (conv as bs i (Suc i) + count cins) mod 2"
proof -
  let ?f = "\<lambda>out j. cfg_xor3 C (cfg_and C (as ! j) (bs ! (i - j))) out (cins ! (j - 2))"
  let ?o = "cfg_xor C (cfg_and C (as ! 0) (bs ! i)) (cfg_and C (as ! 1) (bs ! (i - 1)))"
  have oks: "ok (as ! 0)" "ok (bs ! i)" "ok (as ! 1)" "ok (bs ! (i - 1))"
    using assms(3,5) bits_nth [OF assms(1)] bits_nth [OF assms(2)] by auto
  have odd_bool: "of_bool (odd x) = x mod 2" for x :: nat by (simp add: mod_2_eq_odd)
  have loop: "ok (foldl ?f ?o [2..<2 + k]) \<and> (ev (foldl ?f ?o [2..<2 + k]) \<longleftrightarrow> odd (conv as bs i (2 + k) + count (take k cins)))"
    if "k < i" for k
    using that
  proof (induction k)
    case 0
    show ?case using oks by (simp add: gate_laws numeral_2_eq_2 conv_Suc) (simp add: conv_def count_def)
  next
    case (Suc k)
    have "[2..<2 + Suc k] = [2..<2 + k] @ [2 + k]" by simp
    moreover have "ok (as ! (2 + k))" "ok (bs ! (i - (2 + k)))" "ok (cins ! k)" "k < length cins"
      using assms(3) Suc.prems bits_nth [OF assms(1)] bits_nth [OF assms(2)] bits_nth [OF assms(4)] bits_length [OF assms(4)]
      by auto
    ultimately show ?case
      using Suc conv_Suc [of as bs i "2 + k"] count_Suc [of k cins] by (auto simp: gate_laws)
  qed
  have i: "2 + (i - 1) = Suc i" "take (i - 1) cins = cins" "i - 1 < i"
    using assms(5) bits_length [OF assms(4)] by auto
  from loop [OF i(3)] have "ok (mk_last_column C as bs cins i)"
    "ev (mk_last_column C as bs cins i) \<longleftrightarrow> odd (conv as bs i (Suc i) + count cins)"
    unfolding i mk_last_column_def by blast+
  then show ?thesis using odd_bool [of "conv as bs i (Suc i) + count cins"] by (simp only: simp_thms)
qed

lemma array_loop:
  assumes "bits n as" "bits n bs" "1 \<le> k" "k < n"
    and "foldl (mk_array_step C as bs) ([cfg_and C (as ! 0) (bs ! 0)], []) [1..<k] = (out, cins)"
  shows "bits k out \<and> bits (k - 1) cins \<and> uv out + 2 ^ k * count cins = (\<Sum>i<k. conv as bs i (Suc i) * 2 ^ i)"
  using assms(3,4,5)
proof (induction k arbitrary: out cins rule: nat_induct_at_least)
  case base
  then show ?case using bits_nth [OF assms(1)] bits_nth [OF assms(2)]
    by (auto simp: gate_laws count_def conv_def)
next
  case (Suc k)
  obtain o1 c1 where s: "foldl (mk_array_step C as bs) ([cfg_and C (as ! 0) (bs ! 0)], []) [1..<k] = (o1, c1)" by fastforce
  with Suc have IH: "bits k o1" "bits (k - 1) c1" "uv o1 + 2 ^ k * count c1 = (\<Sum>i<k. conv as bs i (Suc i) * 2 ^ i)"
    by auto
  obtain o2 c2 where col: "mk_column C as bs c1 k = (o2, c2)" by fastforce
  have k: "k < n" "1 \<le> k" "k < length as - 1" using Suc.prems Suc.hyps bits_length [OF assms(1)] by auto
  note cv = column_value [OF assms(1,2) k(1) IH(2) k(2) col]
  have "[1..<Suc k] = [1..<k] @ [k]" using k by simp
  with s Suc.prems(2) col k(3) have new: "out = o1 @ [o2]" "cins = c2" by (simp_all add: mk_array_step_def Let_def)
  have "uv out + 2 ^ Suc k * count cins = uv o1 + 2 ^ k * (of_bool (ev o2) + 2 * count c2)"
    using bits_length [OF IH(1)] by (simp add: new uv_append algebra_simps)
  also have "\<dots> = (uv o1 + 2 ^ k * count c1) + 2 ^ k * conv as bs k (Suc k)"
    unfolding cv(3) by (simp add: algebra_simps)
  finally show ?case using IH(1) cv(1,2) unfolding IH(3) new by (auto simp: bits_def algebra_simps)
qed

lemma product_conv:
  assumes "bits n as" "bits n bs"
  shows "(\<Sum>k<n. conv as bs k (Suc k) * 2 ^ k) mod 2 ^ n = uv as * uv bs mod 2 ^ n"
proof -
  let ?g = "\<lambda>i j. of_bool (ev (as ! i)) * of_bool (ev (bs ! j)) * 2 ^ (i + j) :: nat"
  let ?low = "{(i, j). i + j < n}" and ?all = "{..<n} \<times> {..<n}"
  have "uv as * uv bs = (\<Sum>(i, j)\<in>?all. ?g i j)"
    unfolding uv_nth_sum [OF assms(1)] uv_nth_sum [OF assms(2)] sum_product sum.cartesian_product
    by (rule sum.cong) (auto simp: power_add)
  also have "\<dots> = (\<Sum>(i, j)\<in>?all - ?low. ?g i j) + (\<Sum>(i, j)\<in>?low. ?g i j)"
    by (rule sum.subset_diff) auto
  also have "(\<Sum>(i, j)\<in>?low. ?g i j) = (\<Sum>k<n. conv as bs k (Suc k) * 2 ^ k)"
    unfolding sum.triangle_reindex conv_def lessThan_Suc_atMost sum_distrib_right
    by (intro sum.cong) auto
  finally have eq: "uv as * uv bs = (\<Sum>(i, j)\<in>?all - ?low. ?g i j) + (\<Sum>k<n. conv as bs k (Suc k) * 2 ^ k)" .
  have "2 ^ n dvd (\<Sum>(i, j)\<in>?all - ?low. ?g i j)"
    by (rule dvd_sum) (auto intro!: dvd_mult le_imp_power_dvd)
  then obtain q where "(\<Sum>(i, j)\<in>?all - ?low. ?g i j) = 2 ^ n * q" by (elim dvdE)
  then show ?thesis unfolding eq by simp
qed

lemma array_multiplier_value:
  assumes "bits n as" "bits n bs" "0 < n"
  shows "bits n (mk_array_multiplier C as bs) \<and> uv (mk_array_multiplier C as bs) = uv as * uv bs mod 2 ^ n"
proof (cases "n = 1")
  case True
  then have "mk_array_multiplier C as bs = [cfg_and C (as ! 0) (bs ! 0)]"
    using bits_length [OF assms(1)] by (simp add: mk_array_multiplier_def)
  moreover have "uv as = of_bool (ev (as ! 0))" "uv bs = of_bool (ev (bs ! 0))" "ok (as ! 0)" "ok (bs ! 0)"
    using True uv_nth_sum [OF assms(1)] uv_nth_sum [OF assms(2)] bits_nth [OF assms(1)] bits_nth [OF assms(2)] by auto
  ultimately show ?thesis using True by (auto simp: gate_laws)
next
  case False
  let ?k = "n - 1"
  obtain out cins where s: "foldl (mk_array_step C as bs) ([cfg_and C (as ! 0) (bs ! 0)], []) [1..<?k] = (out, cins)" by fastforce
  have k: "1 \<le> ?k" "?k < n" "Suc ?k = n" using False assms(3) by auto
  from array_loop [OF assms(1,2) k(1,2) s] have inv: "bits ?k out" "bits (?k - 1) cins"
    "uv out + 2 ^ ?k * count cins = (\<Sum>i<?k. conv as bs i (Suc i) * 2 ^ i)" by auto
  let ?o = "mk_last_column C as bs cins ?k"
  note lc = last_column_value [OF assms(1,2) k(2) inv(2) k(1)]
  have "[1..<n] = [1..<?k] @ [?k]" using k by (metis upt_Suc_append)
  then have out: "mk_array_multiplier C as bs = out @ [?o]"
    using s bits_length [OF assms(1)] by (simp add: mk_array_multiplier_def mk_array_step_def)
  have "(\<Sum>i<n. conv as bs i (Suc i) * 2 ^ i) = uv out + 2 ^ ?k * (conv as bs ?k (Suc ?k) + count cins)"
    using k inv(3) sum.lessThan_Suc [of "\<lambda>i. conv as bs i (Suc i) * 2 ^ i" ?k] by (simp add: algebra_simps)
  moreover have "uv out < 2 ^ ?k" using uv_less [OF inv(1)] .
  then have "(uv out + 2 ^ ?k * v) mod (2 ^ ?k * 2) = uv out + 2 ^ ?k * (v mod 2)" for v
    by (simp add: mod_mult2_eq)
  moreover have "(2::nat) ^ n = 2 ^ ?k * 2" using k(3) by (metis power_Suc2)
  ultimately have "(\<Sum>i<n. conv as bs i (Suc i) * 2 ^ i) mod 2 ^ n = uv out + 2 ^ ?k * of_bool (ev ?o)"
    using lc by simp
  then have "uv (out @ [?o]) = uv as * uv bs mod 2 ^ n"
    using product_conv [OF assms(1,2)] bits_length [OF inv(1)] by (simp add: uv_append)
  moreover have "bits n (out @ [?o])" using inv(1) lc k(3) by (auto simp: bits_def)
  ultimately show ?thesis unfolding out by blast
qed

subsection \<open>The Wallace tree multiplier\<close>

lemma carry_save_value:
  assumes "bits n as" "bits n bs" "bits n cs" "mk_carry_save_adder C as bs cs = (s, k)"
  shows "bits n s \<and> bits n k \<and> uv s + 2 * uv k = uv as + uv bs + uv cs"
  using assms
proof (induction as arbitrary: n bs cs s k)
  case (Cons a as)
  from Cons.prems(1-3) obtain m b bs' c cs' where m: "n = Suc m" "bs = b # bs'" "cs = c # cs'"
    by (cases n; cases bs; cases cs) auto
  with Cons.prems(1-3) have o: "ok a" "ok b" "ok c" "bits m as" "bits m bs'" "bits m cs'" by simp_all
  obtain s' k' where r: "mk_carry_save_adder C as bs' cs' = (s', k')" by fastforce
  with Cons.prems(4) m have sk: "s = cfg_xor3 C a b c # s'" "k = cfg_carry C a b c # k'" by auto
  have "of_bool (ev (cfg_xor3 C a b c)) + 2 * of_bool (ev (cfg_carry C a b c)) = (of_bool (ev a) + of_bool (ev b) + of_bool (ev c) :: nat)"
    using full_add [of "ev a" "ev b" "ev c"] o(1-3) by (simp add: gate_laws)
  then have "uv s + 2 * uv k = uv (a # as) + uv bs + uv cs"
    using Cons.IH [OF o(4-6) r] by (simp add: sk m algebra_simps)
  then show ?case using Cons.IH [OF o(4-6) r] o(1-3) m by (simp add: sk gate_laws)
next
  case Nil
  then show ?case using uv_less [of 0 bs] uv_less [of 0 cs] by auto
qed

definition total :: "'e list list \<Rightarrow> nat" where
  "total pps = sum_list (map uv pps)"

lemma wallace_pass_value:
  assumes "list_all (bits n) pps" "0 < n"
  shows "list_all (bits n) (wallace_pass C pps) \<and> total (wallace_pass C pps) mod 2 ^ n = total pps mod 2 ^ n \<and>
    (2 \<le> length pps \<longrightarrow> 2 \<le> length (wallace_pass C pps))"
  using assms(1)
proof (induction "length pps" arbitrary: pps rule: less_induct)
  case less
  show ?case
  proof (cases "\<exists>x y z rest. pps = x # y # z # rest")
    case True
    then obtain x y z rest where pps: "pps = x # y # z # rest" by blast
    obtain s k where sk: "mk_carry_save_adder C x y z = (s, k)" by fastforce
    with less.prems pps have v: "bits n s" "bits n k" "uv s + 2 * uv k = uv x + uv y + uv z"
      using carry_save_value [of n x y z s k] by auto
    define c where "c = butlast (mk_false C # k)"
    have take: "c = take n (mk_false C # k)" using bits_length [OF v(2)] by (simp add: c_def butlast_conv_take)
    have "bits (Suc n) (mk_false C # k)" using v(2) false_law by simp
    then have c: "bits n c" "uv c = 2 * uv k mod 2 ^ n"
      unfolding take using bits_take [of "Suc n" "mk_false C # k" n] uv_take [of n "mk_false C # k"] false_law by simp_all
    have IH: "list_all (bits n) (wallace_pass C rest)" "total (wallace_pass C rest) mod 2 ^ n = total rest mod 2 ^ n"
      using less.hyps [of rest] less.prems pps by simp_all
    have step: "wallace_pass C pps = s # c # wallace_pass C rest" using sk pps by (simp add: c_def)
    have "total (wallace_pass C pps) mod 2 ^ n = (uv s + 2 * uv k mod 2 ^ n + total (wallace_pass C rest) mod 2 ^ n) mod 2 ^ n"
    proof -
      have "total (wallace_pass C pps) = uv s + uv c + total (wallace_pass C rest)" by (simp add: step total_def)
      then show ?thesis by (simp only: c(2) mod_add_right_eq)
    qed
    also have "\<dots> = (uv s + 2 * uv k + total rest) mod 2 ^ n"
      unfolding IH(2) mod_add_right_eq by (metis mod_add_left_eq mod_add_right_eq)
    also have "\<dots> = total pps mod 2 ^ n" using v(3) by (simp add: pps total_def add.assoc)
    finally show ?thesis using IH(1) v(1) c(1) unfolding step by simp
  next
    case False
    then have "wallace_pass C pps = pps" by (cases pps rule: list.exhaust; cases "tl pps"; cases "tl (tl pps)") auto
    with less.prems show ?thesis by simp
  qed
qed

lemma wallace_reduce_value:
  assumes "list_all (bits n) pps" "0 < n" "2 \<le> length pps"
  shows "list_all (bits n) (wallace_reduce C pps) \<and> total (wallace_reduce C pps) mod 2 ^ n = total pps mod 2 ^ n \<and>
    length (wallace_reduce C pps) = 2"
  using assms(1,3)
proof (induction "length pps" arbitrary: pps rule: less_induct)
  case less
  show ?case
  proof (cases "length pps \<le> 2")
    case True
    with less.prems show ?thesis by (subst (1 2 3) wallace_reduce.simps) simp
  next
    case False
    with length_wallace_pass [of C pps] have "length (wallace_pass C pps) < length pps" by simp
    from less.hyps [OF this] wallace_pass_value [OF less.prems(1) assms(2)] False less.prems(2) show ?thesis
      by (subst (1 2 3) wallace_reduce.simps) simp
  qed
qed

lemma partial_product_value:
  assumes "bits n as" "bits n bs" "i < n"
  shows "bits n (replicate i (mk_false C) @ map (\<lambda>j. cfg_and C (as ! j) (bs ! i)) [0..<n - i])"
    "uv (replicate i (mk_false C) @ map (\<lambda>j. cfg_and C (as ! j) (bs ! i)) [0..<n - i]) =
       of_bool (ev (bs ! i)) * 2 ^ i * uv as mod 2 ^ n"
proof -
  let ?m = "map (\<lambda>j. cfg_and C (as ! j) (bs ! i)) [0..<n - i]"
  have oks: "ok (bs ! i)" "\<And>j. j < n - i \<Longrightarrow> ok (as ! j)"
    using bits_nth [OF assms(1)] bits_nth [OF assms(2)] assms(3) by auto
  have m: "bits (n - i) ?m" using oks by (auto simp: bits_def list_all_length gate_laws)
  have evm: "map ev ?m = (if ev (bs ! i) then take (n - i) (map ev as) else replicate (n - i) False)"
    using oks bits_length [OF assms(1)] by (auto intro!: nth_equalityI simp: gate_laws)
  have uvm: "uv ?m = of_bool (ev (bs ! i)) * (uv as mod 2 ^ (n - i))"
    unfolding uv_def evm by (simp add: bval_take)
  show "bits n (replicate i (mk_false C) @ ?m)"
    using m bits_replicate [of "mk_false C" i] false_law assms(3) unfolding bits_append
    by (metis le_add_diff_inverse less_imp_le)
  have "(2::nat) ^ n = 2 ^ i * 2 ^ (n - i)" using assms(3) by (simp flip: power_add)
  then have "2 ^ i * (uv as mod 2 ^ (n - i)) = 2 ^ i * uv as mod 2 ^ n" by (simp only: mult_mod_right)
  then show "uv (replicate i (mk_false C) @ ?m) = of_bool (ev (bs ! i)) * 2 ^ i * uv as mod 2 ^ n"
    using uvm by (simp add: uv_append uv_replicate_false)
qed

lemma partial_products_value:
  assumes "bits n as" "bits n bs"
  shows "list_all (bits n) (mk_partial_products C as bs)" "total (mk_partial_products C as bs) mod 2 ^ n = uv as * uv bs mod 2 ^ n"
proof -
  have len: "length as = n" using bits_length [OF assms(1)] .
  show "list_all (bits n) (mk_partial_products C as bs)"
    using partial_product_value(1) [OF assms] by (auto simp: mk_partial_products_def list_all_length len)
  have "total (mk_partial_products C as bs) = (\<Sum>i<n. of_bool (ev (bs ! i)) * 2 ^ i * uv as mod 2 ^ n)"
    using partial_product_value(2) [OF assms]
    by (simp add: total_def mk_partial_products_def len comp_def sum_list_sum_nth lessThan_atLeast0)
  then have "total (mk_partial_products C as bs) mod 2 ^ n = (\<Sum>i<n. of_bool (ev (bs ! i)) * 2 ^ i * uv as) mod 2 ^ n"
    by (simp add: mod_sum_eq)
  then show "total (mk_partial_products C as bs) mod 2 ^ n = uv as * uv bs mod 2 ^ n"
    unfolding uv_nth_sum [OF assms(2)] sum_distrib_left by (simp add: mult.commute)
qed

lemma wallace_multiplier_value:
  assumes "bits n as" "bits n bs" "0 < n"
  shows "bits n (mk_wallace_multiplier C as bs) \<and> uv (mk_wallace_multiplier C as bs) = uv as * uv bs mod 2 ^ n"
proof (cases "n = 1")
  case True
  then have "mk_wallace_multiplier C as bs = [cfg_and C (as ! 0) (bs ! 0)]"
    using bits_length [OF assms(1)] by (simp add: mk_wallace_multiplier_def)
  moreover have "uv as = of_bool (ev (as ! 0))" "uv bs = of_bool (ev (bs ! 0))" "ok (as ! 0)" "ok (bs ! 0)"
    using True uv_nth_sum [OF assms(1)] uv_nth_sum [OF assms(2)] bits_nth [OF assms(1)] bits_nth [OF assms(2)] by auto
  ultimately show ?thesis using True by (auto simp: gate_laws)
next
  case False
  let ?pps = "wallace_reduce C (mk_partial_products C as bs)"
  have len: "length as = n" "2 \<le> length (mk_partial_products C as bs)"
    using False assms(3) bits_length [OF assms(1)] by (simp_all add: mk_partial_products_def)
  note red = wallace_reduce_value [OF partial_products_value(1) [OF assms(1,2)] assms(3) len(2)]
  then obtain x y where xy: "?pps = [x, y]" by (auto simp: numeral_2_eq_2 length_Suc_conv)
  with red have "bits n x" "bits n y" "(uv x + uv y) mod 2 ^ n = uv as * uv bs mod 2 ^ n"
    using partial_products_value(2) [OF assms(1,2)] by (simp_all add: total_def)
  with adder_value [of n x y] False len show ?thesis by (simp add: mk_wallace_multiplier_def xy Let_def)
qed

subsection \<open>Multiplication by a constant\<close>

lemma upper_add:
  fixes u m :: nat
  assumes "i \<le> n"
  shows "u mod 2 ^ i + 2 ^ i * ((u div 2 ^ i + m mod 2 ^ (n - i)) mod 2 ^ (n - i)) = (u + 2 ^ i * m) mod 2 ^ n"
proof -
  have "(2::nat) ^ n = 2 ^ i * 2 ^ (n - i)" using assms by (simp flip: power_add)
  then have "(u + 2 ^ i * m) mod 2 ^ n = (u + 2 ^ i * m) mod 2 ^ i + 2 ^ i * ((u + 2 ^ i * m) div 2 ^ i mod 2 ^ (n - i))"
    by (simp add: mod_mult2_eq add.commute)
  then show ?thesis by (simp add: mod_simps add.commute)
qed

lemma booth_add:
  assumes "bits n out" "bits n ms" "i \<le> n"
  shows "bits n (take i out @ mk_adder C (drop i out) (take (length out - i) ms))"
    "uv (take i out @ mk_adder C (drop i out) (take (length out - i) ms)) = (uv out + 2 ^ i * uv ms) mod 2 ^ n"
proof -
  have len: "length out = n" using bits_length [OF assms(1)] .
  note ad = adder_value [OF bits_drop [OF assms(1,3)] bits_take [OF assms(2), of "n - i"]]
  show "bits n (take i out @ mk_adder C (drop i out) (take (length out - i) ms))"
    unfolding len bits_append using ad(1) bits_take [OF assms(1,3)] assms(3)
    by (intro exI [of _ i] exI [of _ "n - i"]) auto
  show "uv (take i out @ mk_adder C (drop i out) (take (length out - i) ms)) = (uv out + 2 ^ i * uv ms) mod 2 ^ n"
    using ad(2) assms(3) upper_add [OF assms(3), of "uv out" "uv ms"]
    by (simp add: uv_append len uv_take uv_drop)
qed

lemma numeral_bits: "is_numeral_loop C i r as = Some v \<Longrightarrow> a \<in> set as \<Longrightarrow> is_true C a = ev a"
proof (induction as arbitrary: i r)
  case (Cons x as)
  have x: "is_true C x = ev x" using Cons.prems(1) is_true_law is_false_law by (auto split: if_splits)
  show ?case
  proof (cases "a = x")
    case False
    with Cons show ?thesis by (auto split: if_splits)
  qed (use x in simp)
qed simp

lemma booth_loop_value:
  assumes "bits n bs" "bits n ms" "(uv bs + uv ms) mod 2 ^ n = 0"
    and "\<forall>a \<in> set as. is_true C a = ev a" "i + length as = n" "bits n out"
    and "int (uv out) mod 2 ^ n = int (uv bs) * (A - of_bool prev * 2 ^ i) mod 2 ^ n"
  shows "bits n (booth_loop C bs ms i prev as out) \<and>
    int (uv (booth_loop C bs ms i prev as out)) mod 2 ^ n = int (uv bs) * (A + 2 ^ i * int (uv as)) mod 2 ^ n"
  using assms(4-)
proof (induction as arbitrary: i prev out A)
  case Nil
  have "int (uv bs) * (A - of_bool prev * 2 ^ n) mod 2 ^ n = int (uv bs) * A mod 2 ^ n"
    by (simp add: right_diff_distrib mod_simps flip: mult.assoc) (simp add: mod_diff_eq [symmetric])
  with Nil show ?case by simp
next
  case (Cons a as)
  let ?now = "is_true C a"
  let ?out = "if ?now \<and> \<not> prev then take i out @ mk_adder C (drop i out) (take (length out - i) ms)
              else if \<not> ?now \<and> prev then take i out @ mk_adder C (drop i out) (take (length out - i) bs)
              else out"
  let ?A = "A + of_bool (ev a) * 2 ^ i"
  have now: "?now = ev a" using Cons.prems(1) by simp
  have i: "i \<le> n" using Cons.prems(2) by simp
  note plus = booth_add [OF Cons.prems(3) assms(1) i] and minus = booth_add [OF Cons.prems(3) assms(2) i]
  have "2 ^ n dvd uv bs + uv ms" using assms(3) by (simp add: mod_eq_0_iff_dvd)
  then obtain q where q: "uv bs + uv ms = 2 ^ n * q" by (elim dvdE)
  then have ms: "int (uv ms) = 2 ^ n * int q - int (uv bs)" by (metis add_diff_cancel_left' of_nat_add of_nat_mult of_nat_numeral of_nat_power)
  have "bits n ?out" using plus(1) minus(1) Cons.prems(3) by simp
  moreover have "int (uv ?out) mod 2 ^ n = int (uv bs) * (?A - of_bool ?now * 2 ^ Suc i) mod 2 ^ n"
  proof -
    let ?B = "int (uv bs)"
    have D: "2 ^ n dvd int (uv out) - ?B * (A - of_bool prev * 2 ^ i)"
      using Cons.prems(4) by (simp add: mod_eq_dvd_iff)
    have "\<exists>e. int (uv ?out) mod 2 ^ n = (int (uv out) - (of_bool ?now - of_bool prev) * ?B * 2 ^ i + 2 ^ n * e) mod 2 ^ n"
    proof (cases "?now = prev")
      case True
      then show ?thesis by (intro exI [of _ 0]) simp
    next
      case False
      show ?thesis
      proof (cases ?now)
        case True
        with False have "int (uv ?out) = (int (uv out) + 2 ^ i * int (uv ms)) mod 2 ^ n"
          using minus(2) by (simp add: zmod_int)
        with True False show ?thesis unfolding ms by (intro exI [of _ "2 ^ i * int q"]) (simp add: algebra_simps)
      next
        case now: False
        with False have "int (uv ?out) = (int (uv out) + 2 ^ i * ?B) mod 2 ^ n"
          using plus(2) by (simp add: zmod_int)
        with now False show ?thesis by (intro exI [of _ 0]) (simp add: algebra_simps)
      qed
    qed
    then obtain e where "int (uv ?out) mod 2 ^ n = (int (uv out) - (of_bool ?now - of_bool prev) * ?B * 2 ^ i + 2 ^ n * e) mod 2 ^ n" ..
    moreover
    have "int (uv out) - (of_bool ?now - of_bool prev) * ?B * 2 ^ i + 2 ^ n * e - ?B * (?A - of_bool ?now * 2 ^ Suc i) =
        int (uv out) - ?B * (A - of_bool prev * 2 ^ i) + 2 ^ n * e"
      unfolding now by (cases "ev a"; cases prev) (simp_all add: algebra_simps)
    with dvd_add [OF D dvd_triv_left [of "2 ^ n" e]] have "2 ^ n dvd int (uv out) - (of_bool ?now - of_bool prev) * ?B * 2 ^ i + 2 ^ n * e - ?B * (?A - of_bool ?now * 2 ^ Suc i)"
      by (simp only:)
    then have "(int (uv out) - (of_bool ?now - of_bool prev) * ?B * 2 ^ i + 2 ^ n * e) mod 2 ^ n = ?B * (?A - of_bool ?now * 2 ^ Suc i) mod 2 ^ n"
      by (simp only: mod_eq_dvd_iff)
    ultimately show ?thesis by (simp only:)
  qed
  ultimately have "bits n (booth_loop C bs ms (Suc i) ?now as ?out) \<and>
    int (uv (booth_loop C bs ms (Suc i) ?now as ?out)) mod 2 ^ n = int (uv bs) * (?A + 2 ^ Suc i * int (uv as)) mod 2 ^ n"
    using Cons.prems by (intro Cons.IH) auto
  moreover have "?A + 2 ^ Suc i * int (uv as) = A + 2 ^ i * int (uv (a # as))" by (simp add: algebra_simps)
  ultimately show ?case by (simp only: booth_loop.simps Let_def)
qed

lemma const_multiplier_value:
  assumes "bits n as" "bits n bs" "mk_const_multiplier C as bs = Some out"
  shows "bits n out \<and> uv out = uv as * uv bs mod 2 ^ n"
proof -
  obtain v where v: "is_numeral C as = Some v" "m_use_bcm C"
    and out: "out = booth_loop C bs (mk_neg C bs) 0 False as (replicate n (mk_false C))"
    using assms(3) bits_length [OF assms(1)]
    by (auto simp: mk_const_multiplier_def mk_const_case_multiplier_def Let_def split: option.splits if_splits)
  have neg: "(uv bs + uv (mk_neg C bs)) mod 2 ^ n = 0"
    unfolding neg_value(2) [OF assms(2)] using uv_less [OF assms(2)] by (simp add: mod_add_right_eq)
  have true: "\<forall>a \<in> set as. is_true C a = ev a"
    using numeral_bits v(1) unfolding is_numeral_def by blast
  have z: "bits n (replicate n (mk_false C))" using bits_replicate false_law by blast
  have "bits n out" "int (uv out) mod 2 ^ n = int (uv bs) * int (uv as) mod 2 ^ n"
    unfolding out
    using booth_loop_value [OF assms(2) neg_value(1) [OF assms(2)] neg true _ z, of 0 0 False] bits_length [OF assms(1)]
    by (simp_all add: uv_replicate_false)
  then have "int (uv out mod 2 ^ n) = int (uv bs * uv as mod 2 ^ n)" by (simp add: zmod_int)
  with \<open>bits n out\<close> uv_less [OF \<open>bits n out\<close>] show ?thesis by (simp only: of_nat_eq_iff mod_less mult.commute)
qed

lemma multiplier_value:
  assumes "bits n as" "bits n bs" "0 < n"
  shows "bits n (mk_multiplier C as bs)" "uv (mk_multiplier C as bs) = uv as * uv bs mod 2 ^ n"
proof -
  have main: "bits n out \<and> uv out = uv x * uv y mod 2 ^ n"
    if x: "bits n x" and y: "bits n y" and nb: "\<And>na. is_numeral C x = Some na \<Longrightarrow> uv y = nb"
      and out: "out = (if is_minus_one C y then mk_neg C x
         else case is_numeral C x of
           Some n_a \<Rightarrow> num2bits C (n_a * nb) (length x)
         | None \<Rightarrow> (case mk_const_multiplier C x y of Some out \<Rightarrow> out
            | None \<Rightarrow> (case mk_const_multiplier C y x of Some out \<Rightarrow> out
               | None \<Rightarrow> if \<not> m_use_wtm C then mk_array_multiplier C x y else mk_wallace_multiplier C x y)))"
    for x y nb out
  proof (cases "is_minus_one C y")
    case True
    then have "uv y = 2 ^ n - 1" using is_minus_one_value [of y] bits_length [OF y] by simp
    then have "uv x * uv y + uv x = uv x * 2 ^ n" by (simp add: algebra_simps)
    then have "(uv x * uv y) mod 2 ^ n = (2 ^ n - uv x) mod 2 ^ n"
    proof -
      have "int (uv x * uv y) - int (2 ^ n - uv x) = 2 ^ n * (int (uv x) - 1)"
        using \<open>uv x * uv y + uv x = uv x * 2 ^ n\<close> uv_less [OF x]
        by (simp add: of_nat_diff algebra_simps flip: of_nat_add of_nat_mult) (simp add: algebra_simps)
      then have "int (uv x * uv y) mod int (2 ^ n) = int (2 ^ n - uv x) mod int (2 ^ n)"
        by (simp add: mod_eq_dvd_iff)
      then show ?thesis by (simp only: of_nat_eq_iff flip: zmod_int)
    qed
    with True neg_value [OF x] out show ?thesis by simp
  next
    case minus: False
    show ?thesis
    proof (cases "is_numeral C x")
      case (Some na)
      with minus out nb num2bits_value(1) [of n "na * nb"] num2bits_value(2) [of "na * nb" n] is_numeral_value [of x na] bits_length [OF x] show ?thesis by simp
    next
      case None
      with minus out const_multiplier_value [OF x y] const_multiplier_value [OF y x]
        array_multiplier_value [OF x y assms(3)] wallace_multiplier_value [OF x y assms(3)]
      show ?thesis by (auto simp: mult.commute split: option.splits if_splits)
    qed
  qed
  have "bits n (mk_multiplier C as bs) \<and> uv (mk_multiplier C as bs) = uv as * uv bs mod 2 ^ n"
  proof (cases "is_numeral C as")
    case None
    then show ?thesis using main [OF assms(1,2), of 0 "mk_multiplier C as bs"] by (simp add: mk_multiplier_def)
  next
    case (Some v)
    then show ?thesis
      using main [OF assms(2,1), of v "mk_multiplier C as bs"] is_numeral_value [OF Some]
      by (simp add: mk_multiplier_def mult.commute)
  qed
  then show "bits n (mk_multiplier C as bs)" "uv (mk_multiplier C as bs) = uv as * uv bs mod 2 ^ n" by blast+
qed

end

end
