(* ===== verification/Circuits_Div.thy ===== *)
theory Circuits_Div
  imports Circuits
begin

text \<open>
  The circuits for division, the signed operations and the overflow checks: what they
  compute, proved from the contract \<open>gates\<close> of the configuration.
\<close>

section \<open>Facts on natural numbers\<close>

lemma highest_bit: "0 < b \<Longrightarrow> \<exists>i. bit b i \<and> b < 2 ^ Suc i" for b :: nat
proof (induction b rule: less_induct)
  case (less b)
  show ?case
  proof (cases "b = 1")
    case True
    then show ?thesis by (intro exI [of _ 0]) (simp add: bit_0)
  next
    case False
    with less.prems have "0 < b div 2" "b div 2 < b" by auto
    with less.IH obtain i where "bit (b div 2) i" "b div 2 < 2 ^ Suc i" by blast
    then show ?thesis by (intro exI [of _ "Suc i"]) (auto simp: bit_Suc)
  qed
qed

lemma bit_le: "bit b i \<Longrightarrow> 2 ^ i \<le> b" for b :: nat
  by (metis bit_take_bit_iff less_irrefl not_le take_bit_nat_eq_self)

lemma top_bit: "a < 2 ^ Suc m \<Longrightarrow> bit a m \<longleftrightarrow> 2 ^ m \<le> a" for a :: nat
proof
  assume "a < 2 ^ Suc m" "2 ^ m \<le> a"
  then have "a div 2 ^ m = 1" by (intro div_nat_eqI) auto
  then show "bit a m" by (simp add: bit_iff_odd)
qed (rule bit_le)

lemma bit_mod_power: "k < m \<Longrightarrow> bit (v mod 2 ^ m) k = bit v k" for v :: nat
  by (simp add: bit_take_bit_iff flip: take_bit_eq_mod)

lemma clear_top_bits:
  fixes a :: nat
  assumes "a < 2 ^ n" "i \<le> n" "\<forall>j. 1 \<le> j \<longrightarrow> j \<le> i \<longrightarrow> \<not> bit a (n - j)"
  shows "a < 2 ^ (n - i)"
  using assms(2,3)
proof (induction i)
  case (Suc i)
  then have "a < 2 ^ (n - i)" "\<not> bit a (n - Suc i)" by simp_all
  moreover have "n - i = Suc (n - Suc i)" using Suc.prems(1) by simp
  ultimately show ?case using top_bit [of a "n - Suc i"] by simp
qed (use assms(1) in simp)

text \<open>When no pair of high bits is set, the product has at most one bit more than the factors.\<close>

definition high_pair :: "nat \<Rightarrow> nat \<Rightarrow> nat \<Rightarrow> bool" where
  "high_pair n a b \<longleftrightarrow> (\<exists>i j. 1 \<le> j \<and> j \<le> i \<and> i < n \<and> bit b i \<and> bit a (n - j))"

lemma no_high_pair:
  assumes "\<not> high_pair n a b" "a < 2 ^ n" "b < 2 ^ n" "0 < n"
  shows "b \<le> 1 \<or> (\<exists>i. 1 \<le> i \<and> i < n \<and> a < 2 ^ (n - i) \<and> b < 2 ^ Suc i)"
proof (cases "b = 0")
  case False
  then obtain i where i: "bit b i" "b < 2 ^ Suc i" using highest_bit [of b] by auto
  have "i < n"
  proof (rule ccontr)
    assume "\<not> i < n"
    then have "(2::nat) ^ n \<le> 2 ^ i" by (simp add: power_increasing)
    with bit_le [OF i(1)] assms(3) show False by simp
  qed
  show ?thesis
  proof (cases "i = 0")
    case True
    with i(2) show ?thesis by simp
  next
    case False
    have "\<forall>j. 1 \<le> j \<longrightarrow> j \<le> i \<longrightarrow> \<not> bit a (n - j)"
      using assms(1) i(1) \<open>i < n\<close> unfolding high_pair_def by blast
    with clear_top_bits [OF assms(2), of i] \<open>i < n\<close> False i(2) show ?thesis by auto
  qed
qed simp

lemma high_pair_product:
  assumes "high_pair n a b"
  shows "\<exists>x y. 2 ^ x \<le> a \<and> 2 ^ y \<le> b \<and> n \<le> x + y"
proof -
  from assms obtain i j where "1 \<le> j" "j \<le> i" "i < n" "bit b i" "bit a (n - j)"
    unfolding high_pair_def by blast
  then show ?thesis using bit_le by (intro exI [of _ "n - j"] exI [of _ i]) auto
qed

lemma unsigned_overflow:
  assumes "a < 2 ^ n" "b < 2 ^ n" "0 < n"
  shows "2 ^ n \<le> a * b \<longleftrightarrow> bit (a * b) n \<or> high_pair n a b"
proof
  assume big: "2 ^ n \<le> a * b"
  show "bit (a * b) n \<or> high_pair n a b"
  proof (rule ccontr)
    assume no: "\<not> (bit (a * b) n \<or> high_pair n a b)"
    then have "b \<le> 1 \<or> (\<exists>i. 1 \<le> i \<and> i < n \<and> a < 2 ^ (n - i) \<and> b < 2 ^ Suc i)"
      using no_high_pair [OF _ assms] by blast
    then have "a * b < 2 ^ Suc n"
    proof (elim disjE exE conjE)
      assume "b \<le> 1"
      then have "a * b \<le> a * 1" by (rule mult_le_mono2)
      moreover have "a * 1 < 2 ^ Suc n" using assms(1) by simp
      ultimately show "a * b < 2 ^ Suc n" by (rule le_less_trans)
    next
      fix i
      assume "1 \<le> i" "i < n" "a < 2 ^ (n - i)" "b < 2 ^ Suc i"
      then have "a * b < 2 ^ (n - i) * 2 ^ Suc i" by (intro mult_strict_mono) auto
      with \<open>i < n\<close> show "a * b < 2 ^ Suc n" by (simp flip: power_add power_Suc)
    qed
    with top_bit [of "a * b" n] big no show False by simp
  qed
next
  assume "bit (a * b) n \<or> high_pair n a b"
  then show "2 ^ n \<le> a * b"
  proof
    assume "high_pair n a b"
    then obtain x y where "2 ^ x \<le> a" "2 ^ y \<le> b" "n \<le> x + y" using high_pair_product by blast
    then have "(2::nat) ^ (x + y) \<le> a * b" by (simp add: power_add mult_le_mono)
    moreover have "(2::nat) ^ n \<le> 2 ^ (x + y)" using \<open>n \<le> x + y\<close> by (simp add: power_increasing)
    ultimately show ?thesis by (rule order_trans [rotated])
  qed (rule bit_le)
qed

lemma floor_mod_cases:
  fixes a b :: int
  shows "(if \<bar>a\<bar> mod \<bar>b\<bar> = 0 then 0 else if a < 0 then (if b < 0 then - (\<bar>a\<bar> mod \<bar>b\<bar>) else - (\<bar>a\<bar> mod \<bar>b\<bar>) + b)
      else (if b < 0 then \<bar>a\<bar> mod \<bar>b\<bar> + b else \<bar>a\<bar> mod \<bar>b\<bar>)) = a mod b"
proof (cases "a < 0")
  case a: True
  show ?thesis
  proof (cases "b < 0")
    case True
    have "a mod b = - ((- a) mod (- b))" by (simp add: mod_minus_minus)
    with a True show ?thesis by simp
  next
    case False
    have "a mod b = (if (- a) mod b = 0 then 0 else b - (- a) mod b)" using zmod_zminus1_eq_if [of "- a" b] by simp
    with a False show ?thesis by simp
  qed
next
  case a: False
  show ?thesis
  proof (cases "b < 0")
    case True
    have "a mod b = (if a mod (- b) = 0 then 0 else a mod (- b) + b)" using zmod_zminus2_eq_if [of a "- b"] by simp
    with a True show ?thesis by simp
  qed (use a in simp)
qed

text \<open>
  The signed case at width \<open>N + 1\<close>. \<open>low s\<close> is the number below \<open>2 ^ N\<close> whose bits are those
  of \<open>s\<close>, complemented when \<open>s\<close> is negative.
\<close>

definition low :: "int \<Rightarrow> nat" where
  "low s = nat (if s < 0 then - s - 1 else s)"

lemma low_facts: "\<bar>s\<bar> = int (low s) + of_bool (s < 0)"
  by (simp add: low_def)

lemma power_nat_int: "(2 ^ x \<le> a) \<longleftrightarrow> (2 ^ x \<le> int a)" "(a < 2 ^ x) \<longleftrightarrow> (int a < 2 ^ x)" for a :: nat
  by (metis of_nat_le_iff of_nat_numeral of_nat_power, metis of_nat_less_iff of_nat_numeral of_nat_power)

lemma high_pair_signed:
  assumes "high_pair N (low s) (low t)"
  shows "s < 0 \<longleftrightarrow> t < 0 \<Longrightarrow> 2 ^ N \<le> s * t" "\<not> (s < 0 \<longleftrightarrow> t < 0) \<Longrightarrow> s * t < - (2 ^ N)"
proof -
  from high_pair_product [OF assms] obtain x y where xy: "2 ^ x \<le> int (low s)" "2 ^ y \<le> int (low t)" "N \<le> x + y"
    unfolding power_nat_int by blast
  have "(2::int) ^ N \<le> 2 ^ (x + y)" using xy(3) by (simp add: power_increasing)
  also have "\<dots> \<le> int (low s) * int (low t)" unfolding power_add using xy by (intro mult_mono) auto
  finally have N: "2 ^ N \<le> int (low s) * int (low t)" .
  have pos: "1 \<le> int (low s)" "1 \<le> int (low t)" using xy by (meson one_le_power order_trans one_le_numeral)+
  let ?a = "int (low s)" and ?b = "int (low t)"
  have s: "s = (if s < 0 then - (?a + 1) else ?a)" and t: "t = (if t < 0 then - (?b + 1) else ?b)"
    by (simp_all add: low_def)
  show "2 ^ N \<le> s * t" if "s < 0 \<longleftrightarrow> t < 0"
  proof (cases "s < 0")
    case True
    then have "s * t = ?a * ?b + ?a + ?b + 1" using that by (simp add: low_def algebra_simps)
    with N pos show ?thesis by linarith
  next
    case False
    with that s t N show ?thesis by (simp add: low_def)
  qed
  show "s * t < - (2 ^ N)" if "\<not> (s < 0 \<longleftrightarrow> t < 0)"
  proof (cases "s < 0")
    case True
    then have "s * t = - (?a * ?b) - ?b" using that by (simp add: low_def algebra_simps)
    with N pos show ?thesis by linarith
  next
    case False
    then have "s * t = - (?a * ?b) - ?a" using that by (simp add: low_def algebra_simps)
    with N pos show ?thesis by linarith
  qed
qed

lemma no_high_pair_signed:
  assumes "\<not> high_pair N (low s) (low t)" "low s < 2 ^ N" "low t < 2 ^ N"
  shows "\<bar>s * t\<bar> \<le> 2 ^ Suc N"
proof -
  have bound: "\<bar>s * t\<bar> \<le> 2 ^ x * 2 ^ y" if "low s < 2 ^ x" "low t < 2 ^ y" for x y
  proof -
    have "int (low s) < 2 ^ x" "int (low t) < 2 ^ y" using that power_nat_int(2) by blast+
    moreover have "\<bar>s\<bar> \<le> int (low s) + 1" "\<bar>t\<bar> \<le> int (low t) + 1" by (simp_all add: low_def)
    ultimately have "\<bar>s\<bar> \<le> 2 ^ x" "\<bar>t\<bar> \<le> 2 ^ y" by linarith+
    then show ?thesis unfolding abs_mult by (intro mult_mono) auto
  qed
  show ?thesis
  proof (cases "N = 0")
    case True
    with bound [of 0 0] assms show ?thesis by simp
  next
    case False
    with no_high_pair [OF assms(1-3)] have "low t \<le> 1 \<or> (\<exists>i. 1 \<le> i \<and> i < N \<and> low s < 2 ^ (N - i) \<and> low t < 2 ^ Suc i)" by simp
    then show ?thesis
    proof (elim disjE exE conjE)
      assume "low t \<le> 1"
      with bound [OF assms(2), of 1] show ?thesis by (simp add: mult.commute)
    next
      fix i assume i: "1 \<le> i" "i < N" "low s < 2 ^ (N - i)" "low t < 2 ^ Suc i"
      have "(2::int) ^ (N - i) * 2 ^ Suc i = 2 ^ Suc N" using i(2) by (simp flip: power_add power_Suc)
      with bound [OF i(3,4)] show ?thesis by simp
    qed
  qed
qed

lemma sign_bits_differ:
  fixes p :: int
  assumes "\<bar>p\<bar> \<le> 2 ^ Suc N"
  shows "bit p (Suc N) \<noteq> bit p N \<longleftrightarrow> p < - (2 ^ N) \<or> 2 ^ N \<le> p"
proof -
  define M w where "M = (2::int) ^ N" and "w = p div M"
  have M: "0 < M" "\<bar>p\<bar> \<le> 2 * M" using assms by (simp_all add: M_def)
  have p: "p = M * w + p mod M" "0 \<le> p mod M" "p mod M < M" using M by (simp_all add: w_def)
  have "w \<le> 2 * M div M" unfolding w_def using M by (intro zdiv_mono1) auto
  moreover have "(- 2) * M div M \<le> w" unfolding w_def using M by (intro zdiv_mono1) auto
  ultimately have "w = -2 \<or> w = -1 \<or> w = 0 \<or> w = 1 \<or> w = 2" using M(1) by (auto simp del: mult_minus_left)
  moreover have "p div 2 ^ Suc N = w div 2" unfolding w_def M_def by (simp add: power_Suc2 zdiv_zmult2_eq del: power_Suc)
  then have "bit p N \<longleftrightarrow> odd w" "bit p (Suc N) \<longleftrightarrow> odd (w div 2)"
    unfolding bit_iff_odd by (simp_all add: w_def M_def)
  ultimately show ?thesis using p unfolding M_def [symmetric] by (elim disjE) auto
qed

section \<open>Overflow of an unsigned product\<close>

context gates
begin

lemma overflow_loop:
  assumes "\<And>i. 1 \<le> i \<Longrightarrow> i < n \<Longrightarrow> ok (p i) \<and> ok (q i)" "k \<le> n"
    and "foldl (\<lambda>(acc, v) i. let acc' = g acc (p i); tmp = cfg_and C acc' (q i) in (acc', cfg_or C tmp v))
           (mk_false C, mk_false C) [1..<k] = (acc, v)"
    and "\<And>x y. ok x \<Longrightarrow> ok y \<Longrightarrow> ok (g x y) \<and> ev (g x y) = (ev x \<or> ev y)"
  shows "ok acc \<and> ok v \<and> (ev acc \<longleftrightarrow> (\<exists>j. 1 \<le> j \<and> j < k \<and> ev (p j))) \<and>
    (ev v \<longleftrightarrow> (\<exists>i j. 1 \<le> j \<and> j \<le> i \<and> i < k \<and> ev (q i) \<and> ev (p j)))"
  using assms(2,3)
proof (induction k arbitrary: acc v)
  case 0
  then show ?case using false_law by auto
next
  case (Suc k)
  let ?f = "\<lambda>(acc, v) i. let acc' = g acc (p i); tmp = cfg_and C acc' (q i) in (acc', cfg_or C tmp v)"
  show ?case
  proof (cases "k = 0")
    case True
    with Suc.prems show ?thesis using false_law by auto
  next
    case False
    obtain a1 v1 where s: "foldl ?f (mk_false C, mk_false C) [1..<k] = (a1, v1)" by fastforce
    have IH: "ok a1" "ok v1" "ev a1 \<longleftrightarrow> (\<exists>j. 1 \<le> j \<and> j < k \<and> ev (p j))"
      "ev v1 \<longleftrightarrow> (\<exists>i j. 1 \<le> j \<and> j \<le> i \<and> i < k \<and> ev (q i) \<and> ev (p j))"
      using Suc.IH [OF _ s] Suc.prems(1) by auto
    have "[1..<Suc k] = [1..<k] @ [k]" using False by simp
    then have new: "acc = g a1 (p k)" "v = cfg_or C (cfg_and C (g a1 (p k)) (q k)) v1"
      using s Suc.prems(2) by (auto simp: Let_def)
    have k: "ok (p k)" "ok (q k)" using assms(1) Suc.prems(1) False by auto
    have acc: "ev acc \<longleftrightarrow> (\<exists>j. 1 \<le> j \<and> j < Suc k \<and> ev (p j))"
      unfolding new using assms(4) [OF IH(1) k(1)] IH(3) False
      by (metis One_nat_def Suc_leI less_Suc_eq neq0_conv)
    moreover have "ev v \<longleftrightarrow> ev (q k) \<and> ev acc \<or> ev v1"
      unfolding new using assms(4) [OF IH(1) k(1)] IH(2) k by (auto simp: gate_laws)
    then have "ev v \<longleftrightarrow> (\<exists>i j. 1 \<le> j \<and> j \<le> i \<and> i < Suc k \<and> ev (q i) \<and> ev (p j))"
    proof -
      have "(\<exists>i j. 1 \<le> j \<and> j \<le> i \<and> i < Suc k \<and> ev (q i) \<and> ev (p j)) \<longleftrightarrow>
          (\<exists>j. 1 \<le> j \<and> j \<le> k \<and> ev (q k) \<and> ev (p j)) \<or> (\<exists>i j. 1 \<le> j \<and> j \<le> i \<and> i < k \<and> ev (q i) \<and> ev (p j))"
        unfolding less_Suc_eq by blast
      then show ?thesis using \<open>ev v \<longleftrightarrow> _\<close> unfolding acc IH(4) less_Suc_eq_le by blast
    qed
    moreover have "ok acc" "ok v" unfolding new using assms(4) [OF IH(1) k(1)] IH(2) k by (simp_all add: gate_laws)
    ultimately show ?thesis by blast
  qed
qed

lemma umul_no_overflow_value:
  assumes "bits n as" "bits n bs" "0 < n"
  shows "ok (mk_umul_no_overflow C as bs)" "ev (mk_umul_no_overflow C as bs) \<longleftrightarrow> uv as * uv bs < 2 ^ n"
proof -
  let ?f = "\<lambda>(ovf, v) i. let ovf' = cfg_or C ovf (as ! (n - i)); tmp = cfg_and C ovf' (bs ! i) in (ovf', cfg_or C tmp v)"
  let ?m = "mk_multiplier C (as @ [mk_false C]) (bs @ [mk_false C])"
  have len: "length as = n" "length bs = n" using bits_length assms by blast+
  obtain ovf v where fold: "foldl ?f (mk_false C, mk_false C) [1..<n] = (ovf, v)" by fastforce
  have ext: "bits (Suc n) (as @ [mk_false C])" "bits (Suc n) (bs @ [mk_false C])"
    using assms(1,2) false_law by (simp_all add: bits_snoc)
  have m: "bits (Suc n) ?m" "uv ?m = uv as * uv bs mod 2 ^ Suc n"
    using multiplier_value [OF ext] false_law by (simp_all add: uv_append)
  have top: "ok (?m ! n)" "ev (?m ! n) \<longleftrightarrow> bit (uv as * uv bs) n"
    using bits_nth [OF m(1), of n] bit_uv [of ?m n] bits_length [OF m(1)] bit_mod_power [of n "Suc n" "uv as * uv bs"]
    unfolding m(2) by simp_all
  have oks: "ok (as ! (n - i)) \<and> ok (bs ! i)" if "1 \<le> i" "i < n" for i
    using that bits_nth [OF assms(1)] bits_nth [OF assms(2)] by simp
  have "ok ovf \<and> ok v \<and> (ev ovf \<longleftrightarrow> (\<exists>j. 1 \<le> j \<and> j < n \<and> ev (as ! (n - j)))) \<and>
    (ev v \<longleftrightarrow> (\<exists>i j. 1 \<le> j \<and> j \<le> i \<and> i < n \<and> ev (bs ! i) \<and> ev (as ! (n - j))))"
    using overflow_loop [OF oks order_refl fold] or_law by blast
  moreover have "(1 \<le> j \<and> j \<le> i \<and> i < n \<and> ev (bs ! i) \<and> ev (as ! (n - j))) \<longleftrightarrow>
      (1 \<le> j \<and> j \<le> i \<and> i < n \<and> bit (uv bs) i \<and> bit (uv as) (n - j))" for i j
    using assms(3) by (auto simp: bit_uv len)
  ultimately have v: "ok v" "ev v \<longleftrightarrow> high_pair n (uv as) (uv bs)"
    unfolding high_pair_def by blast+
  have res: "mk_umul_no_overflow C as bs = cfg_not C (cfg_or C (?m ! n) v)"
    using fold by (simp add: mk_umul_no_overflow_def Let_def len)
  show "ok (mk_umul_no_overflow C as bs)" unfolding res using top v by (simp add: gate_laws)
  have "ev (mk_umul_no_overflow C as bs) \<longleftrightarrow> \<not> (bit (uv as * uv bs) n \<or> high_pair n (uv as) (uv bs))"
    unfolding res using top v by (simp add: gate_laws)
  then show "ev (mk_umul_no_overflow C as bs) \<longleftrightarrow> uv as * uv bs < 2 ^ n"
    using unsigned_overflow [OF uv_less [OF assms(1)] uv_less [OF assms(2)] assms(3)] not_less by blast
qed

section \<open>Division\<close>

definition udiv_spec :: "nat \<Rightarrow> nat \<Rightarrow> nat \<Rightarrow> nat" where
  "udiv_spec n x y = (if y = 0 then 2 ^ n - 1 else x div y)"

lemma restoring_step:
  fixes A y x :: nat
  assumes "x < 2"
  defines "p \<equiv> 2 * (A mod y) + x"
  shows "(if y \<le> p then p - y else p) = (2 * A + x) mod y"
    "udiv_spec (Suc i) (2 * A + x) y = of_bool (y \<le> p) + 2 * udiv_spec i A y"
proof -
  have "(if y \<le> p then p - y else p) = (2 * A + x) mod y \<and>
     udiv_spec (Suc i) (2 * A + x) y = of_bool (y \<le> p) + 2 * udiv_spec i A y"
  proof (cases "y = 0")
    case True
    have "(2::nat) * 2 ^ i - 1 = Suc (2 * (2 ^ i - 1))" using one_le_power [of "2::nat" i] by linarith
    with True show ?thesis by (simp add: udiv_spec_def p_def)
  next
    case False
    have "2 * A + x = y * (2 * (A div y)) + p" unfolding p_def by (metis (no_types) add.assoc add_mult_distrib2 mult.left_commute mult_div_mod_eq)
    then have eq: "(2 * A + x) mod y = p mod y" "(2 * A + x) div y = 2 * (A div y) + p div y" using False by simp_all
    have "A mod y < y" using False by simp
    then have "p < 2 * y" using assms(1) unfolding p_def by linarith
    then have "p mod y = (if y \<le> p then p - y else p) \<and> p div y = of_bool (y \<le> p)"
      by (cases "y \<le> p") (auto simp: le_mod_geq le_div_geq)
    with eq False show ?thesis by (simp add: udiv_spec_def)
  qed
  then show "(if y \<le> p then p - y else p) = (2 * A + x) mod y"
    "udiv_spec (Suc i) (2 * A + x) y = of_bool (y \<le> p) + 2 * udiv_spec i A y" by blast+
qed

lemma shift_prefix: "Suc i \<le> n \<Longrightarrow> v div 2 ^ (n - Suc i) = 2 * (v div 2 ^ (n - i)) + of_bool (bit v (n - Suc i))" for v :: nat
proof -
  assume "Suc i \<le> n"
  then have "n - i = Suc (n - Suc i)" by simp
  then have "v div 2 ^ (n - i) = v div 2 ^ (n - Suc i) div 2" by (simp only: power_Suc2 div_mult2_eq)
  moreover have "w = 2 * (w div 2) + of_bool (odd w)" for w :: nat by (metis mod_2_eq_odd mult_div_mod_eq)
  ultimately show ?thesis unfolding bit_iff_odd by metis
qed

definition rem_inv :: "nat \<Rightarrow> 'e list \<Rightarrow> 'e list \<Rightarrow> nat \<Rightarrow> 'e list \<times> 'e list \<Rightarrow> bool" where
  "rem_inv n as bs i = (\<lambda>(q, p). bits n q \<and> bits n p \<and>
     uv (drop (n - i) q) = udiv_spec i (uv as div 2 ^ (n - i)) (uv bs) \<and>
     uv p = (if i < n then 2 * (uv as div 2 ^ (n - i) mod uv bs) + of_bool (bit (uv as) (n - Suc i))
             else uv as mod uv bs))"

lemma ite_bits:
  assumes "bits n t" "bits n p" "ok q" "m \<le> n"
  shows "bits m (map (\<lambda>j. cfg_ite C q (t ! j) (p ! j)) [0..<m])"
    "uv (map (\<lambda>j. cfg_ite C q (t ! j) (p ! j)) [0..<m]) = (if ev q then uv t else uv p) mod 2 ^ m"
proof -
  have oks: "ok (t ! j)" "ok (p ! j)" if "j < m" for j
    using that assms(4) bits_nth [OF assms(1)] bits_nth [OF assms(2)] by auto
  then show "bits m (map (\<lambda>j. cfg_ite C q (t ! j) (p ! j)) [0..<m])"
    using assms(3) by (auto simp: bits_def list_all_length gate_laws)
  show "uv (map (\<lambda>j. cfg_ite C q (t ! j) (p ! j)) [0..<m]) = (if ev q then uv t else uv p) mod 2 ^ m"
    using oks assms(3,4) bits_length [OF assms(1)] bits_length [OF assms(2)]
    by (intro uv_eqI) (auto simp: gate_laws bit_uv)
qed

lemma udiv_urem_step:
  assumes "bits n as" "bits n bs" "i < n" "rem_inv n as bs i st"
  shows "rem_inv n as bs (Suc i) (udiv_urem_step C as bs st i)"
proof -
  obtain q p where st: "st = (q, p)" by (cases st)
  obtain t c where sub: "mk_subtracter C p bs = (t, c)" by fastforce
  let ?A = "uv as div 2 ^ (n - i)" and ?x = "of_bool (bit (uv as) (n - Suc i)) :: nat"
  let ?A' = "uv as div 2 ^ (n - Suc i)"
  have len: "length as = n" using bits_length [OF assms(1)] .
  have inv: "bits n q" "bits n p" "uv (drop (n - i) q) = udiv_spec i ?A (uv bs)" "uv p = 2 * (?A mod uv bs) + ?x"
    using assms(3,4) by (auto simp: rem_inv_def st)
  note sv = subtracter_value [OF inv(2) assms(2) sub]
  have A': "?A' = 2 * ?A + ?x" using shift_prefix [of i n "uv as"] assms(3) by simp
  have x2: "?x < 2" by simp
  note rs = restoring_step [OF x2, where y = "uv bs" and A = ?A, folded inv(4) A']
  define res where "res = (if ev c then uv t else uv p)"
  have res: "res = ?A' mod uv bs" unfolding res_def using sv(4,5) rs(1) by auto
  have qb: "bits n (q[n - i - 1 := c])" using inv(1) sv(2) by (auto simp: bits_def list_all_length nth_list_update)
  have "drop (n - Suc i) (q[n - i - 1 := c]) = c # drop (n - i) q"
    using assms(3) bits_length [OF inv(1)] by (simp add: Cons_nth_drop_Suc [symmetric] Suc_diff_Suc)
  then have quot: "uv (drop (n - Suc i) (q[n - i - 1 := c])) = udiv_spec (Suc i) ?A' (uv bs)"
    using rs(2) [of i] inv(3) sv(4) by simp
  show ?thesis
  proof (cases "i < n - 1")
    case True
    have map: "map (\<lambda>j. cfg_ite C c (t ! (j - 1)) (p ! (j - 1))) [1..<n] = map (\<lambda>j. cfg_ite C c (t ! j) (p ! j)) [0..<n - 1]"
      using True by (intro nth_equalityI) auto
    note ib = ite_bits [OF sv(1) inv(2) sv(2), of "n - 1", folded res_def]
    have "uv as < 2 ^ n" using uv_less [OF assms(1)] .
    then have "?A' < 2 ^ Suc i" using assms(3) by (intro less_mult_imp_div_less) (simp flip: power_add power_Suc)
    also have "(2::nat) ^ Suc i \<le> 2 ^ (n - 1)" using True by (intro power_increasing) auto
    finally have "res < 2 ^ (n - 1)" unfolding res by (meson le_less_trans mod_less_eq_dividend)
    then have "uv (as ! (n - i - 2) # map (\<lambda>j. cfg_ite C c (t ! j) (p ! j)) [0..<n - 1]) = of_bool (bit (uv as) (n - Suc (Suc i))) + 2 * res"
      using ib(2) True by (simp add: bit_uv len numeral_2_eq_2)
    moreover have "ok (as ! (n - i - 2))" using bits_nth [OF assms(1)] True by simp
    moreover have "udiv_urem_step C as bs st i = (q[n - i - 1 := c], as ! (n - i - 2) # map (\<lambda>j. cfg_ite C c (t ! j) (p ! j)) [0..<n - 1])"
      using True sub map by (simp add: udiv_urem_step_def st len Let_def)
    moreover have "Suc i < n" using True by linarith
    ultimately show ?thesis using qb quot ib(1) res True by (simp add: rem_inv_def)
  next
    case False
    then have "Suc i = n" using assms(3) by simp
    note ib = ite_bits [OF sv(1) inv(2) sv(2) order_refl, folded res_def]
    have "res < 2 ^ n" unfolding res_def using uv_less [OF sv(1)] uv_less [OF inv(2)] by simp
    moreover have "udiv_urem_step C as bs st i = (q[n - i - 1 := c], map (\<lambda>j. cfg_ite C c (t ! j) (p ! j)) [0..<n])"
      using False sub by (simp add: udiv_urem_step_def st len Let_def)
    ultimately show ?thesis using qb quot ib res \<open>Suc i = n\<close> by (auto simp: rem_inv_def)
  qed
qed

lemma udiv_urem_value:
  assumes "bits n as" "bits n bs" "0 < n" "mk_udiv_urem C as bs = (q, r)"
  shows "bits n q" "bits n r" "uv q = udiv_spec n (uv as) (uv bs)" "uv r = uv as mod uv bs"
proof -
  have len: "length as = n" using bits_length [OF assms(1)] .
  let ?st = "(replicate n (mk_false C), as ! (n - 1) # replicate (n - 1) (mk_false C))"
  have "uv as div 2 ^ n = 0" using uv_less [OF assms(1)] by simp
  then have start: "rem_inv n as bs 0 ?st"
    using assms(3) bits_nth [OF assms(1)] false_law
    by (simp add: rem_inv_def bits_replicate uv_replicate_false udiv_spec_def bit_uv len)
  have "rem_inv n as bs k (foldl (udiv_urem_step C as bs) ?st [0..<k])" if "k \<le> n" for k
    using that
  proof (induction k)
    case (Suc k)
    then show ?case using udiv_urem_step [OF assms(1,2), of k] by simp
  qed (use start in simp)
  from this [of n] assms(4) have "rem_inv n as bs n (q, r)" by (simp add: mk_udiv_urem_def len Let_def)
  then show "bits n q" "bits n r" "uv q = udiv_spec n (uv as) (uv bs)" "uv r = uv as mod uv bs"
    by (simp_all add: rem_inv_def)
qed

lemma udiv_value:
  assumes "bits n as" "bits n bs" "0 < n"
  shows "bits n (mk_udiv C as bs)" "uv (mk_udiv C as bs) = udiv_spec n (uv as) (uv bs)"
  using udiv_urem_value [OF assms] by (simp_all add: mk_udiv_def prod_eq_iff)

lemma urem_value:
  assumes "bits n as" "bits n bs" "0 < n"
  shows "bits n (mk_urem C as bs)" "uv (mk_urem C as bs) = uv as mod uv bs"
  using udiv_urem_value [OF assms] by (simp_all add: mk_urem_def prod_eq_iff)

section \<open>Signed operations\<close>

lemma sv_facts:
  assumes "bits n as" "0 < n"
  shows "int (uv as) = sv as mod 2 ^ n" "sv as < 0 \<longleftrightarrow> ev (last as)" "sv as < 2 ^ (n - 1)" "- (2 ^ (n - 1)) \<le> sv as"
    "int (if ev (last as) then 2 ^ n - uv as else uv as) = \<bar>sv as\<bar>" "sv as = int (uv as) - (if ev (last as) then 2 ^ n else 0)"
proof -
  have ne: "map ev as \<noteq> []" "length as = n" "last (map ev as) = ev (last as)"
    using assms by (auto simp: bits_def last_map)
  show "int (uv as) = sv as mod 2 ^ n" using sval_mod [of "map ev as"] ne(2) by (simp add: uv_def sv_def)
  show "sv as < 0 \<longleftrightarrow> ev (last as)" "sv as < 2 ^ (n - 1)" "- (2 ^ (n - 1)) \<le> sv as"
    using sval_range [OF ne(1)] ne(2,3) by (simp_all add: sv_def)
  show "int (if ev (last as) then 2 ^ n - uv as else uv as) = \<bar>sv as\<bar>"
    using sval_abs [OF ne(1)] ne(2,3) by (cases "ev (last as)") (simp_all add: uv_def sv_def)
  show "sv as = int (uv as) - (if ev (last as) then 2 ^ n else 0)"
    using ne by (simp add: sv_def uv_def sval_def)
qed

lemma uv_msb: "bits n as \<Longrightarrow> 0 < n \<Longrightarrow> ev (last as) \<longleftrightarrow> 2 ^ (n - 1) \<le> uv as"
  using bval_msb [of "map ev as"] by (auto simp: uv_def bits_def last_map)

definition mag :: "'e list \<Rightarrow> nat" where
  "mag as = nat \<bar>sv as\<bar>"

lemma mag_pos: "bits n as \<Longrightarrow> 0 < n \<Longrightarrow> \<not> ev (last as) \<Longrightarrow> uv as = mag as"
  using sv_facts(5) [of n as] unfolding mag_def by (metis nat_int)

lemma mag_neg:
  assumes "bits n as" "0 < n" "ev (last as)"
  shows "uv (mk_neg C as) = mag as"
proof -
  have m: "2 ^ n - uv as = mag as" using sv_facts(5) [OF assms(1,2)] assms(3) unfolding mag_def by (metis nat_int)
  have "0 < uv as" using uv_msb [OF assms(1,2)] assms(3) by (meson less_le_trans zero_less_power zero_less_numeral)
  then have "2 ^ n - uv as < 2 ^ n" by simp
  with m show ?thesis unfolding neg_value(2) [OF assms(1)] by simp
qed

lemma mag_le: "bits n as \<Longrightarrow> 0 < n \<Longrightarrow> mag as \<le> 2 ^ (n - 1)"
  using sv_facts(3,4) [of n as] by (auto simp: mag_def nat_le_iff)

lemma multiplexer_value:
  assumes "bits n ts" "bits n es" "ok c"
  shows "bits n (mk_multiplexer C c ts es)" "uv (mk_multiplexer C c ts es) = (if ev c then uv ts else uv es)"
proof -
  have len: "length ts = n" "length es = n" using assms bits_length by blast+
  have map: "mk_multiplexer C c ts es = map (\<lambda>j. cfg_ite C c (ts ! j) (es ! j)) [0..<n]"
    unfolding mk_multiplexer_def using len by (intro nth_equalityI) auto
  show "bits n (mk_multiplexer C c ts es)" "uv (mk_multiplexer C c ts es) = (if ev c then uv ts else uv es)"
    unfolding map using ite_bits [OF assms order_refl] uv_less [OF assms(1)] uv_less [OF assms(2)] by simp_all
qed

lemma abs_value:
  assumes "bits n as" "0 < n"
  shows "bits n (mk_abs C as)" "uv (mk_abs C as) = mag as"
  using neg_value [OF assms(1)] mag_neg [OF assms] mag_pos [OF assms]
    multiplexer_value [OF neg_value(1) [OF assms(1)] assms(1) bits_last [OF assms]] assms(1)
    is_true_law [of "last as"] is_false_law [of "last as"]
  by (auto simp: mk_abs_def Let_def)

definition signed :: "nat \<Rightarrow> bool \<Rightarrow> nat \<Rightarrow> nat" where
  \<comment> \<open>a magnitude with a sign, at width \<open>n\<close>\<close>
  "signed n s v = (if s then (2 ^ n - v) mod 2 ^ n else v)"

lemma signed_int:
  assumes "v < 2 ^ n"
  shows "int (signed n s v) = (if s then - int v else int v) mod 2 ^ n"
proof (cases s)
  case True
  have "int ((2 ^ n - v) mod 2 ^ n) = (2 ^ n - int v) mod 2 ^ n" using assms by (simp add: zmod_int of_nat_diff)
  also have "\<dots> = (- int v) mod 2 ^ n" by (metis add.commute diff_conv_add_uminus mod_add_self1)
  finally show ?thesis using True by (simp add: signed_def)
next
  case False
  have "int v < 2 ^ n" using assms by (metis of_nat_less_iff of_nat_numeral of_nat_power)
  with False show ?thesis by (simp add: signed_def)
qed

lemma sdiv_value:
  assumes "bits n as" "bits n bs" "0 < n"
  shows "bits n (mk_sdiv C as bs)"
    "uv (mk_sdiv C as bs) = signed n (ev (last as) \<noteq> ev (last bs)) (udiv_spec n (mag as) (mag bs))"
proof -
  note na = neg_value(1) [OF assms(1)] mag_neg [OF assms(1,3)] mag_pos [OF assms(1,3)]
  note nb = neg_value(1) [OF assms(2)] mag_neg [OF assms(2,3)] mag_pos [OF assms(2,3)]
  note aa = abs_value [OF assms(1,3)] and ab = abs_value [OF assms(2,3)]
  have ok: "ok (last as)" "ok (last bs)" using bits_last assms by blast+
  have "bits n (mk_sdiv C as bs) \<and>
    uv (mk_sdiv C as bs) = signed n (ev (last as) \<noteq> ev (last bs)) (udiv_spec n (mag as) (mag bs))"
  proof -
    consider (pp) "is_false C (last as)" "is_false C (last bs)"
      | (pn) "is_false C (last as)" "is_true C (last bs)"
      | (np) "is_true C (last as)" "is_false C (last bs)"
      | (nn) "is_true C (last as)" "is_true C (last bs)"
      | (other) "\<not> (is_false C (last as) \<and> is_false C (last bs))" "\<not> (is_false C (last as) \<and> is_true C (last bs))"
        "\<not> (is_true C (last as) \<and> is_false C (last bs))" "\<not> (is_true C (last as) \<and> is_true C (last bs))"
      by blast
    then show ?thesis
    proof cases
      case pp
      with is_false_law udiv_value [OF assms] na(3) nb(3) show ?thesis by (simp add: mk_sdiv_def Let_def signed_def)
    next
      case pn
      then have "\<not> is_false C (last bs)" using is_false_law is_true_law by blast
      with pn is_false_law is_true_law udiv_value [OF assms(1) nb(1) assms(3)] na(3) nb(2) neg_value show ?thesis
        by (simp add: mk_sdiv_def Let_def signed_def)
    next
      case np
      then have "\<not> is_false C (last as)" using is_false_law is_true_law by blast
      with np is_false_law is_true_law udiv_value [OF na(1) assms(2,3)] na(2) nb(3) neg_value show ?thesis
        by (simp add: mk_sdiv_def Let_def signed_def)
    next
      case nn
      then have "\<not> is_false C (last as)" "\<not> is_false C (last bs)" using is_false_law is_true_law by blast+
      with nn is_true_law udiv_value [OF na(1) nb(1) assms(3)] na(2) nb(2) show ?thesis
        by (simp add: mk_sdiv_def Let_def signed_def)
    next
      case other
      let ?q = "mk_udiv C (mk_abs C as) (mk_abs C bs)"
      note q = udiv_value [OF aa(1) ab(1) assms(3)]
      have c: "ok (cfg_iff C (last as) (last bs))" "ev (cfg_iff C (last as) (last bs)) \<longleftrightarrow> ev (last as) = ev (last bs)"
        using ok by (simp_all add: gate_laws)
      have "mk_sdiv C as bs = mk_multiplexer C (cfg_iff C (last as) (last bs)) ?q (mk_neg C ?q)"
        using other unfolding mk_sdiv_def Let_def by argo
      with multiplexer_value [OF q(1) neg_value(1) [OF q(1)] c(1)] neg_value(2) [OF q(1)] q(2) aa(2) ab(2) c(2) show ?thesis
        by (simp add: signed_def)
    qed
  qed
  then show "bits n (mk_sdiv C as bs)"
    "uv (mk_sdiv C as bs) = signed n (ev (last as) \<noteq> ev (last bs)) (udiv_spec n (mag as) (mag bs))" by blast+
qed

lemma log_of_power_value: "log_of_power v = Some k \<Longrightarrow> v = 2 ^ k"
proof (induction v arbitrary: k rule: log_of_power.induct)
  case (1 v)
  have v: "v \<noteq> 0" using "1.prems" log_of_power.simps [of 0] by (intro notI) simp
  show ?case
  proof (cases "v = 1")
    case True
    with "1.prems" log_of_power.simps [of 1] show ?thesis by simp
  next
    case False
    note unfold = log_of_power.simps [of v, unfolded "1.prems" if_not_P [OF v] if_not_P [OF False]]
    from unfold have even: "even v" by (auto split: if_splits)
    with unfold obtain j where j: "log_of_power (v div 2) = Some j" "k = Suc j"
      by (cases "log_of_power (v div 2)") auto
    from "1.IH" [OF v False _ j(1)] even j(2) show ?thesis by (auto elim: evenE)
  qed
qed

lemma zero_extend_value:
  assumes "bits n as"
  shows "bits (n + k) (mk_zero_extend C as k)" "uv (mk_zero_extend C as k) = uv as"
  using assms false_law bits_replicate [of "mk_false C" k]
  by (auto simp: mk_zero_extend_def uv_append uv_replicate_false bits_append)

lemma srem_value:
  assumes "bits n as" "bits n bs" "0 < n"
  shows "bits n (mk_srem C as bs)" "uv (mk_srem C as bs) = signed n (ev (last as)) (mag as mod mag bs)"
proof -
  note na = neg_value(1) [OF assms(1)] mag_neg [OF assms(1,3)] mag_pos [OF assms(1,3)]
  note nb = neg_value(1) [OF assms(2)] mag_neg [OF assms(2,3)] mag_pos [OF assms(2,3)]
  note aa = abs_value [OF assms(1,3)] and ab = abs_value [OF assms(2,3)]
  have ok: "ok (last as)" using bits_last assms by blast
  have "bits n (mk_srem C as bs) \<and> uv (mk_srem C as bs) = signed n (ev (last as)) (mag as mod mag bs)"
  proof -
    consider (pp) "is_false C (last as)" "is_false C (last bs)"
      | (pn) "is_false C (last as)" "is_true C (last bs)"
      | (np) "is_true C (last as)" "is_false C (last bs)"
      | (nn) "is_true C (last as)" "is_true C (last bs)"
      | (other) "\<not> (is_false C (last as) \<and> is_false C (last bs))" "\<not> (is_false C (last as) \<and> is_true C (last bs))"
        "\<not> (is_true C (last as) \<and> is_false C (last bs))" "\<not> (is_true C (last as) \<and> is_true C (last bs))"
      by blast
    then show ?thesis
    proof cases
      case pp
      with is_false_law urem_value [OF assms] na(3) nb(3) show ?thesis by (simp add: mk_srem_def Let_def signed_def)
    next
      case pn
      then have "\<not> is_false C (last bs)" using is_false_law is_true_law by blast
      with pn is_false_law is_true_law urem_value [OF assms(1) nb(1) assms(3)] na(3) nb(2) show ?thesis
        by (simp add: mk_srem_def Let_def signed_def)
    next
      case np
      then have "\<not> is_false C (last as)" using is_false_law is_true_law by blast
      with np is_false_law is_true_law urem_value [OF na(1) assms(2,3)] na(2) nb(3) neg_value show ?thesis
        by (simp add: mk_srem_def Let_def signed_def)
    next
      case nn
      then have "\<not> is_false C (last as)" "\<not> is_false C (last bs)" using is_false_law is_true_law by blast+
      with nn is_true_law urem_value [OF na(1) nb(1) assms(3)] na(2) nb(2) neg_value show ?thesis
        by (simp add: mk_srem_def Let_def signed_def)
    next
      case other
      define u where "u = (case Option.bind (is_numeral C (mk_abs C bs)) log_of_power of
                     Some shift \<Rightarrow> mk_zero_extend C (take shift (mk_abs C as)) (n - shift)
                   | None \<Rightarrow> mk_urem C (mk_abs C as) (mk_abs C bs))"
      have u: "bits n u" "uv u = mag as mod mag bs"
      proof -
        have "bits n u \<and> uv u = mag as mod mag bs"
        proof (cases "Option.bind (is_numeral C (mk_abs C bs)) log_of_power")
          case None
          with urem_value [OF aa(1) ab(1) assms(3)] aa(2) ab(2) show ?thesis by (simp add: u_def)
        next
          case (Some k)
          then obtain v where "is_numeral C (mk_abs C bs) = Some v" "log_of_power v = Some k"
            by (auto simp: bind_eq_Some_conv)
          then have b: "mag bs = 2 ^ k" using is_numeral_value log_of_power_value ab(2) by metis
          moreover have "uv (mk_abs C bs) < 2 ^ n" by (rule uv_less [OF ab(1)])
          ultimately have k: "k < n" using ab(2) by simp
          have "bits k (take k (mk_abs C as))" using bits_take [OF aa(1)] k by simp
          from zero_extend_value [OF this, of "n - k"] Some k b aa(2) show ?thesis
            by (simp add: u_def uv_take)
        qed
        then show "bits n u" "uv u = mag as mod mag bs" by blast+
      qed
      have "mk_srem C as bs = mk_multiplexer C (last as) (mk_neg C u) u"
        using other unfolding mk_srem_def Let_def u_def bits_length [OF assms(1)] by argo
      with multiplexer_value [OF neg_value(1) [OF u(1)] u(1) ok] neg_value(2) [OF u(1)] u(2) show ?thesis
        by (simp add: signed_def)
    qed
  qed
  then show "bits n (mk_srem C as bs)" "uv (mk_srem C as bs) = signed n (ev (last as)) (mag as mod mag bs)" by blast+
qed

lemma eq_value:
  assumes "bits n as" "bits n bs"
  shows "ok (mk_eq C as bs)" "ev (mk_eq C as bs) \<longleftrightarrow> uv as = uv bs"
proof -
  have len: "length as = n" "length bs = n" using assms bits_length by blast+
  have oks: "ok (as ! i)" "ok (bs ! i)" if "i < n" for i using that bits_nth assms by auto
  have all: "list_all ok (map2 (cfg_iff C) as bs)" using oks len by (auto simp: list_all_length gate_laws)
  then show "ok (mk_eq C as bs)" by (simp add: mk_eq_def gate_laws)
  have "ev (mk_eq C as bs) \<longleftrightarrow> (\<forall>i<n. ev (as ! i) = ev (bs ! i))"
    using all oks len by (simp add: mk_eq_def gate_laws) (auto simp: list_all_length gate_laws)
  also have "\<dots> \<longleftrightarrow> map ev as = map ev bs" using len by (auto simp: list_eq_iff_nth_eq)
  also have "\<dots> \<longleftrightarrow> uv as = uv bs" unfolding uv_def using len by (intro bval_inject [symmetric]) simp
  finally show "ev (mk_eq C as bs) \<longleftrightarrow> uv as = uv bs" .
qed

lemma smod_value:
  assumes "bits n as" "bits n bs" "0 < n"
  shows "bits n (mk_smod C as bs)" "int (uv (mk_smod C as bs)) = (sv as mod sv bs) mod 2 ^ n"
proof -
  let ?u = "mk_urem C (mk_abs C as) (mk_abs C bs)"
  have ok: "ok (last as)" "ok (last bs)" using bits_last assms by blast+
  note u = urem_value [OF abs_value(1) [OF assms(1,3)] abs_value(1) [OF assms(2,3)] assms(3),
      unfolded abs_value(2) [OF assms(1,3)] abs_value(2) [OF assms(2,3)]]
  note nu = neg_value [OF u(1)]
  note nub = adder_value [OF nu(1) assms(2)] and ub = adder_value [OF u(1) assms(2)]
  note z = eq_value [OF u(1) num2bits_value(1), of 0]
  note ite1 = multiplexer_value [OF nu(1) nub(1) ok(2)] and ite2 = multiplexer_value [OF ub(1) u(1) ok(2)]
  note body = multiplexer_value [OF ite1(1) ite2(1) ok(1)]
  note res = multiplexer_value [OF u(1) body(1) z(1)]
  have def: "mk_smod C as bs = mk_multiplexer C (mk_eq C ?u (num2bits C 0 n)) ?u
      (mk_multiplexer C (last as) (mk_multiplexer C (last bs) (mk_neg C ?u) (mk_adder C (mk_neg C ?u) bs))
        (mk_multiplexer C (last bs) (mk_adder C ?u bs) ?u))"
    by (simp add: mk_smod_def Let_def bits_length [OF assms(1)])
  show "bits n (mk_smod C as bs)" unfolding def by (rule res(1))
  have val: "uv (mk_smod C as bs) = (if uv ?u = 0 then uv ?u
      else if ev (last as) then (if ev (last bs) then uv (mk_neg C ?u) else uv (mk_adder C (mk_neg C ?u) bs))
      else (if ev (last bs) then uv (mk_adder C ?u bs) else uv ?u))"
    unfolding def res(2) body(2) ite1(2) ite2(2) using z(2) num2bits_value(2) [of 0 n] by simp
  let ?a = "sv as" and ?b = "sv bs" and ?m = "mag as mod mag bs"
  have mag: "int (mag as) = \<bar>?a\<bar>" "int (mag bs) = \<bar>?b\<bar>" by (simp_all add: mag_def)
  have m: "int ?m = \<bar>?a\<bar> mod \<bar>?b\<bar>" "int (uv ?u) = int ?m" using mag u(2) by (simp_all add: zmod_int)
  have lt: "uv ?u < 2 ^ n" using uv_less [OF u(1)] .
  have neg: "int (uv (mk_neg C ?u)) = (- int ?m) mod 2 ^ n"
    using signed_int [of "uv ?u" n True] lt nu(2) u(2) by (simp add: signed_def)
  have nadd: "int (uv (mk_adder C (mk_neg C ?u) bs)) = (- int ?m + ?b) mod 2 ^ n"
    using nub(2) neg sv_facts(1) [OF assms(2,3)] by (simp add: zmod_int mod_simps)
  have add: "int (uv (mk_adder C ?u bs)) = (int ?m + ?b) mod 2 ^ n"
    using ub(2) m(2) sv_facts(1) [OF assms(2,3)] by (simp add: zmod_int mod_simps)
  have pos: "int (uv ?u) = int ?m mod 2 ^ n" using lt m(2) u(2) by (simp flip: zmod_int)
  have sa: "?a < 0 \<longleftrightarrow> ev (last as)" and sb: "?b < 0 \<longleftrightarrow> ev (last bs)"
    using sv_facts(2) [OF assms(1,3)] sv_facts(2) [OF assms(2,3)] by simp_all
  have "int (uv (mk_smod C as bs)) = (if int ?m = 0 then 0 else if ?a < 0 then (if ?b < 0 then - int ?m else - int ?m + ?b)
      else (if ?b < 0 then int ?m + ?b else int ?m)) mod 2 ^ n"
    unfolding val sa sb using neg nadd add pos u(2) by (auto simp flip: of_nat_eq_0_iff)
  also have "(if int ?m = 0 then 0 else if ?a < 0 then (if ?b < 0 then - int ?m else - int ?m + ?b)
      else (if ?b < 0 then int ?m + ?b else int ?m)) = ?a mod ?b"
    unfolding m(1) by (rule floor_mod_cases)
  finally show "int (uv (mk_smod C as bs)) = (sv as mod sv bs) mod 2 ^ n" .
qed

lemma mux4_value:
  assumes "bits n w" "bits n x" "bits n y" "bits n v" "ok a" "ok b"
  shows "uv (mk_multiplexer C a (mk_multiplexer C b w x) (mk_multiplexer C b y v)) =
      (if ev a then (if ev b then uv w else uv x) else (if ev b then uv y else uv v))"
  using multiplexer_value [OF assms(1,2,6)] multiplexer_value [OF assms(3,4,6)]
    multiplexer_value [OF multiplexer_value(1) [OF assms(1,2,6)] multiplexer_value(1) [OF assms(3,4,6)] assms(5)]
  by simp

lemma sdiv_srem_smod_value:
  assumes "bits n as" "bits n bs" "0 < n"
  shows "uv (mk_sdiv_srem_smod C SDIV as bs) = uv (mk_sdiv C as bs)"
    "uv (mk_sdiv_srem_smod C SREM as bs) = uv (mk_srem C as bs)"
proof -
  let ?z = "replicate n (mk_false C)"
  have z: "bits n ?z" using bits_replicate false_law by blast
  have len: "length as = n" using bits_length [OF assms(1)] .
  note na = neg_value(1) [OF assms(1)] and nb = neg_value(1) [OF assms(2)]
  have ok: "ok (last as)" "ok (last bs)" using bits_last assms by blast+
  obtain ppq ppr npq npr pnq pnr nnq nnr where d:
    "mk_udiv_urem C as bs = (ppq, ppr)" "mk_udiv_urem C (mk_neg C as) bs = (npq, npr)"
    "mk_udiv_urem C as (mk_neg C bs) = (pnq, pnr)" "mk_udiv_urem C (mk_neg C as) (mk_neg C bs) = (nnq, nnr)"
    by fastforce
  note pp = udiv_urem_value [OF assms d(1)] and np = udiv_urem_value [OF na assms(2,3) d(2)]
    and pn = udiv_urem_value [OF assms(1) nb assms(3) d(3)] and nn = udiv_urem_value [OF na nb assms(3) d(4)]
  note mux = mux4_value [OF _ _ _ _ ok]
  have known: "ev (last as) \<Longrightarrow> \<not> is_false C (last as)" "\<not> ev (last as) \<Longrightarrow> \<not> is_true C (last as)"
    "ev (last bs) \<Longrightarrow> \<not> is_false C (last bs)" "\<not> ev (last bs) \<Longrightarrow> \<not> is_true C (last bs)"
    using is_false_law is_true_law by blast+
  let ?pp = "\<not> is_true C (last as) \<and> \<not> is_true C (last bs)" and ?np = "\<not> is_false C (last as) \<and> \<not> is_true C (last bs)"
    and ?pn = "\<not> is_true C (last as) \<and> \<not> is_false C (last bs)" and ?nn = "\<not> is_false C (last as) \<and> \<not> is_false C (last bs)"
  have pairs: "(if b then (x, y) else (v, w)) = (if b then x else v, if b then y else w)" for b and x y v w :: "'e list"
    by simp
  have ifif: "(if b then mk_neg C (if b then x else y) else z) = (if b then mk_neg C x else z)" for b and x y z :: "'e list"
    by simp
  have sdiv: "mk_sdiv_srem_smod C SDIV as bs = mk_multiplexer C (last as)
      (mk_multiplexer C (last bs) (if ?nn then nnq else ?z) (if ?np then mk_neg C npq else ?z))
      (mk_multiplexer C (last bs) (if ?pn then mk_neg C pnq else ?z) (if ?pp then ppq else ?z))"
    unfolding mk_sdiv_srem_smod_def Let_def d len pairs prod.case signed_op.case ifif ..
  have srem: "mk_sdiv_srem_smod C SREM as bs = mk_multiplexer C (last as)
      (mk_multiplexer C (last bs) (if ?nn then mk_neg C nnr else ?z) (if ?np then mk_neg C npr else ?z))
      (mk_multiplexer C (last bs) (if ?pn then pnr else ?z) (if ?pp then ppr else ?z))"
    unfolding mk_sdiv_srem_smod_def Let_def d len pairs prod.case signed_op.case ifif ..
  note mags = mag_neg [OF assms(1,3)] mag_pos [OF assms(1,3)] mag_neg [OF assms(2,3)] mag_pos [OF assms(2,3)]
  have pick: "bits n x \<Longrightarrow> bits n (if b then x else ?z)" for b x using z by simp
  have "uv (mk_sdiv_srem_smod C SDIV as bs) = signed n (ev (last as) \<noteq> ev (last bs)) (udiv_spec n (mag as) (mag bs))"
    unfolding sdiv mux [OF pick [OF nn(1)] pick [OF neg_value(1) [OF np(1)]] pick [OF neg_value(1) [OF pn(1)]] pick [OF pp(1)]]
    using known mags pp(3) np(3) pn(3) nn(3) neg_value(2) [OF np(1)] neg_value(2) [OF pn(1)]
    by (cases "ev (last as)"; cases "ev (last bs)") (simp_all add: signed_def)
  then show "uv (mk_sdiv_srem_smod C SDIV as bs) = uv (mk_sdiv C as bs)" using sdiv_value(2) [OF assms] by simp
  have "uv (mk_sdiv_srem_smod C SREM as bs) = signed n (ev (last as)) (mag as mod mag bs)"
    unfolding srem mux [OF pick [OF neg_value(1) [OF nn(2)]] pick [OF neg_value(1) [OF np(2)]] pick [OF pn(2)] pick [OF pp(2)]]
    using known mags pp(4) np(4) pn(4) nn(4) neg_value(2) [OF np(2)] neg_value(2) [OF nn(2)]
    by (cases "ev (last as)"; cases "ev (last bs)") (simp_all add: signed_def)
  then show "uv (mk_sdiv_srem_smod C SREM as bs) = uv (mk_srem C as bs)" using srem_value(2) [OF assms] by simp
qed

text \<open>
  The instance for the modulus does not ask for a remainder of zero: for operands of different
  signs the result is the divisor then.
\<close>

lemma sdiv_srem_smod_modulus:
  assumes "bits n as" "bits n bs" "0 < n"
  shows "int (uv (mk_sdiv_srem_smod C SMOD as bs)) =
    (if (sv as < 0) \<noteq> (sv bs < 0) \<and> sv bs dvd sv as then sv bs else sv as mod sv bs) mod 2 ^ n"
proof -
  let ?z = "replicate n (mk_false C)" and ?m = "mag as mod mag bs" and ?a = "sv as" and ?b = "sv bs"
  have z: "bits n ?z" using bits_replicate false_law by blast
  have len: "length as = n" using bits_length [OF assms(1)] .
  note na = neg_value(1) [OF assms(1)] and nb = neg_value(1) [OF assms(2)]
  have ok: "ok (last as)" "ok (last bs)" using bits_last assms by blast+
  obtain ppr npr pnr nnr where d:
    "snd (mk_udiv_urem C as bs) = ppr" "snd (mk_udiv_urem C (mk_neg C as) bs) = npr"
    "snd (mk_udiv_urem C as (mk_neg C bs)) = pnr" "snd (mk_udiv_urem C (mk_neg C as) (mk_neg C bs)) = nnr"
    by fastforce
  have pp: "bits n ppr" "uv ppr = uv as mod uv bs" and np: "bits n npr" "uv npr = uv (mk_neg C as) mod uv bs"
    and pn: "bits n pnr" "uv pnr = uv as mod uv (mk_neg C bs)" and nn: "bits n nnr" "uv nnr = uv (mk_neg C as) mod uv (mk_neg C bs)"
    using udiv_urem_value(2,4) [OF assms(1,2,3) prod.collapse [symmetric]] udiv_urem_value(2,4) [OF na assms(2,3) prod.collapse [symmetric]]
      udiv_urem_value(2,4) [OF assms(1) nb assms(3) prod.collapse [symmetric]] udiv_urem_value(2,4) [OF na nb assms(3) prod.collapse [symmetric]]
    unfolding d by blast+
  obtain s c where s: "mk_subtracter C bs npr = (s, c)" by fastforce
  note sub = subtracter_value(1,3) [OF assms(2) np(1) s] and add = adder_value [OF assms(2) pn(1)] and neg = neg_value [OF nn(1)]
  have known: "ev (last as) \<Longrightarrow> \<not> is_false C (last as)" "\<not> ev (last as) \<Longrightarrow> \<not> is_true C (last as)"
    "ev (last bs) \<Longrightarrow> \<not> is_false C (last bs)" "\<not> ev (last bs) \<Longrightarrow> \<not> is_true C (last bs)"
    using is_false_law is_true_law by blast+
  let ?pp = "\<not> is_true C (last as) \<and> \<not> is_true C (last bs)" and ?np = "\<not> is_false C (last as) \<and> \<not> is_true C (last bs)"
    and ?pn = "\<not> is_true C (last as) \<and> \<not> is_false C (last bs)" and ?nn = "\<not> is_false C (last as) \<and> \<not> is_false C (last bs)"
  have smod: "mk_sdiv_srem_smod C SMOD as bs = mk_multiplexer C (last as)
      (mk_multiplexer C (last bs) (if ?nn then mk_neg C nnr else ?z) (if ?np then s else ?z))
      (mk_multiplexer C (last bs) (if ?pn then mk_adder C bs pnr else ?z) (if ?pp then ppr else ?z))"
    using d s by (simp add: mk_sdiv_srem_smod_def Let_def len split_def cong: if_cong)
  have pick: "bits n x \<Longrightarrow> bits n (if b then x else ?z)" for b x using z by simp
  have val: "uv (mk_sdiv_srem_smod C SMOD as bs) = (if ev (last as) then (if ev (last bs) then uv (mk_neg C nnr) else uv s)
      else (if ev (last bs) then uv (mk_adder C bs pnr) else uv ppr))"
    unfolding smod mux4_value [OF pick [OF neg(1)] pick [OF sub(1)] pick [OF add(1)] pick [OF pp(1)] ok] using known by auto
  note mags = mag_neg [OF assms(1,3)] mag_pos [OF assms(1,3)] mag_neg [OF assms(2,3)] mag_pos [OF assms(2,3)]
  have sa: "?a < 0 \<longleftrightarrow> ev (last as)" and sb: "?b < 0 \<longleftrightarrow> ev (last bs)" and b: "int (uv bs) = ?b mod 2 ^ n"
    using sv_facts(1,2) [OF assms(1,3)] sv_facts(1,2) [OF assms(2,3)] by simp_all
  have m: "int ?m = \<bar>?a\<bar> mod \<bar>?b\<bar>" by (simp add: mag_def zmod_int)
  have "int (uv (mk_neg C nnr)) = (- int (uv nnr)) mod 2 ^ n"
    using signed_int [OF uv_less [OF nn(1)], of True] neg(2) by (simp add: signed_def)
  moreover have "int (uv s) = (?b - int (uv npr)) mod 2 ^ n"
  proof -
    have "int (2 ^ n - uv npr) = 2 ^ n - int (uv npr)" using uv_less [OF np(1)] by (simp add: of_nat_diff)
    then have "int (uv s) = (?b + (2 ^ n - int (uv npr))) mod 2 ^ n" using sub(2) b by (simp add: zmod_int mod_simps)
    also have "\<dots> = (?b - int (uv npr) + 2 ^ n) mod 2 ^ n" by (simp only: algebra_simps)
    finally show ?thesis by simp
  qed
  moreover have "int (uv (mk_adder C bs pnr)) = (?b + int (uv pnr)) mod 2 ^ n"
    using add(2) b by (simp add: zmod_int mod_simps)
  moreover have "int ?m mod 2 ^ n = int ?m" if "\<not> ev (last as)" "\<not> ev (last bs)"
    using uv_less [OF pp(1)] pp(2) mags(2) [OF that(1)] mags(4) [OF that(2)] by (simp flip: zmod_int)
  ultimately have "int (uv (mk_sdiv_srem_smod C SMOD as bs)) =
      (if ?a < 0 then (if ?b < 0 then - int ?m else ?b - int ?m) else (if ?b < 0 then ?b + int ?m else int ?m)) mod 2 ^ n"
    unfolding val sa sb using mags pp(2) np(2) pn(2) nn(2) by (cases "ev (last as)"; cases "ev (last bs)") simp_all
  also have "(if ?a < 0 then (if ?b < 0 then - int ?m else ?b - int ?m) else (if ?b < 0 then ?b + int ?m else int ?m)) =
      (if (?a < 0) \<noteq> (?b < 0) \<and> \<bar>?a\<bar> mod \<bar>?b\<bar> = 0 then ?b else ?a mod ?b)"
    unfolding m floor_mod_cases [of ?a ?b, symmetric] by simp
  also have "\<bar>?a\<bar> mod \<bar>?b\<bar> = 0 \<longleftrightarrow> ?b dvd ?a" by (simp flip: dvd_eq_mod_eq_0)
  finally show ?thesis .
qed

section \<open>Overflow of a signed product\<close>

lemma bval_map_Not: "bval (map Not xs) = 2 ^ length xs - 1 - bval xs"
proof -
  have "Suc (bval (map Not xs) + bval xs) = 2 ^ length xs"
  proof (induction xs)
    case (Cons x xs)
    then show ?case by (cases x) auto
  qed simp
  then show ?thesis by simp
qed

lemma low_bits:
  assumes "bits (Suc N) as"
  shows "low (sv as) = bval (map (\<lambda>a. ev (last as) \<noteq> ev a) (butlast as))" "low (sv as) < 2 ^ N"
    "i < N \<Longrightarrow> bit (low (sv as)) i \<longleftrightarrow> ev (last as) \<noteq> ev (as ! i)"
proof -
  have len: "length (butlast as) = N" "as \<noteq> []" using assms by (auto simp: bits_def)
  let ?b = "bval (map ev (butlast as))"
  have b: "?b < 2 ^ N" using bval_less [of "map ev (butlast as)"] len(1) by simp
  then have bi: "int ?b < 2 ^ N" using power_nat_int(2) by blast
  have "uv as = ?b + of_bool (ev (last as)) * 2 ^ N"
    using bval_last [of "map ev as"] len assms by (simp add: uv_def last_map map_butlast bits_def)
  then have sv: "sv as = int ?b - (if ev (last as) then 2 ^ N else 0)"
    using sv_facts(6) [OF assms] by (cases "ev (last as)") simp_all
  show low: "low (sv as) = bval (map (\<lambda>a. ev (last as) \<noteq> ev a) (butlast as))"
  proof (cases "ev (last as)")
    case True
    then have e: "map (\<lambda>a. ev (last as) \<noteq> ev a) (butlast as) = map Not (map ev (butlast as))" by simp
    have "bval (map (\<lambda>a. ev (last as) \<noteq> ev a) (butlast as)) = 2 ^ N - 1 - ?b"
      unfolding e bval_map_Not using len(1) by simp
    moreover have "low (sv as) = nat (2 ^ N - int ?b - 1)" using sv True bi by (simp add: low_def)
    moreover have "2 ^ N - int ?b - 1 = int (2 ^ N - 1 - ?b)" using b by (simp add: of_nat_diff)
    ultimately show ?thesis by (simp only: nat_int)
  next
    case False
    then have "map (\<lambda>a. ev (last as) \<noteq> ev a) (butlast as) = map ev (butlast as)" by simp
    with sv False show ?thesis by (simp add: low_def)
  qed
  show "low (sv as) < 2 ^ N" unfolding low using bval_less [of "map (\<lambda>a. ev (last as) \<noteq> ev a) (butlast as)"] len(1) by simp
  show "i < N \<Longrightarrow> bit (low (sv as)) i \<longleftrightarrow> ev (last as) \<noteq> ev (as ! i)"
    unfolding low bit_bval using len by (simp add: nth_butlast)
qed

lemma sign_extended:
  assumes "bits n as" "0 < n"
  shows "bits (Suc n) (as @ [last as])" "int (uv (as @ [last as])) mod 2 ^ Suc n = sv as mod 2 ^ Suc n"
proof -
  show "bits (Suc n) (as @ [last as])" using assms bits_last by (intro bits_snoc) auto
  have "int (uv (as @ [last as])) = int (uv as) + 2 ^ n * of_bool (ev (last as))"
    using bits_length [OF assms(1)] by (simp add: uv_append)
  also have "\<dots> = sv as + 2 ^ Suc n * of_bool (ev (last as))" using sv_facts(6) [OF assms] by simp
  finally show "int (uv (as @ [last as])) mod 2 ^ Suc n = sv as mod 2 ^ Suc n" by simp
qed

lemma overflow_sign:
  fixes p M :: int
  assumes "0 < M" "same \<Longrightarrow> 0 \<le> p" "\<not> same \<Longrightarrow> p \<le> 0" "h \<Longrightarrow> same \<Longrightarrow> M \<le> p" "h \<Longrightarrow> \<not> same \<Longrightarrow> p < - M"
  shows "\<not> ((is_overflow \<longleftrightarrow> same) \<and> (h \<or> p < - M \<or> M \<le> p)) \<longleftrightarrow> (if is_overflow then p < M else - M \<le> p)"
  using assms by (cases same; cases is_overflow; cases h) auto

lemma smul_core_value:
  assumes "bits n as" "bits n bs" "0 < n"
  shows "ok (mk_smul_no_overflow_core C as bs is_overflow)"
    "ev (mk_smul_no_overflow_core C as bs is_overflow) \<longleftrightarrow>
       (if is_overflow then sv as * sv bs < 2 ^ (n - 1) else - (2 ^ (n - 1)) \<le> sv as * sv bs)"
proof -
  obtain N where N: "n = Suc N" using assms(3) by (cases n) auto
  have len: "length as = n" "length bs = n" using bits_length assms by blast+
  have msb: "as ! N = last as" "bs ! N = last bs" using len N by (metis diff_Suc_1 last_conv_nth length_0_conv old.nat.distinct(2))+
  have okm: "ok (last as)" "ok (last bs)" using bits_last assms by blast+
  let ?m = "mk_multiplier C (as @ [last as]) (bs @ [last bs])" and ?p = "sv as * sv bs"
  note ea = sign_extended [OF assms(1,3)] and eb = sign_extended [OF assms(2,3)]
  note m = multiplier_value [OF ea(1) eb(1)]
  have "int (uv ?m) = int (uv (as @ [last as])) * int (uv (bs @ [last bs])) mod 2 ^ Suc n"
    using m(2) by (simp add: zmod_int)
  also have "\<dots> = ?p mod 2 ^ Suc n" using ea(2) eb(2) by (metis mod_mult_eq)
  finally have prod: "int (uv ?m) = ?p mod 2 ^ Suc n" .
  have bitm: "ok (?m ! k) \<and> (ev (?m ! k) \<longleftrightarrow> bit ?p k)" if "k \<le> n" for k
  proof -
    have "ev (?m ! k) \<longleftrightarrow> bit (uv ?m) k" using bit_uv [of ?m k] bits_length [OF m(1)] that by simp
    also have "\<dots> \<longleftrightarrow> bit (int (uv ?m)) k" by (simp add: bit_of_nat_iff)
    also have "\<dots> \<longleftrightarrow> bit ?p k" unfolding prod take_bit_eq_mod [symmetric] using that by (simp add: bit_take_bit_iff)
    finally show ?thesis using bits_nth [OF m(1), of k] that by simp
  qed
  let ?f = "\<lambda>(acc, v) i. let acc' = cfg_or C (cfg_xor C (last as) (as ! (N - i))) acc;
      tmp = cfg_and C acc' (cfg_xor C (last bs) (bs ! i)) in (acc', cfg_or C tmp v)"
  obtain acc v where fold: "foldl ?f (mk_false C, mk_false C) [1..<N] = (acc, v)" by fastforce
  have oks: "ok (cfg_xor C (last as) (as ! (N - i))) \<and> ok (cfg_xor C (last bs) (bs ! i))" if "1 \<le> i" "i < N" for i
    using that N bits_nth [OF assms(1)] bits_nth [OF assms(2)] okm by (simp add: gate_laws)
  have "ok v \<and> (ev v \<longleftrightarrow> (\<exists>i j. 1 \<le> j \<and> j \<le> i \<and> i < N \<and> ev (cfg_xor C (last bs) (bs ! i)) \<and> ev (cfg_xor C (last as) (as ! (N - j)))))"
    using overflow_loop [OF oks order_refl, where g = "\<lambda>x y. cfg_or C y x" and acc = acc and v = v, OF _ _ fold] or_law by blast
  moreover have "(1 \<le> j \<and> j \<le> i \<and> i < N \<and> ev (cfg_xor C (last bs) (bs ! i)) \<and> ev (cfg_xor C (last as) (as ! (N - j)))) \<longleftrightarrow>
      (1 \<le> j \<and> j \<le> i \<and> i < N \<and> bit (low (sv bs)) i \<and> bit (low (sv as)) (N - j))" for i j
    using low_bits(3) [of N as "N - j"] low_bits(3) [of N bs i] assms(1,2) N okm bits_nth [OF assms(1)] bits_nth [OF assms(2)]
    by (auto simp: gate_laws)
  ultimately have v: "ok v" "ev v \<longleftrightarrow> high_pair N (low (sv as)) (low (sv bs))"
    unfolding high_pair_def by blast+
  define ovf where "ovf = cfg_or C (cfg_xor C (?m ! n) (?m ! N)) v"
  define sign where "sign = (if is_overflow then cfg_iff C (last as) (last bs) else cfg_xor C (last as) (last bs))"
  have ovf: "ok ovf" "ev ovf \<longleftrightarrow> bit ?p (Suc N) \<noteq> bit ?p N \<or> high_pair N (low (sv as)) (low (sv bs))"
    unfolding ovf_def using v bitm [of n] bitm [of N] N by (simp_all add: gate_laws)
  have sign: "ok sign" "ev sign \<longleftrightarrow> (is_overflow \<longleftrightarrow> (sv as < 0 \<longleftrightarrow> sv bs < 0))"
    unfolding sign_def using okm sv_facts(2) [OF assms(1,3)] sv_facts(2) [OF assms(2,3)] by (auto simp: gate_laws)
  have res: "mk_smul_no_overflow_core C as bs is_overflow = cfg_not C (cfg_and C sign ovf)"
    using fold unfolding mk_smul_no_overflow_core_def Let_def len N msb diff_Suc_1 sign_def ovf_def by simp
  show "ok (mk_smul_no_overflow_core C as bs is_overflow)" unfolding res using ovf sign by (simp add: gate_laws)
  have evr: "ev (mk_smul_no_overflow_core C as bs is_overflow) \<longleftrightarrow> \<not> (ev sign \<and> ev ovf)"
    unfolding res using ovf sign by (simp add: gate_laws)
  have lows: "low (sv as) < 2 ^ N" "low (sv bs) < 2 ^ N" using low_bits(2) assms(1,2) N by blast+
  have ovf2: "ev ovf \<longleftrightarrow> high_pair N (low (sv as)) (low (sv bs)) \<or> ?p < - (2 ^ N) \<or> 2 ^ N \<le> ?p"
    using ovf(2) sign_bits_differ [OF no_high_pair_signed [OF _ lows]] by blast
  have psign: "(sv as < 0 \<longleftrightarrow> sv bs < 0) \<Longrightarrow> 0 \<le> ?p" "\<not> (sv as < 0 \<longleftrightarrow> sv bs < 0) \<Longrightarrow> ?p \<le> 0"
    by (auto simp: zero_le_mult_iff mult_le_0_iff)
  note hp = high_pair_signed [of N "sv as" "sv bs"]
  have "(0::int) < 2 ^ N" by simp
  then show "ev (mk_smul_no_overflow_core C as bs is_overflow) \<longleftrightarrow>
       (if is_overflow then sv as * sv bs < 2 ^ (n - 1) else - (2 ^ (n - 1)) \<le> sv as * sv bs)"
    unfolding evr sign(2) ovf2 N diff_Suc_1 using psign hp by (rule overflow_sign)
qed

subsection \<open>Signed quotient and remainder as integers\<close>

lemma int_signed:
  assumes "v < 2 ^ n"
  shows "int (signed n s v) = (if s then - int v else int v) mod 2 ^ n"
proof (cases s)
  case True
  have "int ((2 ^ n - v) mod 2 ^ n) = (2 ^ n - int v) mod 2 ^ n" using assms by (simp add: zmod_int of_nat_diff)
  also have "\<dots> = - int v mod 2 ^ n" by (metis minus_mod_self1)
  finally show ?thesis using True by (simp add: signed_def)
next
  case False
  then have "int v < 2 ^ n" using assms by (metis of_nat_less_iff of_nat_numeral of_nat_power)
  with False show ?thesis by (simp add: signed_def)
qed

lemma sdiv_magnitudes:
  fixes x y :: int
  shows "(if (x < 0) \<noteq> (y < 0) then - (\<bar>x\<bar> div \<bar>y\<bar>) else \<bar>x\<bar> div \<bar>y\<bar>) = x sdiv y"
    "(if x < 0 then - (\<bar>x\<bar> mod \<bar>y\<bar>) else \<bar>x\<bar> mod \<bar>y\<bar>) = x smod y"
  by (auto simp: signed_divide_int_def signed_modulo_int_def sgn_if)

lemma sdiv_int_value:
  assumes "bits n as" "bits n bs" "0 < n"
  shows "int (uv (mk_sdiv C as bs)) =
      (if sv bs = 0 then if sv as < 0 then 1 else - 1 else sv as sdiv sv bs) mod 2 ^ n"
proof -
  let ?a = "sv as" and ?b = "sv bs"
  let ?q = "udiv_spec n (mag as) (mag bs)"
  note sa = sv_facts(2) [OF assms(1,3)] and sb = sv_facts(2) [OF assms(2,3)]
  have p: "(2::nat) ^ (n - 1) < 2 ^ n" using assms(3) by (simp add: power_strict_increasing)
  have "mag as div mag bs \<le> mag as" by (rule div_le_dividend)
  then have "mag as div mag bs < 2 ^ n" using mag_le [OF assms(1,3)] p by linarith
  then have q: "?q < 2 ^ n" by (simp add: udiv_spec_def)
  have "int (uv (mk_sdiv C as bs)) = (if (?a < 0) \<noteq> (?b < 0) then - int ?q else int ?q) mod 2 ^ n"
    unfolding sdiv_value(2) [OF assms] sa sb by (rule int_signed [OF q])
  moreover have "(if (?a < 0) \<noteq> (?b < 0) then - int ?q else int ?q) = ?a sdiv ?b" if "?b \<noteq> 0"
    unfolding sdiv_magnitudes(1) [symmetric] using that by (simp add: udiv_spec_def mag_def nat_div_distrib zdiv_int)
  moreover have "(if (?a < 0) \<noteq> (?b < 0) then - int ?q else int ?q) mod 2 ^ n = (if ?a < 0 then 1 else - 1) mod 2 ^ n" if "?b = 0"
  proof -
    have q0: "int ?q = 2 ^ n - 1" using that by (simp add: udiv_spec_def mag_def of_nat_diff)
    have m: "(- (2 ^ n - 1)) mod 2 ^ n = (1::int) mod 2 ^ n" "(2 ^ n - 1) mod 2 ^ n = (- 1::int) mod 2 ^ n"
      using minus_mod_self2 [of 1 "2 ^ n :: int"] mod_add_self2 [of "- 1" "2 ^ n :: int"] by simp_all
    show ?thesis unfolding q0 using that by (cases "?a < 0") (simp_all only: m that less_irrefl simp_thms if_True if_False)
  qed
  ultimately show ?thesis by simp
qed

lemma srem_int_value:
  assumes "bits n as" "bits n bs" "0 < n"
  shows "int (uv (mk_srem C as bs)) = (sv as smod sv bs) mod 2 ^ n"
proof -
  have p: "(2::nat) ^ (n - 1) < 2 ^ n" using assms(3) by (simp add: power_strict_increasing)
  have "mag as mod mag bs \<le> mag as" by simp
  then have r: "mag as mod mag bs < 2 ^ n" using mag_le [OF assms(1,3)] p by linarith
  have "int (uv (mk_srem C as bs)) = (if sv as < 0 then - int (mag as mod mag bs) else int (mag as mod mag bs)) mod 2 ^ n"
    unfolding srem_value(2) [OF assms] sv_facts(2) [OF assms(1,3)] by (rule int_signed [OF r])
  moreover have "int (mag as mod mag bs) = \<bar>sv as\<bar> mod \<bar>sv bs\<bar>" by (simp add: mag_def zmod_int)
  ultimately show ?thesis unfolding sdiv_magnitudes(2) [symmetric] by (simp only:)
qed

end

end
