(* ===== verification/Circuits_Shift.thy ===== *)
theory Circuits_Shift
  imports Circuits_Div
begin

text \<open>
  The circuits for rotations, shifts, comparisons and the bitwise operations: what they
  compute, proved from the contract \<open>gates\<close> of the configuration.
\<close>

unbundle bit_operations_syntax

section \<open>Rotations\<close>

lemma rotate_left_nth:
  assumes "length as = n" "i < n"
  shows "mk_rotate_left C as k ! i = as ! ((n + i - k mod n) mod n)" "length (mk_rotate_left C as k) = n"
proof -
  define d where "d = k mod n"
  have k: "d < n" using assms by (simp add: d_def)
  let ?hi = "map (\<lambda>i. as ! i) [n - d..<n]" and ?lo = "map (\<lambda>i. as ! i) [0..<n - d]"
  have def: "mk_rotate_left C as k = ?hi @ ?lo" using assms(1) by (simp add: mk_rotate_left_def Let_def d_def)
  have len: "length ?hi = d" "length ?lo = n - d" using k by simp_all
  show "length (mk_rotate_left C as k) = n" unfolding def using len k by simp
  have "mk_rotate_left C as k ! i = as ! ((n + i - d) mod n)"
  proof (cases "i < d")
    case True
    then have "(n + i - d) mod n = n - d + i" using k by simp
    with True k len show ?thesis unfolding def by (simp add: nth_append)
  next
    case False
    then have "(n + i - d) mod n = (n + (i - d)) mod n" by simp
    also have "\<dots> = i - d" using assms(2) by (simp only: mod_add_self1) simp
    finally have "(n + i - d) mod n = i - d" .
    moreover have "(?hi @ ?lo) ! i = as ! (i - d)" using False len assms(2) by (simp add: nth_append)
    ultimately show ?thesis unfolding def by simp
  qed
  then show "mk_rotate_left C as k ! i = as ! ((n + i - k mod n) mod n)" by (simp add: d_def)
qed

lemma rotate_right_nth:
  assumes "length as = n" "i < n"
  shows "mk_rotate_right C as k ! i = as ! ((i + k) mod n)" "length (mk_rotate_right C as k) = n"
proof -
  have k: "k mod n < n" using assms by simp
  have "(n + i - (n - k mod n) mod n) mod n = (i + k) mod n"
  proof (cases "k mod n = 0")
    case True
    then show ?thesis by (simp add: mod_add_right_eq [of i k n, symmetric])
  next
    case False
    then have "(n - k mod n) mod n = n - k mod n" using k by simp
    then have "(n + i - (n - k mod n) mod n) = i + k mod n" using k by simp
    then show ?thesis by (simp add: mod_simps)
  qed
  with rotate_left_nth [OF assms, of C "n - k mod n"] assms(1)
  show "mk_rotate_right C as k ! i = as ! ((i + k) mod n)" "length (mk_rotate_right C as k) = n"
    by (simp_all add: mk_rotate_right_def Let_def)
qed

context gates
begin

lemma is_eq_bits_value:
  assumes "bits n as"
  shows "list_all ok (is_eq_bits C as k)" "list_all ev (is_eq_bits C as k) \<longleftrightarrow> uv as = k mod 2 ^ n"
proof -
  have "list_all ok (is_eq_bits C as k) \<and> (list_all ev (is_eq_bits C as k) \<longleftrightarrow> uv as = k mod 2 ^ n)"
    using assms
  proof (induction as arbitrary: n k)
    case (Cons a as)
    then obtain m where m: "n = Suc m" "ok a" "bits m as" by (cases n) auto
    have "k mod 2 ^ n = k mod 2 + 2 * (k div 2 mod 2 ^ m)" using m(1) by (simp add: mod_mult2_eq)
    moreover have "of_bool x + 2 * y = k mod 2 + 2 * z \<longleftrightarrow> (x \<longleftrightarrow> k mod 2 \<noteq> 0) \<and> y = z" for x y z
      by (cases x; cases "k mod 2 = 0") (auto, presburger+)
    ultimately show ?case using Cons.IH [OF m(3), of "k div 2"] m by (simp add: gate_laws)
  qed simp
  then show "list_all ok (is_eq_bits C as k)" "list_all ev (is_eq_bits C as k) \<longleftrightarrow> uv as = k mod 2 ^ n" by blast+
qed

lemma is_eq_value:
  assumes "bits n as" "k < 2 ^ n"
  shows "ok (mk_is_eq C as k)" "ev (mk_is_eq C as k) \<longleftrightarrow> uv as = k"
  using is_eq_bits_value [OF assms(1), of k] assms(2) by (simp_all add: mk_is_eq_def gate_laws)

lemma ext_rotate_circuit_nth:
  assumes "bits n as" "bits n bs" "i < n"
  shows "length (ext_rotate_circuit C to_left as bs) = n \<and> ok (ext_rotate_circuit C to_left as bs ! i) \<and>
    ev (ext_rotate_circuit C to_left as bs ! i) =
      ev (as ! ((if to_left then n + i - uv bs mod n else i + uv bs mod n) mod n))"
proof -
  let ?m = "mk_urem C bs (num2bits C n n)" and ?src = "\<lambda>j. (if to_left then n + i - j else i + j) mod n"
  let ?f = "\<lambda>out j. cfg_ite C (mk_eqs C ?m ! j) (as ! ?src j) out"
  have n: "0 < n" using assms(3) by simp
  have len: "length as = n" using bits_length [OF assms(1)] .
  have "n < 2 ^ n" by (rule less_exp)
  then have m: "bits n ?m" "uv ?m = uv bs mod n"
    using urem_value [OF assms(2) num2bits_value(1) n, of n] num2bits_value(2) [of n n] by simp_all
  have eqs: "ok (mk_eqs C ?m ! j) \<and> (ev (mk_eqs C ?m ! j) \<longleftrightarrow> uv bs mod n = j)" if "j < n" for j
    using that is_eq_value [OF m(1), of j] less_trans [OF that less_exp] bits_length [OF m(1)] m(2)
    by (simp add: mk_eqs_def)
  have oka: "ok (as ! (x mod n))" for x using bits_nth [OF assms(1)] n by simp
  have loop: "ok (foldl ?f (as ! i) [1..<k]) \<and> ev (foldl ?f (as ! i) [1..<k]) = ev (as ! ?src (if uv bs mod n < k then uv bs mod n else 0))"
    if "1 \<le> k" "k \<le> n" for k
    using that
  proof (induction k rule: nat_induct_at_least)
    case base
    have zero: "(if uv bs mod n < 1 then uv bs mod n else 0) = 0" by simp
    have src: "?src 0 = i" using assms(3) by simp
    have "ok (as ! i)" using oka [of i] assms(3) by simp
    then show ?case unfolding zero src by simp
  next
    case (Suc k)
    have up: "[1..<Suc k] = [1..<k] @ [k]" using Suc.hyps by simp
    have step: "foldl ?f (as ! i) [1..<Suc k] = ?f (foldl ?f (as ! i) [1..<k]) k"
      unfolding up foldl_append by (simp only: foldl.simps)
    have IH: "ok (foldl ?f (as ! i) [1..<k])"
      "ev (foldl ?f (as ! i) [1..<k]) = ev (as ! ?src (if uv bs mod n < k then uv bs mod n else 0))"
      using Suc by simp_all
    have e: "ok (mk_eqs C ?m ! k)" "ev (mk_eqs C ?m ! k) \<longleftrightarrow> uv bs mod n = k" using eqs [of k] Suc.prems by simp_all
    note ite = ite_law [OF e(1) oka IH(1)]
    show ?case unfolding step
      using ite IH(2) e(2) by (cases "uv bs mod n = k") (auto simp: less_Suc_eq)
  qed
  from loop [of n] n have "ok (foldl ?f (as ! i) [1..<n]) \<and> ev (foldl ?f (as ! i) [1..<n]) = ev (as ! ?src (uv bs mod n))" by simp
  then show ?thesis using assms(3) by (cases to_left) (simp_all add: ext_rotate_circuit_def len Let_def)
qed

lemma ext_rotate_nth:
  assumes "bits n as" "bits n bs" "i < n"
  shows "length (mk_ext_rotate_left_right C to_left as bs) = n"
    "ok (mk_ext_rotate_left_right C to_left as bs ! i)"
    "ev (mk_ext_rotate_left_right C to_left as bs ! i) =
      ev (as ! ((if to_left then n + i - uv bs mod n else i + uv bs mod n) mod n))"
proof -
  have len: "length as = n" using bits_length [OF assms(1)] .
  have oka: "ok (as ! (x mod n))" for x using bits_nth [OF assms(1)] assms(3) by simp
  have "length (mk_ext_rotate_left_right C to_left as bs) = n \<and> ok (mk_ext_rotate_left_right C to_left as bs ! i) \<and>
    ev (mk_ext_rotate_left_right C to_left as bs ! i) =
      ev (as ! ((if to_left then n + i - uv bs mod n else i + uv bs mod n) mod n))"
  proof (cases "is_numeral C bs")
    case None
    then show ?thesis using ext_rotate_circuit_nth [OF assms] by (simp add: mk_ext_rotate_left_right_def)
  next
    case (Some k)
    then have "uv bs = k" by (rule is_numeral_value)
    with Some rotate_left_nth [OF len assms(3), of C k] rotate_right_nth [OF len assms(3), of C k] oka
      ext_rotate_circuit_nth [OF assms]
    show ?thesis by (auto simp: mk_ext_rotate_left_right_def mod_simps)
  qed
  then show "length (mk_ext_rotate_left_right C to_left as bs) = n"
    "ok (mk_ext_rotate_left_right C to_left as bs ! i)"
    "ev (mk_ext_rotate_left_right C to_left as bs ! i) =
      ev (as ! ((if to_left then n + i - uv bs mod n else i + uv bs mod n) mod n))" by blast+
qed

lemma sign_extend_value:
  assumes "bits n as" "0 < n"
  shows "bits (n + k) (mk_sign_extend C as k)" "sv (mk_sign_extend C as k) = sv as"
proof -
  show "bits (n + k) (mk_sign_extend C as k)"
    using assms bits_last [OF assms] bits_replicate by (auto simp: mk_sign_extend_def bits_append)
  have "sv (as @ replicate k (last as)) = sv as"
  proof (induction k)
    case (Suc k)
    let ?xs = "as @ replicate k (last as)"
    have xs: "bits (n + k) ?xs" using assms bits_last [OF assms] bits_replicate by (auto simp: bits_append)
    have l: "last ?xs = last as" using assms by (cases k) (auto simp: bits_def)
    have snoc: "as @ replicate (Suc k) (last as) = ?xs @ [last ?xs]" unfolding l by (simp add: replicate_append_same)
    have pos: "0 < n + k" using assms(2) by simp
    have "bits (Suc (n + k)) (?xs @ [last ?xs])" using xs bits_last [OF xs pos] by (rule bits_snoc)
    from sv_facts(6) [OF this] sv_facts(6) [OF xs pos] have "sv (?xs @ [last ?xs]) = sv ?xs"
      using bits_length [OF xs] uv_append [of ?xs "[last ?xs]"] by (cases "ev (last ?xs)") simp_all
    then show ?case unfolding snoc using Suc by simp
  qed simp
  then show "sv (mk_sign_extend C as k) = sv as" by (simp add: mk_sign_extend_def)
qed

section \<open>Shifts\<close>

lemma shl_stage_value:
  assumes "bits n out" "ok b"
  shows "bits n (shl_stage C b s out)" "uv (shl_stage C b s out) = (if ev b then uv out * 2 ^ s mod 2 ^ n else uv out)"
proof -
  have len: "length out = n" using bits_length [OF assms(1)] .
  have oks: "ok (if s \<le> j then out ! (j - s) else mk_false C)" "ok (out ! j)" if "j < n" for j
    using that bits_nth [OF assms(1)] false_law by auto
  show "bits n (shl_stage C b s out)"
    using oks assms(2) by (auto simp: shl_stage_def bits_def list_all_length len gate_laws)
  have nth: "ev (shl_stage C b s out ! j) \<longleftrightarrow> (if ev b then s \<le> j \<and> ev (out ! (j - s)) else ev (out ! j))" if "j < n" for j
    using that oks [OF that] assms(2) false_law by (auto simp: shl_stage_def len gate_laws)
  show "uv (shl_stage C b s out) = (if ev b then uv out * 2 ^ s mod 2 ^ n else uv out)"
  proof (cases "ev b")
    case True
    have "uv (shl_stage C b s out) = (push_bit s (uv out)) mod 2 ^ n"
      using nth True len by (intro uv_eqI) (auto simp: bit_push_bit_iff bit_uv shl_stage_def)
    with True show ?thesis by (simp add: push_bit_eq_mult)
  next
    case False
    have "uv (shl_stage C b s out) = uv out mod 2 ^ n"
      using nth False len by (intro uv_eqI) (auto simp: bit_uv shl_stage_def)
    with False uv_less [OF assms(1)] show ?thesis by simp
  qed
qed

lemma large_value: "list_all ok bs \<Longrightarrow> ok (mk_large C bs) \<and> (ev (mk_large C bs) \<longleftrightarrow> uv bs \<noteq> 0)"
proof -
  have gen: "ok x \<Longrightarrow> list_all ok bs \<Longrightarrow> ok (foldl (cfg_or C) x bs) \<and> (ev (foldl (cfg_or C) x bs) \<longleftrightarrow> ev x \<or> uv bs \<noteq> 0)" for x
    by (induction bs arbitrary: x) (auto simp: gate_laws)
  show "list_all ok bs \<Longrightarrow> ok (mk_large C bs) \<and> (ev (mk_large C bs) \<longleftrightarrow> uv bs \<noteq> 0)"
    using gen [of "mk_false C"] false_law by (simp add: mk_large_def)
qed

lemma bits_appendI: "bits k xs \<Longrightarrow> bits m ys \<Longrightarrow> k + m = n \<Longrightarrow> bits n (xs @ ys)"
  by (auto simp: bits_append)

lemma large_shift: "n \<le> p \<Longrightarrow> u \<noteq> 0 \<Longrightarrow> n \<le> x + p * u" for n :: nat
  by (cases u) auto

lemma shl_stages_value:
  assumes "bits n out" "list_all ok bs" "shift_stages (shl_stage C) i bs out = (out', left)"
  shows "\<exists>used. bs = used @ left \<and> bits n out' \<and> uv out' = uv out * 2 ^ (2 ^ i * uv used) mod 2 ^ n \<and>
    (left \<noteq> [] \<longrightarrow> n \<le> 2 ^ (i + length used))"
  using assms
proof (induction bs arbitrary: i out)
  case Nil
  then show ?case using uv_less [OF Nil(1)] by simp
next
  case (Cons b bs)
  have len: "length out = n" using bits_length [OF Cons.prems(1)] .
  show ?case
  proof (cases "n \<le> 2 ^ i")
    case True
    with Cons.prems(3) len have "out' = out" "left = b # bs" by simp_all
    with True Cons.prems(1) uv_less [OF Cons.prems(1)] show ?thesis by (intro exI [of _ "[]"]) simp
  next
    case False
    let ?o = "shl_stage C b (2 ^ i) out"
    have b: "ok b" "list_all ok bs" using Cons.prems(2) by simp_all
    note st = shl_stage_value [OF Cons.prems(1) b(1), of "2 ^ i"]
    have "shift_stages (shl_stage C) (Suc i) bs ?o = (out', left)" using Cons.prems(3) False len by simp
    from Cons.IH [OF st(1) b(2) this] obtain used where u: "bs = used @ left" "bits n out'"
      "uv out' = uv ?o * 2 ^ (2 ^ Suc i * uv used) mod 2 ^ n" "left \<noteq> [] \<longrightarrow> n \<le> 2 ^ (Suc i + length used)" by blast
    have e: "2 ^ i * uv (b # used) = 2 ^ i * of_bool (ev b) + 2 ^ Suc i * uv used" by (simp add: algebra_simps)
    have "uv out' = uv out * 2 ^ (2 ^ i * uv (b # used)) mod 2 ^ n"
      unfolding u(3) st(2) e power_add by (cases "ev b") (simp_all add: mod_simps mult.assoc)
    with u show ?thesis by (intro exI [of _ "b # used"]) simp
  qed
qed

lemma mask_bits:
  assumes "bits n out" "ok c" "ok fill"
  shows "bits n (map (\<lambda>o'. cfg_ite C c fill o') out)"
    "j < n \<Longrightarrow> ev (map (\<lambda>o'. cfg_ite C c fill o') out ! j) = (if ev c then ev fill else ev (out ! j))"
proof -
  have oks: "ok (out ! j)" if "j < n" for j using that bits_nth [OF assms(1)] by simp
  then show "bits n (map (\<lambda>o'. cfg_ite C c fill o') out)"
    using assms by (auto simp: bits_def list_all_length gate_laws)
  show "j < n \<Longrightarrow> ev (map (\<lambda>o'. cfg_ite C c fill o') out ! j) = (if ev c then ev fill else ev (out ! j))"
    using oks assms bits_length [OF assms(1)] by (auto simp: gate_laws)
qed

lemma shl_value:
  assumes "bits n as" "bits n bs"
  shows "bits n (mk_shl C as bs)" "uv (mk_shl C as bs) = uv as * 2 ^ uv bs mod 2 ^ n"
proof -
  have len: "length as = n" using bits_length [OF assms(1)] .
  have "bits n (mk_shl C as bs) \<and> uv (mk_shl C as bs) = uv as * 2 ^ uv bs mod 2 ^ n"
  proof (cases "is_numeral C bs")
    case (Some k)
    then have k: "uv bs = k" by (rule is_numeral_value)
    let ?m = "min k n"
    have res: "mk_shl C as bs = replicate ?m (mk_false C) @ take (n - ?m) as"
      using Some by (simp add: mk_shl_def len Let_def)
    have b: "bits n (mk_shl C as bs)" unfolding res
      using bits_replicate [of "mk_false C" ?m] bits_take [OF assms(1), of "n - ?m"] false_law
      by (intro bits_appendI) auto
    have "uv (mk_shl C as bs) = push_bit k (uv as) mod 2 ^ n"
      using bits_length [OF b] len false_law unfolding res
      by (intro uv_eqI) (auto simp: nth_append bit_push_bit_iff bit_uv min_def split: if_splits)
    with b k show ?thesis by (simp add: push_bit_eq_mult)
  next
    case None
    obtain out left where st: "shift_stages (shl_stage C) 0 bs as = (out, left)" by fastforce
    have okb: "list_all ok bs" using assms(2) by (simp add: bits_def)
    from shl_stages_value [OF assms(1) okb st] obtain used where u: "bs = used @ left" "bits n out"
      "uv out = uv as * 2 ^ uv used mod 2 ^ n" "left \<noteq> [] \<longrightarrow> n \<le> 2 ^ length used" by auto
    have l: "ok (mk_large C left)" "ev (mk_large C left) \<longleftrightarrow> uv left \<noteq> 0" using large_value okb u(1) by auto
    have res: "mk_shl C as bs = map (\<lambda>o'. cfg_ite C (mk_large C left) (mk_false C) o') out"
      using None st by (simp add: mk_shl_def Let_def)
    have f: "ok (mk_false C)" "\<not> ev (mk_false C)" using false_law by auto
    note mb = mask_bits [OF u(2) l(1) f(1)]
    show ?thesis
    proof (cases "uv left = 0")
      case True
      have "uv (mk_shl C as bs) = uv out mod 2 ^ n"
        unfolding res using bits_length [OF mb(1)] mb(2) l True bits_length [OF u(2)] by (intro uv_eqI) (auto simp: bit_uv)
      with True mb(1) u show ?thesis unfolding res by (simp add: uv_append)
    next
      case False
      have "uv (mk_shl C as bs) = 0 mod 2 ^ n"
        unfolding res using bits_length [OF mb(1)] mb(2) l False f by (intro uv_eqI) auto
      moreover have "n \<le> 2 ^ length used" using u(4) False by auto
      then have "n \<le> uv bs" using large_shift [OF _ False] u(1) by (simp add: uv_append)
      then have "uv as * 2 ^ uv bs mod 2 ^ n = 0" by (simp add: le_imp_power_dvd mod_eq_0_iff_dvd)
      ultimately show ?thesis using mb(1) unfolding res by simp
    qed
  qed
  then show "bits n (mk_shl C as bs)" "uv (mk_shl C as bs) = uv as * 2 ^ uv bs mod 2 ^ n" by blast+
qed

text \<open>A right shift reads the input, continued by the fill bit, at an offset.\<close>

definition cont :: "'e \<Rightarrow> 'e list \<Rightarrow> nat \<Rightarrow> bool" where
  "cont fill as j = (if j < length as then ev (as ! j) else ev fill)"

lemma shr_stage_cont:
  assumes "bits n out" "ok b" "ok fill"
  shows "bits n (shr_stage C fill b s out)" "cont fill (shr_stage C fill b s out) j = cont fill out (j + (if ev b then s else 0))"
proof -
  have len: "length out = n" using bits_length [OF assms(1)] .
  define P where "P = (\<lambda>j. if s + j < n then out ! (j + s) else fill)"
  have oks: "ok (P j)" "ok (out ! j)" if "j < n" for j
    using that bits_nth [OF assms(1)] assms(3) by (auto simp: P_def)
  have def: "shr_stage C fill b s out = map (\<lambda>j. cfg_ite C b (P j) (out ! j)) [0..<n]"
    by (simp add: shr_stage_def len P_def)
  note ite = ite_law [OF assms(2) oks]
  show "bits n (shr_stage C fill b s out)" unfolding def using ite by (simp add: bits_def list_all_length)
  show "cont fill (shr_stage C fill b s out) j = cont fill out (j + (if ev b then s else 0))"
  proof (cases "j < n")
    case True
    then have "ev (shr_stage C fill b s out ! j) = (if ev b then ev (P j) else ev (out ! j))"
      unfolding def using ite by simp
    with True show ?thesis unfolding def by (auto simp: cont_def P_def len add.commute)
  qed (auto simp: cont_def def len)
qed

lemma shr_stages_cont:
  assumes "bits n out" "list_all ok bs" "ok fill" "shift_stages (shr_stage C fill) i bs out = (out', left)"
  shows "\<exists>used. bs = used @ left \<and> bits n out' \<and> (\<forall>j. cont fill out' j = cont fill out (j + 2 ^ i * uv used)) \<and>
    (left \<noteq> [] \<longrightarrow> n \<le> 2 ^ (i + length used))"
  using assms(1,2,4)
proof (induction bs arbitrary: i out)
  case Nil
  then show ?case by simp
next
  case (Cons b bs)
  have len: "length out = n" using bits_length [OF Cons.prems(1)] .
  show ?case
  proof (cases "n \<le> 2 ^ i")
    case True
    with Cons.prems(3) len have "out' = out" "left = b # bs" by simp_all
    with True Cons.prems(1) show ?thesis by (intro exI [of _ "[]"]) simp
  next
    case False
    let ?o = "shr_stage C fill b (2 ^ i) out"
    have b: "ok b" "list_all ok bs" using Cons.prems(2) by simp_all
    note st = shr_stage_cont [OF Cons.prems(1) b(1) assms(3), of "2 ^ i"]
    have "shift_stages (shr_stage C fill) (Suc i) bs ?o = (out', left)" using Cons.prems(3) False len by simp
    from Cons.IH [OF st(1) b(2) this] obtain used where u: "bs = used @ left" "bits n out'"
      "\<forall>j. cont fill out' j = cont fill ?o (j + 2 ^ Suc i * uv used)" "left \<noteq> [] \<longrightarrow> n \<le> 2 ^ (Suc i + length used)" by blast
    have "\<forall>j. cont fill out' j = cont fill out (j + 2 ^ i * uv (b # used))"
      using u(3) st(2) by (auto simp: algebra_simps)
    with u show ?thesis by (intro exI [of _ "b # used"]) simp
  qed
qed

definition shr :: "'e \<Rightarrow> 'e list \<Rightarrow> 'e list \<Rightarrow> 'e list" where
  \<comment> \<open>the common form of the two right shifts\<close>
  "shr fill as bs = (case is_numeral C bs of
      Some k \<Rightarrow> (let n = min k (length as) in drop n as @ replicate n fill)
    | None \<Rightarrow> (let (out_bits, left) = shift_stages (shr_stage C fill) 0 bs as
               in map (\<lambda>o'. cfg_ite C (mk_large C left) fill o') out_bits))"

lemma shr_cont:
  assumes "bits n as" "bits n bs" "ok fill"
  shows "bits n (shr fill as bs)" "j < n \<Longrightarrow> ev (shr fill as bs ! j) = cont fill as (j + uv bs)"
proof -
  have len: "length as = n" using bits_length [OF assms(1)] .
  have "bits n (shr fill as bs) \<and> (\<forall>j<n. ev (shr fill as bs ! j) = cont fill as (j + uv bs))"
  proof (cases "is_numeral C bs")
    case (Some k)
    then have k: "uv bs = k" by (rule is_numeral_value)
    let ?m = "min k n"
    have res: "shr fill as bs = drop ?m as @ replicate ?m fill" using Some by (simp add: shr_def len Let_def)
    have "bits n (drop ?m as @ replicate ?m fill)"
      using bits_drop [OF assms(1), of ?m] bits_replicate [OF assms(3)] by (intro bits_appendI) auto
    moreover have "ev ((drop ?m as @ replicate ?m fill) ! j) = cont fill as (j + k)" if "j < n" for j
      using that len by (auto simp: nth_append cont_def min_def add.commute)
    ultimately show ?thesis unfolding res k by blast
  next
    case None
    obtain out left where st: "shift_stages (shr_stage C fill) 0 bs as = (out, left)" by fastforce
    have okb: "list_all ok bs" using assms(2) by (simp add: bits_def)
    from shr_stages_cont [OF assms(1) okb assms(3) st] obtain used where u: "bs = used @ left" "bits n out"
      "\<And>j. cont fill out j = cont fill as (j + uv used)" "left \<noteq> [] \<longrightarrow> n \<le> 2 ^ length used" by auto
    have l: "ok (mk_large C left)" "ev (mk_large C left) \<longleftrightarrow> uv left \<noteq> 0" using large_value okb u(1) by auto
    have res: "shr fill as bs = map (\<lambda>o'. cfg_ite C (mk_large C left) fill o') out"
      using None st by (simp add: shr_def)
    note mb = mask_bits [OF u(2) l(1) assms(3)]
    have "ev (shr fill as bs ! j) = cont fill as (j + uv bs)" if "j < n" for j
    proof (cases "uv left = 0")
      case True
      then have "ev (shr fill as bs ! j) = cont fill out j" unfolding res using mb(2) [OF that] l that bits_length [OF u(2)] by (simp add: cont_def)
      with u(3) [of j] True u(1) show ?thesis by (simp add: uv_append)
    next
      case False
      have "n \<le> 2 ^ length used" using u(4) False by auto
      then have "n \<le> (j + uv used) + 2 ^ length used * uv left" using False by (rule large_shift)
      then have "n \<le> j + uv bs" using u(1) by (simp add: uv_append)
      then have "cont fill as (j + uv bs) = ev fill" by (simp add: cont_def len)
      moreover have "ev (shr fill as bs ! j) = ev fill" unfolding res using mb(2) [OF that] l False by simp
      ultimately show ?thesis by simp
    qed
    with mb(1) show ?thesis unfolding res by blast
  qed
  then show "bits n (shr fill as bs)" "j < n \<Longrightarrow> ev (shr fill as bs ! j) = cont fill as (j + uv bs)" by blast+
qed

lemma lshr_value:
  assumes "bits n as" "bits n bs"
  shows "bits n (mk_lshr C as bs)" "uv (mk_lshr C as bs) = uv as div 2 ^ uv bs"
proof -
  have eq: "mk_lshr C as bs = shr (mk_false C) as bs" by (simp add: mk_lshr_def shr_def Let_def)
  have f: "ok (mk_false C)" "\<not> ev (mk_false C)" using false_law by auto
  note s = shr_cont [OF assms f(1)]
  show "bits n (mk_lshr C as bs)" unfolding eq by (rule s(1))
  have "uv (mk_lshr C as bs) = drop_bit (uv bs) (uv as) mod 2 ^ n"
    unfolding eq using bits_length [OF s(1)] s(2) f by (intro uv_eqI) (auto simp: bit_drop_bit_eq bit_uv cont_def add.commute)
  also have "\<dots> = uv as div 2 ^ uv bs"
    unfolding drop_bit_eq_div by (rule mod_less) (rule le_less_trans [OF div_le_dividend uv_less [OF assms(1)]])
  finally show "uv (mk_lshr C as bs) = uv as div 2 ^ uv bs" .
qed

lemma bit_sv:
  assumes "bits n as" "0 < n"
  shows "bit (sv as) j = cont (last as) as j"
proof -
  have low: "bit (int (uv as)) i = (i < n \<and> ev (as ! i))" for i
    using bit_uv [of as i] bits_length [OF assms(1)] by (simp add: bit_of_nat_iff)
  show ?thesis
  proof (cases "ev (last as)")
    case False
    then have "sv as = int (uv as)" using sv_facts(6) [OF assms] by simp
    with False low show ?thesis using bits_length [OF assms(1)] by (simp add: cont_def)
  next
    case True
    then have "sv as = int (uv as) - 2 ^ n" using sv_facts(6) [OF assms] by simp
    then have "sv as mod 2 ^ n = int (uv as) mod 2 ^ n" by simp
    have "bit (sv as) j" if "n \<le> j"
    proof -
      have "(2::int) ^ (n - 1) \<le> 2 ^ j" using that by (intro power_increasing) auto
      then have ge: "0 \<le> sv as + 2 ^ j" using sv_facts(4) [OF assms] by linarith
      have "sv as < 0" using sv_facts(2) [OF assms] True by simp
      with ge have "sv as div 2 ^ j = -1" by (intro int_div_pos_eq [of _ _ _ "sv as + 2 ^ j"]) auto
      then show ?thesis by (simp add: bit_iff_odd)
    qed
    moreover have "bit (sv as) j = ev (as ! j)" if "j < n"
    proof -
      have "bit (sv as) j = bit (sv as mod 2 ^ n) j" using that by (simp add: bit_take_bit_iff flip: take_bit_eq_mod)
      also have "\<dots> = bit (int (uv as)) j" using sv_facts(1) [OF assms] by simp
      finally show ?thesis using low that by simp
    qed
    ultimately show ?thesis using True bits_length [OF assms(1)] by (auto simp: cont_def)
  qed
qed

lemma ashr_value:
  assumes "bits n as" "bits n bs" "0 < n"
  shows "bits n (mk_ashr C as bs)" "int (uv (mk_ashr C as bs)) = (sv as div 2 ^ uv bs) mod 2 ^ n"
proof -
  have eq: "mk_ashr C as bs = shr (last as) as bs" by (simp add: mk_ashr_def shr_def Let_def)
  note s = shr_cont [OF assms(1,2) bits_last [OF assms(1,3)]]
  show "bits n (mk_ashr C as bs)" unfolding eq by (rule s(1))
  have "bit (int (uv (mk_ashr C as bs))) j = bit (take_bit n (drop_bit (uv bs) (sv as))) j" for j
    using bit_uv [of "shr (last as) as bs" j] bits_length [OF s(1)] s(2) [of j] bit_sv [OF assms(1,3)]
    by (auto simp: eq bit_of_nat_iff bit_take_bit_iff bit_drop_bit_eq add.commute)
  then have "int (uv (mk_ashr C as bs)) = take_bit n (drop_bit (uv bs) (sv as))" by (intro bit_eqI) blast
  then show "int (uv (mk_ashr C as bs)) = (sv as div 2 ^ uv bs) mod 2 ^ n"
    by (simp add: take_bit_eq_mod drop_bit_eq_div)
qed

section \<open>Comparisons\<close>

lemma bit_less: "of_bool x + 2 * u < of_bool y + 2 * v \<longleftrightarrow> u < v \<or> u = v \<and> \<not> x \<and> y" for u v :: nat
  by (cases x; cases y; simp) presburger+

lemma bit_equal: "of_bool x + 2 * u = of_bool y + 2 * v \<longleftrightarrow> u = v \<and> (x \<longleftrightarrow> y)" for u v :: nat
  by (cases x; cases y; simp) presburger+

lemma ule_loop_value:
  assumes "bits n as" "bits n bs" "ok out"
  shows "ok (ule_loop C as bs out) \<and> (ev (ule_loop C as bs out) \<longleftrightarrow> uv as < uv bs \<or> uv as = uv bs \<and> ev out)"
  using assms
proof (induction as arbitrary: n bs out)
  case Nil
  then show ?case by (auto simp: ule_loop_def bits_def)
next
  case (Cons a as)
  from Cons.prems(1,2) obtain m b bs' where m: "n = Suc m" "bs = b # bs'" by (cases n; cases bs) auto
  with Cons.prems have o: "ok a" "ok b" "bits m as" "bits m bs'" by simp_all
  let ?o = "cfg_ge2 C (cfg_not C a) b out"
  have ok: "ok ?o" "ev ?o \<longleftrightarrow> \<not> ev a \<and> ev b \<or> (ev a = ev b) \<and> ev out"
    using o Cons.prems(3) by (auto simp: gate_laws)
  have step: "ule_loop C (a # as) bs out = ule_loop C as bs' ?o" by (simp add: ule_loop_def m)
  have "uv (a # as) < uv bs \<or> uv (a # as) = uv bs \<and> ev out \<longleftrightarrow> uv as < uv bs' \<or> uv as = uv bs' \<and> ev ?o"
    unfolding ok m uv_Cons bit_less bit_equal by blast
  with Cons.IH [OF o(3,4) ok(1)] step show ?case by simp
qed

lemma ule_value:
  assumes "bits n as" "bits n bs" "0 < n"
  shows "ok (mk_ule C as bs)" "ev (mk_ule C as bs) \<longleftrightarrow> uv as \<le> uv bs"
proof -
  from assms obtain m a as' b bs' where m: "n = Suc m" "as = a # as'" "bs = b # bs'" by (cases n; cases as; cases bs) auto
  with assms have o: "ok a" "ok b" "bits m as'" "bits m bs'" by simp_all
  let ?o = "cfg_or C (cfg_not C a) b"
  have ok: "ok ?o" "ev ?o \<longleftrightarrow> (ev a \<longrightarrow> ev b)" using o by (auto simp: gate_laws)
  have eq: "mk_ule C as bs = ule_loop C as' bs' ?o" by (simp add: mk_ule_def mk_le_def m Let_def)
  note v = ule_loop_value [OF o(3,4) ok(1)]
  show "ok (mk_ule C as bs)" unfolding eq using v by blast
  show "ev (mk_ule C as bs) \<longleftrightarrow> uv as \<le> uv bs"
    unfolding eq using v ok(2) m by (cases "ev a"; cases "ev b") auto
qed

lemma sle_value:
  assumes "bits n as" "bits n bs" "0 < n"
  shows "ok (mk_sle C as bs)" "ev (mk_sle C as bs) \<longleftrightarrow> sv as \<le> sv bs"
proof -
  have okl: "ok (last as)" "ok (last bs)" using bits_last assms by blast+
  let ?a = "last as" and ?b = "last bs"
  let ?o = "cfg_or C (cfg_not C (hd as)) (hd bs)"
  let ?l = "ule_loop C (butlast (tl as)) (butlast (tl bs)) ?o"
  have eq: "mk_sle C as bs = cfg_ge2 C (cfg_not C ?b) ?a ?l" by (simp add: mk_sle_def mk_le_def Let_def)
  have l: "ok ?l \<and> (n = 1 \<and> (ev ?l \<longleftrightarrow> (ev ?a \<longrightarrow> ev ?b)) \<or> n \<noteq> 1 \<and> (ev ?l \<longleftrightarrow> uv (butlast as) \<le> uv (butlast bs)))"
  proof (cases "n = 1")
    case True
    with assms obtain a b where "as = [a]" "bs = [b]" by (auto simp: bits_def length_Suc_conv)
    with okl True show ?thesis by (simp add: ule_loop_def gate_laws)
  next
    case False
    obtain m where n: "n = Suc (Suc m)" using assms(3) False by (cases n; cases "n - 1") auto
    then obtain a a' as' b b' bs' where m: "as = a # a' # as'" "bs = b # b' # bs'"
      using bits_length [OF assms(1)] bits_length [OF assms(2)] by (auto simp: length_Suc_conv)
    have bl: "bits (Suc m) (butlast as)" "bits (Suc m) (butlast bs)"
      using assms(1,2) n by (auto simp: bits_def list_all_iff dest: in_set_butlastD)
    have "mk_ule C (butlast as) (butlast bs) = ?l" by (simp add: mk_ule_def mk_le_def m Let_def)
    with ule_value [OF bl] False show ?thesis by simp
  qed
  show "ok (mk_sle C as bs)" unfolding eq using okl l by (simp add: gate_laws)
  have evr: "ev (mk_sle C as bs) \<longleftrightarrow> \<not> ev ?b \<and> ev ?a \<or> (ev ?a = ev ?b) \<and> ev ?l"
    unfolding eq using okl l by (auto simp: gate_laws)
  have split: "sv xs = int (uv (butlast xs)) - (if ev (last xs) then 2 ^ (n - 1) else 0)" if "bits n xs" for xs
  proof -
    have "uv xs = uv (butlast xs) + of_bool (ev (last xs)) * 2 ^ (n - 1)"
      using bval_last [of "map ev xs"] that assms(3) by (auto simp: uv_def last_map map_butlast bits_def)
    moreover have "(2::int) ^ n = 2 * 2 ^ (n - 1)" using assms(3) by (cases n) auto
    ultimately show ?thesis using sv_facts(6) [OF that assms(3)] by (cases "ev (last xs)") simp_all
  qed
  have one: "n = 1 \<Longrightarrow> uv (butlast xs) = 0" if "bits n xs" for xs using that by (auto simp: bits_def length_Suc_conv)
  show "ev (mk_sle C as bs) \<longleftrightarrow> sv as \<le> sv bs"
  proof (cases "ev ?a = ev ?b")
    case True
    then have "sv as \<le> sv bs \<longleftrightarrow> uv (butlast as) \<le> uv (butlast bs)" using split [OF assms(1)] split [OF assms(2)] by auto
    moreover have "ev (mk_sle C as bs) \<longleftrightarrow> ev ?l" using evr True by simp
    moreover have "ev ?l \<longleftrightarrow> uv (butlast as) \<le> uv (butlast bs)" using l True one [OF assms(1)] one [OF assms(2)] by auto
    ultimately show ?thesis by simp
  next
    case False
    then show ?thesis
      using evr sv_facts(2) [OF assms(1,3)] sv_facts(2) [OF assms(2,3)] by (cases "ev ?a") auto
  qed
qed

section \<open>Bitwise operations\<close>

lemma binary_value:
  assumes "bits n as" "bits n bs" "\<And>a b. ok a \<Longrightarrow> ok b \<Longrightarrow> ok (g a b) \<and> ev (g a b) = f (ev a) (ev b)"
  shows "bits n (mk_binary g as bs)" "i < n \<Longrightarrow> bit (uv (mk_binary g as bs)) i = f (bit (uv as) i) (bit (uv bs) i)"
proof -
  have len: "length as = n" "length bs = n" using bits_length assms(1,2) by blast+
  have oks: "ok (as ! i)" "ok (bs ! i)" if "i < n" for i using that bits_nth assms(1,2) by auto
  show "bits n (mk_binary g as bs)" using oks len assms(3) by (auto simp: mk_binary_def bits_def list_all_length)
  show "i < n \<Longrightarrow> bit (uv (mk_binary g as bs)) i = f (bit (uv as) i) (bit (uv bs) i)"
    using oks len assms(3) by (auto simp: mk_binary_def bit_uv)
qed

lemma bits_high: "bits n as \<Longrightarrow> n \<le> i \<Longrightarrow> \<not> bit (uv as) i"
  by (auto simp: bit_uv bits_def)

lemma bitwise_values:
  assumes "bits n as" "bits n bs"
  shows "uv (mk_binary (cfg_and C) as bs) = uv as AND uv bs" "uv (mk_binary (cfg_or C) as bs) = uv as OR uv bs"
    "uv (mk_binary (cfg_xor C) as bs) = uv as XOR uv bs"
    "int (uv (mk_binary (cfg_iff C) as bs)) = (NOT (int (uv as) XOR int (uv bs))) mod 2 ^ n"
    "int (uv (mk_binary (cfg_nand C) as bs)) = (NOT (int (uv as) AND int (uv bs))) mod 2 ^ n"
    "int (uv (mk_binary (cfg_nor C) as bs)) = (NOT (int (uv as) OR int (uv bs))) mod 2 ^ n"
proof -
  note hi = bits_high [OF assms(1)] bits_high [OF assms(2)]
  note a = binary_value [OF assms, of "cfg_and C" "(\<and>)", OF and_law] and o = binary_value [OF assms, of "cfg_or C" "(\<or>)", OF or_law]
    and x = binary_value [OF assms, of "cfg_xor C" "(\<noteq>)", OF xor_law] and i = binary_value [OF assms, of "cfg_iff C" "(=)", OF iff_law]
    and na = binary_value [OF assms, of "cfg_nand C" "\<lambda>p q. \<not> (p \<and> q)", OF nand_law]
    and no = binary_value [OF assms, of "cfg_nor C" "\<lambda>p q. \<not> (p \<or> q)", OF nor_law]
  show "uv (mk_binary (cfg_and C) as bs) = uv as AND uv bs"
    by (rule bit_eqI) (metis a bit_and_iff bits_high hi(1) not_less)
  show "uv (mk_binary (cfg_or C) as bs) = uv as OR uv bs"
    by (rule bit_eqI) (metis o bit_or_iff bits_high hi not_less)
  show "uv (mk_binary (cfg_xor C) as bs) = uv as XOR uv bs"
    by (rule bit_eqI) (metis x bit_xor_iff bits_high hi not_less)
  have neg: "int (uv r) = (NOT v) mod 2 ^ n" if "bits n r" "\<And>k. k < n \<Longrightarrow> bit (uv r) k = (\<not> bit v k)" for r and v :: int
  proof -
    have "int (uv r) = take_bit n (NOT v)"
    proof (rule bit_eqI)
      fix k
      show "bit (int (uv r)) k = bit (take_bit n (NOT v)) k"
        using that(2) [of k] bits_high [OF that(1), of k] by (cases "k < n") (auto simp: bit_of_nat_iff bit_take_bit_iff bit_not_iff)
    qed
    then show ?thesis by (simp add: take_bit_eq_mod)
  qed
  show "int (uv (mk_binary (cfg_iff C) as bs)) = (NOT (int (uv as) XOR int (uv bs))) mod 2 ^ n"
    using i by (intro neg) (auto simp: bit_xor_iff bit_of_nat_iff)
  show "int (uv (mk_binary (cfg_nand C) as bs)) = (NOT (int (uv as) AND int (uv bs))) mod 2 ^ n"
    using na by (intro neg) (auto simp: bit_and_iff bit_of_nat_iff)
  show "int (uv (mk_binary (cfg_nor C) as bs)) = (NOT (int (uv as) OR int (uv bs))) mod 2 ^ n"
    using no by (intro neg) (auto simp: bit_or_iff bit_of_nat_iff)
qed

lemma not_bits_value:
  assumes "bits n as"
  shows "bits n (mk_not_bits C as)" "uv (mk_not_bits C as) = 2 ^ n - 1 - uv as"
proof -
  have oks: "list_all ok as" "length as = n" using assms by (simp_all add: bits_def)
  then show "bits n (mk_not_bits C as)" by (auto simp: mk_not_bits_def bits_def list_all_length gate_laws)
  have "map ev (mk_not_bits C as) = map Not (map ev as)"
    using oks by (auto simp: mk_not_bits_def list_all_iff gate_laws)
  then show "uv (mk_not_bits C as) = 2 ^ n - 1 - uv as" unfolding uv_def using bval_map_Not [of "map ev as"] oks(2) by (simp only: length_map)
qed

lemma reduction_values:
  assumes "bits n as"
  shows "uv (mk_redand C as) = of_bool (uv as = 2 ^ n - 1)" "uv (mk_redor C as) = of_bool (uv as \<noteq> 0)"
proof -
  have oks: "list_all ok as" "length as = n" using assms by (simp_all add: bits_def)
  have "list_all ev as \<longleftrightarrow> uv as = 2 ^ n - 1"
  proof -
    have "list_all ev as \<longleftrightarrow> map ev as = replicate n True" using oks(2) by (auto simp: list_all_length list_eq_iff_nth_eq)
    also have "\<dots> \<longleftrightarrow> bval (map ev as) = bval (replicate n True)" using oks(2) by (intro bval_inject [symmetric]) simp
    also have "bval (replicate n True) = 2 ^ n - 1" using bval_replicate_True [of n] by simp
    finally show ?thesis by (simp add: uv_def)
  qed
  then show "uv (mk_redand C as) = of_bool (uv as = 2 ^ n - 1)" using oks by (simp add: mk_redand_def gate_laws)
  have "list_ex ev as \<longleftrightarrow> uv as \<noteq> 0" using bval_eq_0_iff [of "map ev as"] by (auto simp: uv_def list_ex_iff list_all_iff)
  then show "uv (mk_redor C as) = of_bool (uv as \<noteq> 0)" using oks by (simp add: mk_redor_def gate_laws)
qed

end

end
