(* ===== verification/Ast.thy ===== *)
theory Ast
  imports Bit_Values "HOL-Library.Signed_Division"
begin

text \<open>
  The terms of the solver that the boolean rewriter works on (ast.h, ast.cpp,
  bv_decl_plugin.cpp): applications of declarations to argument lists and variables. Terms are
  hash-consed in the code, so that equality of pointers is equality of terms here. The
  declarations are those of the basic family, those of the bit-vector family but for the
  conversions from and to integers, the model values, and the uninterpreted functions, which have no plugin. Quantifiers are left out. An
  interpretation gives every term a value, and \<open>well_sorted\<close> is the well-sortedness that the manager
  checks when it makes an application.
\<close>

section \<open>Terms\<close>

datatype srt = BOOL_SORT | BV_SORT nat | USER_SORT nat

datatype (plugins only: code size) bv_op =
    OP_BIT1 | OP_BIT0 | OP_BNEG | OP_BSUB | OP_BMUL
  | OP_BSDIV | OP_BUDIV | OP_BSREM | OP_BUREM | OP_BSMOD
  | OP_BSDIV0 | OP_BUDIV0 | OP_BSREM0 | OP_BUREM0 | OP_BSMOD0
  | OP_BSDIV_I | OP_BUDIV_I | OP_BSREM_I | OP_BUREM_I | OP_BSMOD_I
  | OP_ULEQ | OP_SLEQ | OP_UGEQ | OP_SGEQ | OP_ULT | OP_SLT | OP_UGT | OP_SGT
  | OP_BAND | OP_BOR | OP_BNOT | OP_BXOR | OP_BNAND | OP_BNOR | OP_BXNOR
  | OP_CONCAT | OP_SIGN_EXT nat | OP_ZERO_EXT nat | OP_EXTRACT nat nat | OP_REPEAT nat
  | OP_BREDOR | OP_BREDAND | OP_BCOMP
  | OP_BSHL | OP_BLSHR | OP_BASHR | OP_ROTATE_LEFT nat | OP_ROTATE_RIGHT nat
  | OP_EXT_ROTATE_LEFT | OP_EXT_ROTATE_RIGHT
  | OP_BUMUL_NO_OVFL | OP_BSMUL_NO_OVFL | OP_BSMUL_NO_UDFL
  | OP_BIT2BOOL nat | OP_MKBV

text \<open>
  A declaration is a family and a kind with parameters: the basic operators, those of the
  bit-vectors (numerals, addition and the two gates on their own, the others in \<open>BV_OP\<close>), the
  values of models, and uninterpreted functions by name and range.
\<close>

datatype func_decl =
    OP_TRUE | OP_FALSE | OP_EQ | OP_DISTINCT | OP_ITE | OP_AND | OP_OR | OP_XOR | OP_NOT | OP_IMPLIES
  | OP_BV_NUM nat nat | OP_BADD | OP_CARRY | OP_XOR3 | BV_OP bv_op
  | OP_MODEL_VALUE nat nat
  | UNINTERPRETED nat srt

datatype expr = VAR nat srt | APP func_decl "expr list"

datatype family = basic_family | bv_family | model_value_family | null_family

fun get_family_id :: "func_decl \<Rightarrow> family" where
  "get_family_id (OP_BV_NUM k n) = bv_family"
| "get_family_id OP_BADD = bv_family"
| "get_family_id OP_CARRY = bv_family"
| "get_family_id OP_XOR3 = bv_family"
| "get_family_id (BV_OP opr) = bv_family"
| "get_family_id (OP_MODEL_VALUE i u) = model_value_family"
| "get_family_id (UNINTERPRETED f s) = null_family"
| "get_family_id _ = basic_family"

fun srt_width :: "srt \<Rightarrow> nat" where
  "srt_width (BV_SORT n) = n"
| "srt_width _ = 0"

definition is_bv_pred :: "bv_op \<Rightarrow> bool" where
  "is_bv_pred opr = (case opr of OP_ULEQ \<Rightarrow> True | OP_SLEQ \<Rightarrow> True | OP_UGEQ \<Rightarrow> True | OP_SGEQ \<Rightarrow> True
     | OP_ULT \<Rightarrow> True | OP_SLT \<Rightarrow> True | OP_UGT \<Rightarrow> True | OP_SGT \<Rightarrow> True
     | OP_BUMUL_NO_OVFL \<Rightarrow> True | OP_BSMUL_NO_OVFL \<Rightarrow> True | OP_BSMUL_NO_UDFL \<Rightarrow> True
     | OP_BIT2BOOL i \<Rightarrow> True | _ \<Rightarrow> False)"

definition bv_range_width :: "bv_op \<Rightarrow> srt list \<Rightarrow> nat" where
  "bv_range_width opr ss = (case opr of OP_BIT0 \<Rightarrow> 1 | OP_BIT1 \<Rightarrow> 1 | OP_BREDOR \<Rightarrow> 1 | OP_BREDAND \<Rightarrow> 1 | OP_BCOMP \<Rightarrow> 1
     | OP_CONCAT \<Rightarrow> sum_list (map srt_width ss)
     | OP_SIGN_EXT k \<Rightarrow> srt_width (ss ! 0) + k
     | OP_ZERO_EXT k \<Rightarrow> srt_width (ss ! 0) + k
     | OP_EXTRACT hi lo \<Rightarrow> hi - lo + 1
     | OP_REPEAT k \<Rightarrow> k * srt_width (ss ! 0)
     | OP_MKBV \<Rightarrow> length ss
     | _ \<Rightarrow> srt_width (ss ! 0))"

definition bv_range :: "bv_op \<Rightarrow> srt list \<Rightarrow> srt" where
  "bv_range opr ss = (if is_bv_pred opr then BOOL_SORT else BV_SORT (bv_range_width opr ss))"

definition get_range :: "func_decl \<Rightarrow> srt list \<Rightarrow> srt" where
  "get_range f ss = (case f of OP_ITE \<Rightarrow> ss ! 1 | OP_BADD \<Rightarrow> ss ! 0 | OP_BV_NUM k n \<Rightarrow> BV_SORT n | BV_OP opr \<Rightarrow> bv_range opr ss
     | OP_MODEL_VALUE i u \<Rightarrow> USER_SORT u | UNINTERPRETED g s \<Rightarrow> s | _ \<Rightarrow> BOOL_SORT)"

fun get_sort :: "expr \<Rightarrow> srt" where
  "get_sort (VAR i s) = s"
| "get_sort (APP f as) = get_range f (map get_sort as)"

fun get_args :: "expr \<Rightarrow> expr list" where
  "get_args (VAR i s) = []"
| "get_args (APP f as) = as"

definition get_arg :: "expr \<Rightarrow> nat \<Rightarrow> expr" where
  "get_arg e i = get_args e ! i"

fun is_app_of :: "func_decl \<Rightarrow> expr \<Rightarrow> bool" where
  "is_app_of f (VAR i s) = False"
| "is_app_of f (APP g as) = (g = f)"

section \<open>Recognizers and constructors\<close>

definition m_true :: expr where "m_true = APP OP_TRUE []"

definition m_false :: expr where "m_false = APP OP_FALSE []"

definition is_true :: "expr \<Rightarrow> bool" where "is_true n \<longleftrightarrow> n = m_true"

definition is_false :: "expr \<Rightarrow> bool" where "is_false n \<longleftrightarrow> n = m_false"

definition is_bool :: "expr \<Rightarrow> bool" where "is_bool n \<longleftrightarrow> get_sort n = BOOL_SORT"

text \<open>
  The manager applies a declaration to as many arguments as it has, so that an application of
  \<open>OP_NOT\<close>, \<open>OP_EQ\<close> or \<open>OP_ITE\<close> has one, two or three of them; the recognizers
  say so, as those of the code that bind the arguments do.
\<close>

definition is_not :: "expr \<Rightarrow> bool" where "is_not n \<longleftrightarrow> is_app_of OP_NOT n \<and> length (get_args n) = 1"

definition is_eq :: "expr \<Rightarrow> bool" where "is_eq n \<longleftrightarrow> is_app_of OP_EQ n \<and> length (get_args n) = 2"

definition is_ite :: "expr \<Rightarrow> bool" where "is_ite n \<longleftrightarrow> is_app_of OP_ITE n \<and> length (get_args n) = 3"

definition is_and :: "expr \<Rightarrow> bool" where "is_and n = is_app_of OP_AND n"

definition is_or :: "expr \<Rightarrow> bool" where "is_or n = is_app_of OP_OR n"

definition is_complement_core :: "expr \<Rightarrow> expr \<Rightarrow> bool" where
  "is_complement_core n1 n2 \<longleftrightarrow> is_true n1 \<and> is_false n2 \<or> is_not n1 \<and> get_arg n1 0 = n2"

definition is_complement :: "expr \<Rightarrow> expr \<Rightarrow> bool" where
  "is_complement n1 n2 \<longleftrightarrow> is_complement_core n1 n2 \<or> is_complement_core n2 n1"

definition m_mk_not :: "expr \<Rightarrow> expr" where "m_mk_not a = APP OP_NOT [a]"

definition m_mk_eq :: "expr \<Rightarrow> expr \<Rightarrow> expr" where "m_mk_eq a b = APP OP_EQ [a, b]"

definition m_mk_ite :: "expr \<Rightarrow> expr \<Rightarrow> expr \<Rightarrow> expr" where "m_mk_ite c t e = APP OP_ITE [c, t, e]"

definition m_mk_and :: "expr list \<Rightarrow> expr" where "m_mk_and as = APP OP_AND as"

definition m_mk_or :: "expr list \<Rightarrow> expr" where "m_mk_or as = APP OP_OR as"

definition m_mk_distinct :: "expr list \<Rightarrow> expr" where "m_mk_distinct as = APP OP_DISTINCT as"

section \<open>Values\<close>

definition basic_is_value :: "expr \<Rightarrow> bool" where
  "basic_is_value a \<longleftrightarrow> is_app_of OP_TRUE a \<or> is_app_of OP_FALSE a"

fun bv_is_value :: "expr \<Rightarrow> bool" where
  "bv_is_value (APP (OP_BV_NUM k n) as) = True"
| "bv_is_value _ = False"

fun model_is_value :: "expr \<Rightarrow> bool" where
  "model_is_value (APP (OP_MODEL_VALUE i u) as) = True"
| "model_is_value _ = False"

fun plugin_is_value :: "family \<Rightarrow> expr \<Rightarrow> bool" where
  \<comment> \<open>the plugin of a family; every one of these has \<open>is_unique_value\<close> equal to \<open>is_value\<close>\<close>
  "plugin_is_value basic_family a = basic_is_value a"
| "plugin_is_value bv_family a = bv_is_value a"
| "plugin_is_value model_value_family a = model_is_value a"
| "plugin_is_value null_family a = False"

fun is_value :: "expr \<Rightarrow> bool" where
  "is_value (VAR i s) = False"
| "is_value (APP f as) = plugin_is_value (get_family_id f) (APP f as)"

definition is_unique_value :: "expr \<Rightarrow> bool" where
  "is_unique_value e = is_value e"

fun get_offset_term :: "expr \<Rightarrow> expr \<times> nat" where
  "get_offset_term (APP OP_BADD [APP (OP_BV_NUM k n) as, t]) = (t, k mod 2 ^ n)"
| "get_offset_term a = (a, 0)"

definition default_are_distinct :: "family \<Rightarrow> expr \<Rightarrow> expr \<Rightarrow> bool" where
  "default_are_distinct p a b \<longleftrightarrow> a \<noteq> b \<and> plugin_is_value p a \<and> plugin_is_value p b"

definition bv_are_distinct :: "expr \<Rightarrow> expr \<Rightarrow> bool" where
  "bv_are_distinct a b =
     (let (a_term, a_offset) = get_offset_term a; (b_term, b_offset) = get_offset_term b in
      if a_term = b_term \<and> a_offset \<noteq> b_offset then True else default_are_distinct bv_family a b)"

fun pair_plugin :: "expr \<Rightarrow> expr \<Rightarrow> family option" where
  \<comment> \<open>the plugin that decides about a pair: that of the first application, else of the second;
    \<open>None\<close> when one of the two is not an application\<close>
  "pair_plugin (APP f as) (APP g bs) =
     Some (if get_family_id f = null_family then get_family_id g else get_family_id f)"
| "pair_plugin _ _ = None"

definition are_equal :: "expr \<Rightarrow> expr \<Rightarrow> bool" where
  \<comment> \<open>no plugin of these families overrides the default, equality of pointers\<close>
  "are_equal a b =
     (if a = b then True
      else case pair_plugin a b of None \<Rightarrow> False | Some p \<Rightarrow> p \<noteq> null_family \<and> a = b)"

definition are_distinct :: "expr \<Rightarrow> expr \<Rightarrow> bool" where
  "are_distinct a b =
     (case pair_plugin a b of
        None \<Rightarrow> False
      | Some p \<Rightarrow> (case p of null_family \<Rightarrow> False | bv_family \<Rightarrow> bv_are_distinct a b
                     | _ \<Rightarrow> default_are_distinct p a b))"

section \<open>Meaning\<close>

datatype val = VBool bool | VBv nat nat | VElem nat nat

record interp =
  i_fun :: "nat \<Rightarrow> srt \<Rightarrow> val list \<Rightarrow> nat"
  i_var :: "nat \<Rightarrow> srt \<Rightarrow> nat"

fun truth :: "val \<Rightarrow> bool" where
  "truth (VBool b) = b"
| "truth _ = False"

fun bv_width :: "val \<Rightarrow> nat" where
  "bv_width (VBv n k) = n"
| "bv_width _ = 0"

fun bv_nat :: "val \<Rightarrow> nat" where
  "bv_nat (VBv n k) = k"
| "bv_nat _ = 0"

fun sort_of_val :: "val \<Rightarrow> srt" where
  "sort_of_val (VBool b) = BOOL_SORT"
| "sort_of_val (VBv n k) = BV_SORT n"
| "sort_of_val (VElem u i) = USER_SORT u"

fun in_sort :: "srt \<Rightarrow> nat \<Rightarrow> val" where
  "in_sort BOOL_SORT k = VBool (odd k)"
| "in_sort (BV_SORT n) k = VBv n (k mod 2 ^ n)"
| "in_sort (USER_SORT u) k = VElem u k"

fun xors :: "bool list \<Rightarrow> bool" where
  "xors [] = False"
| "xors (b # bs) = (b \<noteq> xors bs)"

definition in_bv :: "nat \<Rightarrow> int \<Rightarrow> val" where
  "in_bv n k = VBv n (nat (k mod 2 ^ n))"

definition bv_int :: "val \<Rightarrow> int" where
  \<comment> \<open>two's complement\<close>
  "bv_int v = (if 2 * bv_nat v < 2 ^ bv_width v then int (bv_nat v) else int (bv_nat v) - 2 ^ bv_width v)"

definition concat_nat :: "val list \<Rightarrow> nat" where
  \<comment> \<open>the first argument holds the most significant bits\<close>
  "concat_nat vs = foldl (\<lambda>acc v. acc * 2 ^ bv_width v + bv_nat v) 0 vs"

definition rotate_nat :: "nat \<Rightarrow> nat \<Rightarrow> nat \<Rightarrow> nat" where
  \<comment> \<open>bit \<open>i\<close> of the result is bit \<open>i + k\<close> of \<open>x\<close>, modulo the width\<close>
  "rotate_nat n k x = bval (map (\<lambda>i. bit x ((i + k) mod n)) [0..<n])"

definition sdiv_bv :: "int \<Rightarrow> int \<Rightarrow> int" where
  "sdiv_bv x y = (if y = 0 then if x < 0 then 1 else - 1 else x sdiv y)"

definition udiv_bv :: "int \<Rightarrow> int \<Rightarrow> int" where
  "udiv_bv x y = (if y = 0 then - 1 else x div y)"

definition bv_apply :: "bv_op \<Rightarrow> val list \<Rightarrow> val" where
  \<comment> \<open>the operations of SMT-LIB; division by zero has its fixed interpretation\<close>
  "bv_apply opr vs =
     (let n = bv_width (vs ! 0); x = int (bv_nat (vs ! 0)); y = int (bv_nat (vs ! 1));
          sx = bv_int (vs ! 0); sy = bv_int (vs ! 1); ns = map (\<lambda>v. int (bv_nat v)) vs
      in case opr of
        OP_BIT1 \<Rightarrow> in_bv 1 1 | OP_BIT0 \<Rightarrow> in_bv 1 0
      | OP_BNEG \<Rightarrow> in_bv n (- x) | OP_BSUB \<Rightarrow> in_bv n (foldl (-) (hd ns) (tl ns)) | OP_BMUL \<Rightarrow> in_bv n (prod_list ns)
      | OP_BSDIV \<Rightarrow> in_bv n (sdiv_bv sx sy) | OP_BUDIV \<Rightarrow> in_bv n (udiv_bv x y)
      | OP_BSREM \<Rightarrow> in_bv n (sx smod sy) | OP_BUREM \<Rightarrow> in_bv n (x mod y) | OP_BSMOD \<Rightarrow> in_bv n (sx mod sy)
      | OP_BSDIV0 \<Rightarrow> in_bv n (sdiv_bv sx 0) | OP_BUDIV0 \<Rightarrow> in_bv n (udiv_bv x 0)
      | OP_BSREM0 \<Rightarrow> in_bv n x | OP_BUREM0 \<Rightarrow> in_bv n x | OP_BSMOD0 \<Rightarrow> in_bv n x
      | OP_BSDIV_I \<Rightarrow> in_bv n (sdiv_bv sx sy) | OP_BUDIV_I \<Rightarrow> in_bv n (udiv_bv x y)
      | OP_BSREM_I \<Rightarrow> in_bv n (sx smod sy) | OP_BUREM_I \<Rightarrow> in_bv n (x mod y) | OP_BSMOD_I \<Rightarrow> in_bv n (sx mod sy)
      | OP_ULEQ \<Rightarrow> VBool (x \<le> y) | OP_SLEQ \<Rightarrow> VBool (sx \<le> sy) | OP_UGEQ \<Rightarrow> VBool (y \<le> x) | OP_SGEQ \<Rightarrow> VBool (sy \<le> sx)
      | OP_ULT \<Rightarrow> VBool (x < y) | OP_SLT \<Rightarrow> VBool (sx < sy) | OP_UGT \<Rightarrow> VBool (y < x) | OP_SGT \<Rightarrow> VBool (sy < sx)
      | OP_BAND \<Rightarrow> in_bv n (foldl and (hd ns) (tl ns)) | OP_BOR \<Rightarrow> in_bv n (foldl or (hd ns) (tl ns))
      | OP_BNOT \<Rightarrow> in_bv n (not x) | OP_BXOR \<Rightarrow> in_bv n (foldl xor (hd ns) (tl ns))
      | OP_BNAND \<Rightarrow> in_bv n (not (and x y)) | OP_BNOR \<Rightarrow> in_bv n (not (or x y)) | OP_BXNOR \<Rightarrow> in_bv n (not (xor x y))
      | OP_CONCAT \<Rightarrow> in_bv (sum_list (map bv_width vs)) (int (concat_nat vs))
      | OP_SIGN_EXT k \<Rightarrow> in_bv (n + k) sx | OP_ZERO_EXT k \<Rightarrow> in_bv (n + k) x
      | OP_EXTRACT hi lo \<Rightarrow> in_bv (hi - lo + 1) (x div 2 ^ lo)
      | OP_REPEAT k \<Rightarrow> in_bv (k * n) (int (concat_nat (replicate k (vs ! 0))))
      | OP_BREDOR \<Rightarrow> in_bv 1 (of_bool (x \<noteq> 0)) | OP_BREDAND \<Rightarrow> in_bv 1 (of_bool (x = 2 ^ n - 1)) | OP_BCOMP \<Rightarrow> in_bv 1 (of_bool (x = y))
      | OP_BSHL \<Rightarrow> in_bv n (x * 2 ^ nat y) | OP_BLSHR \<Rightarrow> in_bv n (x div 2 ^ nat y) | OP_BASHR \<Rightarrow> in_bv n (sx div 2 ^ nat y)
      | OP_ROTATE_LEFT k \<Rightarrow> in_bv n (int (rotate_nat n (n - k mod n) (nat x)))
      | OP_ROTATE_RIGHT k \<Rightarrow> in_bv n (int (rotate_nat n k (nat x)))
      | OP_EXT_ROTATE_LEFT \<Rightarrow> in_bv n (int (rotate_nat n (n - nat y mod n) (nat x)))
      | OP_EXT_ROTATE_RIGHT \<Rightarrow> in_bv n (int (rotate_nat n (nat y) (nat x)))
      | OP_BUMUL_NO_OVFL \<Rightarrow> VBool (x * y < 2 ^ n)
      | OP_BSMUL_NO_OVFL \<Rightarrow> VBool (sx * sy < 2 ^ (n - 1)) | OP_BSMUL_NO_UDFL \<Rightarrow> VBool (- (2 ^ (n - 1)) \<le> sx * sy)
      | OP_BIT2BOOL i \<Rightarrow> VBool (bit x i) | OP_MKBV \<Rightarrow> in_bv (length vs) (int (bval (map truth vs))))"

fun apply_decl :: "interp \<Rightarrow> func_decl \<Rightarrow> val list \<Rightarrow> val" where
  "apply_decl I OP_TRUE vs = VBool True"
| "apply_decl I OP_FALSE vs = VBool False"
| "apply_decl I OP_EQ vs = VBool (vs ! 0 = vs ! 1)"
| "apply_decl I OP_DISTINCT vs = VBool (distinct vs)"
| "apply_decl I OP_ITE vs = (if truth (vs ! 0) then vs ! 1 else vs ! 2)"
| "apply_decl I OP_AND vs = VBool (list_all truth vs)"
| "apply_decl I OP_OR vs = VBool (list_ex truth vs)"
| "apply_decl I OP_XOR vs = VBool (xors (map truth vs))"
| "apply_decl I OP_NOT vs = VBool (\<not> truth (vs ! 0))"
| "apply_decl I OP_IMPLIES vs = VBool (truth (vs ! 0) \<longrightarrow> truth (vs ! 1))"
| "apply_decl I (OP_BV_NUM k n) vs = VBv n (k mod 2 ^ n)"
| "apply_decl I OP_BADD vs = VBv (bv_width (vs ! 0)) (sum_list (map bv_nat vs) mod 2 ^ bv_width (vs ! 0))"
| "apply_decl I OP_CARRY vs = VBool (truth (vs ! 0) \<and> truth (vs ! 1) \<or> truth (vs ! 0) \<and> truth (vs ! 2)
     \<or> truth (vs ! 1) \<and> truth (vs ! 2))"
| "apply_decl I OP_XOR3 vs = VBool (truth (vs ! 0) \<noteq> (truth (vs ! 1) \<noteq> truth (vs ! 2)))"
| "apply_decl I (BV_OP opr) vs = bv_apply opr vs"
| "apply_decl I (OP_MODEL_VALUE i u) vs = VElem u i"
| "apply_decl I (UNINTERPRETED f s) vs = in_sort s (i_fun I f s vs)"

fun eval :: "interp \<Rightarrow> expr \<Rightarrow> val" where
  "eval I (VAR i s) = in_sort s (i_var I i s)"
| "eval I (APP f as) = apply_decl I f (map (eval I) as)"

definition holds_in :: "interp \<Rightarrow> expr \<Rightarrow> bool" where
  "holds_in I e = truth (eval I e)"

fun is_bv_sort :: "srt \<Rightarrow> bool" where
  "is_bv_sort (BV_SORT n) = True"
| "is_bv_sort _ = False"

definition bv_args :: "nat \<Rightarrow> srt list \<Rightarrow> bool" where
  \<comment> \<open>so many bit-vectors of one width, which is never zero\<close>
  "bv_args k ss \<longleftrightarrow> length ss = k \<and> list_all (\<lambda>s. s = hd ss) ss \<and> is_bv_sort (hd ss) \<and> 0 < srt_width (hd ss)"

definition bv_sig_ok :: "bv_op \<Rightarrow> srt list \<Rightarrow> bool" where
  "bv_sig_ok opr ss = (case opr of
       OP_BIT0 \<Rightarrow> ss = [] | OP_BIT1 \<Rightarrow> ss = []
     | OP_MKBV \<Rightarrow> list_all (\<lambda>s. s = BOOL_SORT) ss
     | OP_CONCAT \<Rightarrow> ss \<noteq> [] \<and> list_all is_bv_sort ss
     | OP_BIT2BOOL i \<Rightarrow> bv_args 1 ss \<and> i < srt_width (hd ss)
     | OP_EXTRACT hi lo \<Rightarrow> bv_args 1 ss \<and> lo \<le> hi \<and> hi < srt_width (hd ss)
     | OP_BNEG \<Rightarrow> bv_args 1 ss | OP_BNOT \<Rightarrow> bv_args 1 ss | OP_BREDOR \<Rightarrow> bv_args 1 ss | OP_BREDAND \<Rightarrow> bv_args 1 ss
     | OP_SIGN_EXT k \<Rightarrow> bv_args 1 ss | OP_ZERO_EXT k \<Rightarrow> bv_args 1 ss | OP_REPEAT k \<Rightarrow> 0 < k \<and> bv_args 1 ss
     | OP_ROTATE_LEFT k \<Rightarrow> bv_args 1 ss | OP_ROTATE_RIGHT k \<Rightarrow> bv_args 1 ss
     | OP_BSDIV0 \<Rightarrow> bv_args 1 ss | OP_BUDIV0 \<Rightarrow> bv_args 1 ss | OP_BSREM0 \<Rightarrow> bv_args 1 ss
     | OP_BUREM0 \<Rightarrow> bv_args 1 ss | OP_BSMOD0 \<Rightarrow> bv_args 1 ss
     | OP_BSUB \<Rightarrow> ss \<noteq> [] \<and> bv_args (length ss) ss | OP_BMUL \<Rightarrow> ss \<noteq> [] \<and> bv_args (length ss) ss
     | OP_BAND \<Rightarrow> ss \<noteq> [] \<and> bv_args (length ss) ss | OP_BOR \<Rightarrow> ss \<noteq> [] \<and> bv_args (length ss) ss
     | OP_BXOR \<Rightarrow> ss \<noteq> [] \<and> bv_args (length ss) ss
     | _ \<Rightarrow> bv_args 2 ss)"

definition sig_ok :: "func_decl \<Rightarrow> srt list \<Rightarrow> bool" where
  "sig_ok f ss = (case f of
       OP_EQ \<Rightarrow> length ss = 2 \<and> ss ! 0 = ss ! 1
     | OP_DISTINCT \<Rightarrow> list_all (\<lambda>s. s = hd ss) ss
     | OP_ITE \<Rightarrow> length ss = 3 \<and> ss ! 0 = BOOL_SORT \<and> ss ! 1 = ss ! 2
     | OP_AND \<Rightarrow> list_all (\<lambda>s. s = BOOL_SORT) ss
     | OP_OR \<Rightarrow> list_all (\<lambda>s. s = BOOL_SORT) ss
     | OP_XOR \<Rightarrow> list_all (\<lambda>s. s = BOOL_SORT) ss
     | OP_NOT \<Rightarrow> ss = [BOOL_SORT]
     | OP_IMPLIES \<Rightarrow> ss = [BOOL_SORT, BOOL_SORT]
     | OP_BV_NUM k n \<Rightarrow> ss = [] \<and> k < 2 ^ n
     | OP_BADD \<Rightarrow> ss \<noteq> [] \<and> list_all (\<lambda>s. s = hd ss) ss \<and> is_bv_sort (hd ss)
     | BV_OP opr \<Rightarrow> bv_sig_ok opr ss
     | OP_CARRY \<Rightarrow> ss = [BOOL_SORT, BOOL_SORT, BOOL_SORT]
     | OP_XOR3 \<Rightarrow> ss = [BOOL_SORT, BOOL_SORT, BOOL_SORT]
     | UNINTERPRETED g s \<Rightarrow> True
     | _ \<Rightarrow> ss = [])"

fun well_sorted :: "expr \<Rightarrow> bool" where
  "well_sorted (VAR i s) = True"
| "well_sorted (APP f as) = (list_all well_sorted as \<and> sig_ok f (map get_sort as))"

definition ok_bool :: "expr \<Rightarrow> bool" where
  "ok_bool e \<longleftrightarrow> well_sorted e \<and> is_bool e"

section \<open>Well-sorted terms have values of their sort\<close>

lemma sort_in_sort [simp]: "sort_of_val (in_sort s k) = s"
  by (cases s) simp_all

lemma is_bv_sort_iff: "is_bv_sort s \<longleftrightarrow> (\<exists>n. s = BV_SORT n)"
  by (cases s) simp_all

lemma srt_width_sort [simp]: "srt_width (sort_of_val v) = bv_width v"
  by (cases v) simp_all

lemma in_bv_simps [simp]: "sort_of_val (in_bv n k) = BV_SORT n" "bv_width (in_bv n k) = n" "int (bv_nat (in_bv n k)) = k mod 2 ^ n"
  by (simp_all add: in_bv_def)

lemma in_bv_less: "in_bv n k = VBv m j \<Longrightarrow> j < 2 ^ m"
  by (auto simp: in_bv_def nat_less_iff)

lemma bv_apply_sort:
  assumes "bv_sig_ok opr (map sort_of_val vs)"
  shows "sort_of_val (bv_apply opr vs) = bv_range opr (map sort_of_val vs)"
proof (cases "vs = []")
  case True
  with assms show ?thesis
    by (cases opr) (simp_all add: bv_apply_def bv_range_def bv_range_width_def is_bv_pred_def bv_sig_ok_def bv_args_def)
next
  case False
  then have "map sort_of_val vs ! 0 = sort_of_val (vs ! 0)" by simp
  then show ?thesis
    by (cases opr) (simp_all add: bv_apply_def Let_def bv_range_def bv_range_width_def is_bv_pred_def comp_def)
qed

lemma bv_apply_less: "bv_apply opr vs = VBv n k \<Longrightarrow> k < 2 ^ n"
  by (cases opr) (auto simp: bv_apply_def Let_def dest: in_bv_less)

lemma eval_sort: "well_sorted e \<Longrightarrow> sort_of_val (eval I e) = get_sort e"
proof (induction e)
  case (VAR i s)
  then show ?case by simp
next
  case (APP f as)
  then have ss: "i < length as \<Longrightarrow> sort_of_val (eval I (as ! i)) = get_sort (as ! i)" for i
    by (simp add: list_all_length)
  have sorts: "map sort_of_val (map (eval I) as) = map get_sort as" using ss by (simp add: list_eq_iff_nth_eq)
  show ?case
  proof (cases f)
    case OP_ITE
    with APP.prems ss [of 1] ss [of 2] show ?thesis by (auto simp: sig_ok_def get_range_def)
  next
    case (BV_OP opr)
    with APP.prems bv_apply_sort [of opr "map (eval I) as"] show ?thesis
      unfolding sorts by (simp add: sig_ok_def get_range_def)
  next
    case OP_BADD
    with APP.prems have "as \<noteq> []" "is_bv_sort (get_sort (as ! 0))"
      by (auto simp: sig_ok_def hd_conv_nth)
    with ss [of 0] OP_BADD show ?thesis
      by (cases "eval I (as ! 0)") (auto simp: get_range_def is_bv_sort_iff)
  qed (simp_all add: get_range_def)
qed

lemma eval_bool: "ok_bool e \<Longrightarrow> eval I e = VBool (holds_in I e)"
  using eval_sort [of e I] by (cases "eval I e") (auto simp: ok_bool_def is_bool_def holds_in_def)

lemma eval_bv_less: "well_sorted e \<Longrightarrow> eval I e = VBv n k \<Longrightarrow> k < 2 ^ n"
proof (induction e arbitrary: n k)
  case (VAR i s)
  then show ?case by (cases s) auto
next
  case (APP f as)
  show ?case
  proof (cases f)
    case OP_ITE
    with APP.prems have l: "length as = 3" by (simp add: sig_ok_def)
    then have a: "as ! 1 \<in> set as" "as ! 2 \<in> set as" by simp_all
    with APP.prems have "well_sorted (as ! 1)" "well_sorted (as ! 2)" by (simp_all add: list_all_iff)
    with OP_ITE APP.prems(2) APP.IH [OF a(1)] APP.IH [OF a(2)] l show ?thesis by (auto split: if_splits)
  next
    case (BV_OP opr)
    with APP.prems bv_apply_less show ?thesis by auto
  next
    case (UNINTERPRETED g s)
    with APP.prems show ?thesis by (cases s) auto
  qed (use APP.prems in auto)
qed

section \<open>Recognizers of well-sorted terms\<close>

lemmas m_defs = m_true_def m_false_def m_mk_not_def m_mk_eq_def m_mk_ite_def m_mk_and_def m_mk_or_def
  m_mk_distinct_def

lemmas is_defs = is_true_def is_false_def is_not_def is_eq_def is_ite_def is_and_def is_or_def

lemma is_app_ofD: "is_app_of f e \<Longrightarrow> \<exists>as. e = APP f as"
  by (cases e) auto

lemma length_Suc0_conv: "length xs = Suc 0 \<longleftrightarrow> (\<exists>x. xs = [x])"
  by (cases xs) auto

lemma length_2_conv: "length xs = 2 \<longleftrightarrow> (\<exists>x y. xs = [x, y])"
  by (auto simp: numeral_eq_Suc length_Suc_conv)

lemma length_3_conv: "length xs = 3 \<longleftrightarrow> (\<exists>x y z. xs = [x, y, z])"
  by (auto simp: numeral_eq_Suc length_Suc_conv)

lemma is_not_iff: "is_not e \<longleftrightarrow> (\<exists>a. e = m_mk_not a)"
  by (cases e) (auto simp: is_not_def m_mk_not_def length_Suc0_conv)

lemma is_eq_iff: "is_eq e \<longleftrightarrow> (\<exists>a b. e = m_mk_eq a b)"
  by (cases e) (auto simp: is_eq_def m_mk_eq_def length_2_conv)

lemma is_ite_iff: "is_ite e \<longleftrightarrow> (\<exists>c a b. e = m_mk_ite c a b)"
  by (cases e) (auto simp: is_ite_def m_mk_ite_def length_3_conv)

lemma is_or_iff: "is_or e \<longleftrightarrow> (\<exists>as. e = m_mk_or as)"
  by (cases e) (auto simp: is_or_def m_mk_or_def)

lemma is_and_iff: "is_and e \<longleftrightarrow> (\<exists>as. e = m_mk_and as)"
  by (cases e) (auto simp: is_and_def m_mk_and_def)

named_theorems term_simps

lemma get_args_m [term_simps]:
  "get_args (m_mk_not a) = [a]" "get_args (m_mk_eq a b) = [a, b]" "get_args (m_mk_ite a b c) = [a, b, c]"
  "get_args (m_mk_and as) = as" "get_args (m_mk_or as) = as"
  by (simp_all add: m_defs)

lemma get_arg_m [term_simps]:
  "get_arg (m_mk_not a) 0 = a"
  "get_arg (m_mk_eq a b) 0 = a" "get_arg (m_mk_eq a b) (Suc 0) = b"
  "get_arg (m_mk_ite a b c) 0 = a" "get_arg (m_mk_ite a b c) (Suc 0) = b" "get_arg (m_mk_ite a b c) 2 = c"
  by (simp_all add: m_defs get_arg_def)

lemma is_not_m [term_simps]:
  "is_not (m_mk_not a)" "\<not> is_not (m_mk_eq a b)" "\<not> is_not (m_mk_ite a b c)"
  "\<not> is_not (m_mk_and as)" "\<not> is_not (m_mk_or as)" "\<not> is_not m_true" "\<not> is_not m_false"
  by (simp_all add: m_defs is_not_def)

lemma is_eq_m [term_simps]:
  "is_eq (m_mk_eq a b)" "\<not> is_eq (m_mk_not a)" "\<not> is_eq (m_mk_ite a b c)"
  "\<not> is_eq (m_mk_and as)" "\<not> is_eq (m_mk_or as)" "\<not> is_eq m_true" "\<not> is_eq m_false"
  by (simp_all add: m_defs is_eq_def)

lemma is_ite_m [term_simps]:
  "is_ite (m_mk_ite a b c)" "\<not> is_ite (m_mk_not a)" "\<not> is_ite (m_mk_eq a b)"
  "\<not> is_ite (m_mk_and as)" "\<not> is_ite (m_mk_or as)" "\<not> is_ite m_true" "\<not> is_ite m_false"
  by (simp_all add: m_defs is_ite_def)

lemma is_or_m [term_simps]:
  "is_or (m_mk_or as)" "\<not> is_or (m_mk_not a)" "\<not> is_or (m_mk_eq a b)" "\<not> is_or (m_mk_ite a b c)"
  "\<not> is_or (m_mk_and as)" "\<not> is_or m_true" "\<not> is_or m_false"
  by (simp_all add: m_defs is_or_def)

lemma is_true_m [term_simps]:
  "is_true m_true" "\<not> is_true m_false" "\<not> is_true (m_mk_not a)" "\<not> is_true (m_mk_eq a b)"
  "\<not> is_true (m_mk_ite a b c)" "\<not> is_true (m_mk_and as)" "\<not> is_true (m_mk_or as)"
  by (simp_all add: m_defs is_true_def)

lemma is_false_m [term_simps]:
  "is_false m_false" "\<not> is_false m_true" "\<not> is_false (m_mk_not a)" "\<not> is_false (m_mk_eq a b)"
  "\<not> is_false (m_mk_ite a b c)" "\<not> is_false (m_mk_and as)" "\<not> is_false (m_mk_or as)"
  by (simp_all add: m_defs is_false_def)

lemma m_inject [term_simps]:
  "m_mk_not a = m_mk_not b \<longleftrightarrow> a = b"
  "m_mk_eq a b = m_mk_eq c d \<longleftrightarrow> a = c \<and> b = d"
  "m_mk_ite a b c = m_mk_ite d e f \<longleftrightarrow> a = d \<and> b = e \<and> c = f"
  "m_mk_and as = m_mk_and bs \<longleftrightarrow> as = bs" "m_mk_or as = m_mk_or bs \<longleftrightarrow> as = bs"
  by (simp_all add: m_defs)

lemma m_distinct [term_simps]:
  "m_true \<noteq> m_false" "m_true \<noteq> m_mk_not d" "m_true \<noteq> m_mk_eq d e"
  "m_true \<noteq> m_mk_ite d e f" "m_true \<noteq> m_mk_and bs" "m_true \<noteq> m_mk_or bs"
  "m_false \<noteq> m_true" "m_false \<noteq> m_mk_not d" "m_false \<noteq> m_mk_eq d e"
  "m_false \<noteq> m_mk_ite d e f" "m_false \<noteq> m_mk_and bs" "m_false \<noteq> m_mk_or bs"
  "m_mk_not a \<noteq> m_true" "m_mk_not a \<noteq> m_false" "m_mk_not a \<noteq> m_mk_eq d e"
  "m_mk_not a \<noteq> m_mk_ite d e f" "m_mk_not a \<noteq> m_mk_and bs" "m_mk_not a \<noteq> m_mk_or bs"
  "m_mk_eq a b \<noteq> m_true" "m_mk_eq a b \<noteq> m_false" "m_mk_eq a b \<noteq> m_mk_not d"
  "m_mk_eq a b \<noteq> m_mk_ite d e f" "m_mk_eq a b \<noteq> m_mk_and bs" "m_mk_eq a b \<noteq> m_mk_or bs"
  "m_mk_ite c a b \<noteq> m_true" "m_mk_ite c a b \<noteq> m_false" "m_mk_ite c a b \<noteq> m_mk_not d"
  "m_mk_ite c a b \<noteq> m_mk_eq d e" "m_mk_ite c a b \<noteq> m_mk_and bs" "m_mk_ite c a b \<noteq> m_mk_or bs"
  "m_mk_and as \<noteq> m_true" "m_mk_and as \<noteq> m_false" "m_mk_and as \<noteq> m_mk_not d"
  "m_mk_and as \<noteq> m_mk_eq d e" "m_mk_and as \<noteq> m_mk_ite d e f" "m_mk_and as \<noteq> m_mk_or bs"
  "m_mk_or as \<noteq> m_true" "m_mk_or as \<noteq> m_false" "m_mk_or as \<noteq> m_mk_not d"
  "m_mk_or as \<noteq> m_mk_eq d e" "m_mk_or as \<noteq> m_mk_ite d e f" "m_mk_or as \<noteq> m_mk_and bs"
  by (simp_all add: m_defs)

lemma sorted_m [term_simps]:
  "well_sorted m_true" "well_sorted m_false"
  "well_sorted (m_mk_not a) = ok_bool a"
  "well_sorted (m_mk_eq a b) = (well_sorted a \<and> well_sorted b \<and> get_sort a = get_sort b)"
  "well_sorted (m_mk_ite c a b) = (ok_bool c \<and> well_sorted a \<and> well_sorted b \<and> get_sort a = get_sort b)"
  "well_sorted (m_mk_and as) = list_all ok_bool as" "well_sorted (m_mk_or as) = list_all ok_bool as"
  by (auto simp: m_defs sig_ok_def ok_bool_def is_bool_def list_all_iff)

lemma get_sort_m [term_simps]:
  "get_sort m_true = BOOL_SORT" "get_sort m_false = BOOL_SORT" "get_sort (m_mk_not a) = BOOL_SORT"
  "get_sort (m_mk_eq a b) = BOOL_SORT" "get_sort (m_mk_ite c a b) = get_sort a"
  "get_sort (m_mk_and as) = BOOL_SORT" "get_sort (m_mk_or as) = BOOL_SORT" "get_sort (m_mk_distinct as) = BOOL_SORT"
  by (simp_all add: m_defs get_range_def)

lemma ok_bool_m [term_simps]:
  "ok_bool m_true" "ok_bool m_false"
  "ok_bool (m_mk_not a) = ok_bool a"
  "ok_bool (m_mk_eq a b) = (well_sorted a \<and> well_sorted b \<and> get_sort a = get_sort b)"
  "ok_bool (m_mk_ite c a b) = (ok_bool c \<and> ok_bool a \<and> ok_bool b)"
  "ok_bool (m_mk_and as) = list_all ok_bool as" "ok_bool (m_mk_or as) = list_all ok_bool as"
  using sorted_m get_sort_m by (auto simp: ok_bool_def is_bool_def)

lemma eval_m [term_simps]:
  "eval I m_true = VBool True" "eval I m_false = VBool False"
  "eval I (m_mk_not a) = VBool (\<not> holds_in I a)"
  "eval I (m_mk_eq a b) = VBool (eval I a = eval I b)"
  "eval I (m_mk_ite c a b) = (if holds_in I c then eval I a else eval I b)"
  "eval I (m_mk_and as) = VBool (list_all (holds_in I) as)"
  "eval I (m_mk_or as) = VBool (list_ex (holds_in I) as)"
  "eval I (m_mk_distinct as) = VBool (distinct (map (eval I) as))"
  by (simp_all add: m_defs holds_in_def list_all_iff list_ex_iff)

lemma holds_in_m [term_simps]:
  "holds_in I m_true" "\<not> holds_in I m_false"
  "holds_in I (m_mk_not a) = (\<not> holds_in I a)"
  "holds_in I (m_mk_eq a b) = (eval I a = eval I b)"
  "holds_in I (m_mk_ite c a b) = (if holds_in I c then holds_in I a else holds_in I b)"
  "holds_in I (m_mk_and as) = list_all (holds_in I) as"
  "holds_in I (m_mk_or as) = list_ex (holds_in I) as"
  "holds_in I (m_mk_distinct as) = distinct (map (eval I) as)"
  by (simp_all add: eval_m holds_in_def [of I "m_mk_not a" for a] holds_in_def [of I "m_mk_eq a b" for a b]
      holds_in_def [of I "m_mk_ite c a b" for c a b] holds_in_def [of I "m_mk_and as" for as]
      holds_in_def [of I "m_mk_or as" for as] holds_in_def [of I "m_mk_distinct as" for as]
      holds_in_def [of I m_true] holds_in_def [of I m_false])
   (simp add: holds_in_def)

lemma eval_eq_bool: "ok_bool a \<Longrightarrow> ok_bool b \<Longrightarrow> eval I a = eval I b \<longleftrightarrow> holds_in I a = holds_in I b"
  by (simp add: eval_bool)

lemma well_sorted_bool: "well_sorted a \<Longrightarrow> ok_bool a \<longleftrightarrow> get_sort a = BOOL_SORT"
  by (simp add: ok_bool_def is_bool_def)

section \<open>Equal and distinct terms\<close>

lemma are_equal_iff: "are_equal a b \<longleftrightarrow> a = b"
  by (auto simp: are_equal_def split: option.splits)

lemma value_eval_neq:
  assumes "well_sorted a" "well_sorted b" "a \<noteq> b" "plugin_is_value p a" "plugin_is_value p b"
  shows "eval I a \<noteq> eval I b"
proof (cases p)
  case basic_family
  with assms show ?thesis
    by (cases a; cases b) (auto simp: basic_is_value_def sig_ok_def)
next
  case bv_family
  with assms show ?thesis
    by (cases a rule: bv_is_value.cases; cases b rule: bv_is_value.cases) (auto simp: sig_ok_def)
next
  case model_value_family
  with assms show ?thesis
    by (cases a rule: model_is_value.cases; cases b rule: model_is_value.cases) (auto simp: sig_ok_def)
qed (use assms in simp)

lemma add_mod_inj:
  fixes j k m x :: nat
  assumes "j < m" "k < m" "(j + x) mod m = (k + x) mod m"
  shows "j = k"
proof -
  have "(int j + int x) mod int m = (int k + int x) mod int m"
    using assms(3) by (simp flip: of_nat_add of_nat_mod)
  then have "int j mod int m = int k mod int m" by (simp add: mod_eq_dvd_iff)
  with assms show ?thesis by simp
qed

lemma get_offset_term_cases:
  assumes "get_offset_term a = (t, k)"
  obtains (offset) j n as where "a = APP OP_BADD [APP (OP_BV_NUM j n) as, t]" "k = j mod 2 ^ n"
  | (self) "t = a" "k = 0"
  using assms by (cases a rule: get_offset_term.cases) simp_all

lemma offset_term_value:
  assumes "well_sorted a" "get_offset_term a = (t, k)" "k \<noteq> 0 \<or> is_bv_sort (get_sort t)"
  shows "\<exists>n x. eval I t = VBv n x \<and> x < 2 ^ n \<and> k < 2 ^ n \<and> well_sorted t \<and> eval I a = VBv n ((k + x) mod 2 ^ n)"
  using assms(2)
proof (cases rule: get_offset_term_cases)
  case (offset j n as)
  with assms have a: "k = j" "k < 2 ^ n" "as = []" "well_sorted t" "get_sort t = BV_SORT n"
    by (auto simp: sig_ok_def get_range_def)
  with eval_sort [of t I] obtain x where x: "eval I t = VBv n x" by (cases "eval I t") auto
  with a eval_bv_less [of t I] offset show ?thesis by auto
next
  case self
  with assms eval_sort [of a I] obtain n x where x: "eval I a = VBv n x"
    by (cases "eval I a") (auto simp: is_bv_sort_iff)
  with self assms eval_bv_less [of a I] show ?thesis by auto
qed

lemma are_distinct_sound:
  assumes "well_sorted a" "well_sorted b" "are_distinct a b"
  shows "eval I a \<noteq> eval I b"
proof (cases "get_offset_term a"; cases "get_offset_term b")
  fix s j t k
  assume st: "get_offset_term a = (s, j)" "get_offset_term b = (t, k)"
  show ?thesis
  proof (cases "s = t \<and> j \<noteq> k")
    case True
    then have "j \<noteq> 0 \<or> k \<noteq> 0" by auto
    then obtain n x where "eval I t = VBv n x" "well_sorted t"
      using True offset_term_value [OF assms(1) st(1), of I] offset_term_value [OF assms(2) st(2), of I] by blast
    then have "is_bv_sort (get_sort t)" using eval_sort [of t I] by (auto simp: is_bv_sort_iff eq_commute)
    with True offset_term_value [OF assms(1) st(1), of I] offset_term_value [OF assms(2) st(2), of I]
    obtain n x where "eval I a = VBv n ((j + x) mod 2 ^ n)" "eval I b = VBv n ((k + x) mod 2 ^ n)"
      "j < 2 ^ n" "k < 2 ^ n" by auto
    with True show ?thesis using add_mod_inj [of j "2 ^ n" k x] by auto
  next
    case False
    with assms st obtain p where "default_are_distinct p a b"
      by (auto simp: are_distinct_def bv_are_distinct_def split: option.splits family.splits)
    with assms value_eval_neq [of a b p] show ?thesis by (simp add: default_are_distinct_def)
  qed
qed

lemma unique_value_neq:
  assumes "well_sorted a" "well_sorted b" "is_unique_value a" "is_unique_value b" "a \<noteq> b"
  shows "eval I a \<noteq> eval I b"
proof -
  have f: "\<exists>p. plugin_is_value p e \<and> get_sort e = (case p of basic_family \<Rightarrow> BOOL_SORT | bv_family \<Rightarrow> get_sort e | _ \<Rightarrow> get_sort e)
      \<and> (p = bv_family \<longleftrightarrow> is_bv_sort (get_sort e)) \<and> (p = basic_family \<longleftrightarrow> get_sort e = BOOL_SORT) \<and> p \<noteq> null_family"
    if "is_unique_value e" for e
  proof (cases e)
    case (APP g as)
    with that show ?thesis
      by (cases g) (auto simp: is_unique_value_def get_range_def basic_is_value_def intro: exI [of _ "get_family_id g"])
  qed (use that in \<open>simp add: is_unique_value_def\<close>)
  show ?thesis
  proof (cases "get_sort a = get_sort b")
    case True
    with f [OF assms(3)] f [OF assms(4)] obtain p where "plugin_is_value p a" "plugin_is_value p b"
      by (metis family.exhaust)
    with assms value_eval_neq show ?thesis by blast
  next
    case False
    with assms eval_sort show ?thesis by metis
  qed
qed

lemma is_value_eval: "well_sorted a \<Longrightarrow> is_value a \<Longrightarrow> get_args a = []"
  by (cases a; cases "case a of APP f as \<Rightarrow> f | _ \<Rightarrow> OP_TRUE")
     (auto simp: basic_is_value_def sig_ok_def)

end
