(* ===== verification/Bool_Rewriter.thy ===== *)
theory Bool_Rewriter
  imports Ast "HOL-Library.Word"
begin

text \<open>
  The boolean rewriter of bool_rewriter.cpp and bool_rewriter.h, operation by operation. The
  core operations return a status and a term, \<open>None\<close> standing for \<open>BR_FAILED\<close>. The only
  state that changes is the cost of the local context simplification; the operations that may
  change it return the rewriter beside their result. The order of terms and their ids belong to
  the manager: they decide about the order of the arguments of a disjunction only and are
  arbitrary functions here. The marks of the code are sets of terms.
\<close>

section \<open>State\<close>

datatype br_status = BR_REWRITE1 | BR_REWRITE2 | BR_REWRITE3 | BR_DONE

type_synonym br = "(br_status \<times> expr) option"

record bool_rewriter_params =
  p_flat :: bool
  p_elim_and :: bool
  p_elim_ite :: bool
  p_local_ctx :: bool
  p_local_ctx_limit :: "32 word"
  p_blast_distinct :: bool
  p_blast_distinct_threshold :: "32 word"
  p_ite_extra_rules :: bool

record bool_rewriter =
  m_get_id :: "expr \<Rightarrow> nat"
  m_lt :: "expr \<Rightarrow> expr \<Rightarrow> bool"
  m_flat :: bool
  m_local_ctx :: bool
  m_elim_and :: bool
  m_blast_distinct :: bool
  m_blast_distinct_threshold :: "32 word"
  m_ite_extra_rules :: bool
  m_local_ctx_limit :: "32 word"
  m_local_ctx_cost :: "32 word"
  m_elim_ite :: bool

definition default_params :: bool_rewriter_params where
  \<comment> \<open>the defaults of bool_rewriter_params.pyg\<close>
  "default_params = \<lparr>p_flat = True, p_elim_and = False, p_elim_ite = True, p_local_ctx = False,
     p_local_ctx_limit = - 1, p_blast_distinct = False, p_blast_distinct_threshold = - 1,
     p_ite_extra_rules = False\<rparr>"

definition updt_params :: "bool_rewriter_params \<Rightarrow> bool_rewriter \<Rightarrow> bool_rewriter" where
  "updt_params p rw = rw\<lparr>m_flat := p_flat p, m_elim_and := p_elim_and p, m_elim_ite := p_elim_ite p,
     m_local_ctx := p_local_ctx p, m_local_ctx_limit := p_local_ctx_limit p,
     m_blast_distinct := p_blast_distinct p, m_blast_distinct_threshold := p_blast_distinct_threshold p,
     m_ite_extra_rules := p_ite_extra_rules p\<rparr>"

definition mk_bool_rewriter :: "(expr \<Rightarrow> nat) \<Rightarrow> (expr \<Rightarrow> expr \<Rightarrow> bool) \<Rightarrow> bool_rewriter_params \<Rightarrow> bool_rewriter" where
  "mk_bool_rewriter ids lt p = updt_params p
     \<lparr>m_get_id = ids, m_lt = lt, m_flat = False, m_local_ctx = False, m_elim_and = False,
      m_blast_distinct = False, m_blast_distinct_threshold = 0, m_ite_extra_rules = False,
      m_local_ctx_limit = 0, m_local_ctx_cost = 0, m_elim_ite = False\<rparr>"

definition set_flat :: "bool \<Rightarrow> bool_rewriter \<Rightarrow> bool_rewriter" where
  "set_flat f rw = rw\<lparr>m_flat := f\<rparr>"

definition set_elim_and :: "bool \<Rightarrow> bool_rewriter \<Rightarrow> bool_rewriter" where
  "set_elim_and f rw = rw\<lparr>m_elim_and := f\<rparr>"

definition reset_local_ctx_cost :: "bool_rewriter \<Rightarrow> bool_rewriter" where
  "reset_local_ctx_cost rw = rw\<lparr>m_local_ctx_cost := 0\<rparr>"

definition add_cost :: "nat \<Rightarrow> bool_rewriter \<Rightarrow> bool_rewriter" where
  "add_cost k rw = rw\<lparr>m_local_ctx_cost := m_local_ctx_cost rw + of_nat k\<rparr>"

definition br_result :: "br \<Rightarrow> expr \<Rightarrow> expr" where
  \<comment> \<open>the wrappers of the header: the result, or the plain application after \<open>BR_FAILED\<close>\<close>
  "br_result r plain = (case r of None \<Rightarrow> plain | Some (st, e) \<Rightarrow> e)"

lemma br_result_simps [simp]: "br_result None e = e" "br_result (Some (st, r)) e = r"
  by (simp_all add: br_result_def)

section \<open>Equations and negations\<close>

definition ite_of_values :: "expr \<Rightarrow> bool" where
  "ite_of_values t \<longleftrightarrow> is_ite t \<and> is_value (get_arg t 1) \<and> is_value (get_arg t 2)"

fun try_ite_value :: "expr \<Rightarrow> expr \<Rightarrow> br" where
  "try_ite_value (APP OP_ITE [cond, t, e]) val =
     (if are_distinct val e then Some (BR_REWRITE2, m_mk_and [m_mk_eq t val, cond])
      else if are_distinct val t then Some (BR_REWRITE2, m_mk_and [m_mk_eq e val, m_mk_not cond])
      else if are_equal val t then
        (if are_equal val e then Some (BR_DONE, m_true)
         else Some (BR_REWRITE2, m_mk_or [m_mk_eq e val, cond]))
      else if are_equal val e then Some (BR_REWRITE2, m_mk_or [m_mk_eq t val, m_mk_not cond])
      else case (if ite_of_values t then try_ite_value t val else None) of
        Some (st, result) \<Rightarrow> Some (BR_REWRITE2, m_mk_ite cond result (m_mk_eq e val))
      | None \<Rightarrow>
          (case (if ite_of_values e then try_ite_value e val else None) of
             Some (st, result) \<Rightarrow> Some (BR_REWRITE2, m_mk_ite cond (m_mk_eq t val) result)
           | None \<Rightarrow> None))"
| "try_ite_value _ val = None"

definition ite_rules :: "bool_rewriter \<Rightarrow> expr \<Rightarrow> expr \<Rightarrow> br" where
  "ite_rules rw lhs rhs =
     (if \<not> m_ite_extra_rules rw then None
      else if is_ite lhs \<and> is_value rhs then try_ite_value lhs rhs
      else if is_ite rhs \<and> is_value lhs then try_ite_value rhs lhs
      else None)"

definition opposite_args :: "expr \<Rightarrow> expr \<Rightarrow> bool" where
  "opposite_args a b \<longleftrightarrow> is_not b \<and> get_arg b 0 = a \<or> is_not a \<and> get_arg a 0 = b"

definition opposite_eqs :: "expr \<Rightarrow> expr \<Rightarrow> bool" where
  \<comment> \<open>\<open>(iff (iff a b) (iff (not a) b))\<close>\<close>
  "opposite_eqs lhs rhs \<longleftrightarrow> is_eq lhs \<and> is_eq rhs \<and>
     (let la = get_arg lhs 0; lb = get_arg lhs 1; ra = get_arg rhs 0; rb = get_arg rhs 1
      in la = ra \<and> opposite_args lb rb \<or> lb = rb \<and> opposite_args la ra)"

fun rank :: "expr \<Rightarrow> nat" where
  \<comment> \<open>bounds the recursion of \<open>mk_not\<close> and \<open>mk_eq\<close>\<close>
  "rank (APP OP_NOT [a]) = Suc (rank a)"
| "rank (APP OP_EQ [a, b]) = Suc (rank a + rank b)"
| "rank _ = 1"

function mk_not_core :: "bool_rewriter \<Rightarrow> expr \<Rightarrow> br"
  and mk_eq_core :: "bool_rewriter \<Rightarrow> expr \<Rightarrow> expr \<Rightarrow> br" where
  "mk_not_core rw t =
     (if is_not t then Some (BR_DONE, get_arg t 0)
      else if is_true t then Some (BR_DONE, m_false)
      else if is_false t then Some (BR_DONE, m_true)
      else if is_eq t \<and> is_bool (get_arg t 0) then
        let tmp = br_result (mk_not_core rw (get_arg t 0)) (m_mk_not (get_arg t 0))
        in Some (BR_DONE, br_result (mk_eq_core rw tmp (get_arg t 1)) (m_mk_eq tmp (get_arg t 1)))
      else None)"
| "mk_eq_core rw lhs0 rhs0 =
     (if are_equal lhs0 rhs0 then Some (BR_DONE, m_true)
      else if are_distinct lhs0 rhs0 then Some (BR_DONE, m_false)
      else if ite_rules rw lhs0 rhs0 \<noteq> None then ite_rules rw lhs0 rhs0
      else if is_bool lhs0 then
        let unfolded = (is_not lhs0 \<and> is_not rhs0);
            lhs = (if unfolded then get_arg lhs0 0 else lhs0);
            rhs = (if unfolded then get_arg rhs0 0 else rhs0)
        in if is_true lhs then Some (BR_DONE, rhs)
           else if is_false lhs then Some (BR_DONE, br_result (mk_not_core rw rhs) (m_mk_not rhs))
           else if is_true rhs then Some (BR_DONE, lhs)
           else if is_false rhs then Some (BR_DONE, br_result (mk_not_core rw lhs) (m_mk_not lhs))
           else if is_complement lhs rhs then Some (BR_DONE, m_false)
           else if unfolded then Some (BR_DONE, m_mk_eq lhs rhs)
           else if opposite_eqs lhs rhs then Some (BR_DONE, m_false)
           else None
      else None)"
  by pat_completeness auto

lemma rank_pos: "0 < rank e"
  by (cases e rule: rank.cases) simp_all

lemma rank_m [simp]: "rank (m_mk_not a) = Suc (rank a)" "rank (m_mk_eq a b) = Suc (rank a + rank b)"
  "rank (m_mk_and as) = 1" "rank (m_mk_or as) = 1" "rank (m_mk_ite c a b) = 1" "rank m_true = 1" "rank m_false = 1"
  by (simp_all add: m_defs)

lemma rank_try_ite_value: "try_ite_value ite val = Some (st, r) \<Longrightarrow> rank r = 1"
  by (induction ite val arbitrary: st r rule: try_ite_value.induct) (auto split: if_splits option.splits)

lemma rank_ite_rules: "ite_rules rw a b = Some (st, r) \<Longrightarrow> rank r = 1"
  by (auto simp: ite_rules_def split: if_splits dest: rank_try_ite_value)

text \<open>The result of the two recursive operations has a bounded rank; hence they terminate.\<close>

lemma rank_result:
  "mk_not_core_mk_eq_core_dom (Inl (rw, t)) \<Longrightarrow>
     rank (br_result (mk_not_core rw t) (m_mk_not t)) \<le> Suc (rank t)"
  "mk_not_core_mk_eq_core_dom (Inr (rw, l, r)) \<Longrightarrow>
     rank (br_result (mk_eq_core rw l r) (m_mk_eq l r)) \<le> Suc (rank l + rank r)"
proof (induction rule: mk_not_core_mk_eq_core.pinduct)
  case (1 rw t)
  then show ?case
    by (auto simp: mk_not_core.psimps Let_def is_not_iff is_eq_iff is_true_def is_false_def term_simps)
next
  case (2 rw l r)
  show ?case
  proof (cases "ite_rules rw l r")
    case (Some p)
    with 2(1) rank_ite_rules [of rw l r "fst p" "snd p"] show ?thesis
      by (cases p) (auto simp: mk_eq_core.psimps)
  next
    case None
    define u where "u \<longleftrightarrow> is_not l \<and> is_not r"
    define l' where "l' = (if u then get_arg l 0 else l)"
    define r' where "r' = (if u then get_arg r 0 else r)"
    have le: "rank l' \<le> rank l" "rank r' \<le> rank r"
      by (auto simp: l'_def r'_def u_def is_not_iff term_simps)
    note ih = 2(2,3) [OF _ _ _ _ u_def l'_def r'_def]
    from None ih le rank_pos [of l] rank_pos [of r] show ?thesis
      unfolding mk_eq_core.psimps [OF 2(1)] Let_def u_def [symmetric] l'_def [symmetric] r'_def [symmetric]
      by (simp split del: if_split) (simp split: if_split, linarith?)
  qed
qed

termination mk_not_core
proof (relation "measure (\<lambda>x. case x of Inl (rw, t) \<Rightarrow> 2 * rank t | Inr (rw, l, r) \<Rightarrow> 2 * max (rank l) (rank r) + 1)",
    goal_cases)
  case (3 rw t tmp)
  from 3(4) obtain a b where t: "t = m_mk_eq a b" by (auto simp: is_eq_iff)
  with 3 have "rank tmp \<le> Suc (rank a)"
    using rank_result(1) [of rw a] by (simp add: term_simps)
  with t rank_pos [of b] show ?case by (simp add: term_simps)
qed (auto simp: is_eq_iff is_not_iff term_simps)

declare mk_not_core.simps [simp del] mk_eq_core.simps [simp del]

definition mk_not :: "bool_rewriter \<Rightarrow> expr \<Rightarrow> expr" where
  "mk_not rw t = br_result (mk_not_core rw t) (m_mk_not t)"

definition mk_eq :: "bool_rewriter \<Rightarrow> expr \<Rightarrow> expr \<Rightarrow> expr" where
  "mk_eq rw lhs rhs = br_result (mk_eq_core rw lhs rhs) (m_mk_eq lhs rhs)"

definition mk_iff :: "bool_rewriter \<Rightarrow> expr \<Rightarrow> expr \<Rightarrow> expr" where
  "mk_iff rw lhs rhs = mk_eq rw lhs rhs"

definition mk_xor :: "bool_rewriter \<Rightarrow> expr \<Rightarrow> expr \<Rightarrow> expr" where
  "mk_xor rw lhs rhs = mk_eq rw (mk_not rw lhs) rhs"

section \<open>Local context simplification\<close>

definition mk_or_app :: "expr list \<Rightarrow> expr" where
  "mk_or_app args = (case args of [] \<Rightarrow> m_false | [a] \<Rightarrow> a | _ \<Rightarrow> m_mk_or args)"

fun nested_not_or_scan :: "expr list \<Rightarrow> expr set \<Rightarrow> expr set \<Rightarrow> bool \<Rightarrow> expr list \<Rightarrow> (bool \<times> expr list) option" where
  \<comment> \<open>the loop of \<open>simp_nested_not_or\<close>; \<open>None\<close> when it returns with the result false\<close>
  "nested_not_or_scan [] neg_lits pos_lits simp new_args = Some (simp, new_args)"
| "nested_not_or_scan (arg # args) neg_lits pos_lits simp new_args =
     (if arg \<in> neg_lits then None
      else if arg \<in> pos_lits then nested_not_or_scan args neg_lits pos_lits True new_args
      else if is_not arg \<and> get_arg arg 0 \<in> neg_lits then nested_not_or_scan args neg_lits pos_lits True new_args
      else if is_not arg \<and> get_arg arg 0 \<in> pos_lits then None
      else nested_not_or_scan args neg_lits pos_lits simp (new_args @ [arg]))"

definition simp_nested_not_or :: "bool_rewriter \<Rightarrow> expr list \<Rightarrow> expr set \<Rightarrow> expr set \<Rightarrow> expr option \<times> bool_rewriter" where
  \<comment> \<open>\<open>None\<close> for the result false, otherwise the term stored in \<open>result\<close>\<close>
  "simp_nested_not_or rw args neg_lits pos_lits =
     (case nested_not_or_scan args neg_lits pos_lits False [] of
        None \<Rightarrow> Some m_false
      | Some (simp, new_args) \<Rightarrow>
          if simp then
            (case new_args of [] \<Rightarrow> Some m_true | [a] \<Rightarrow> Some (mk_not rw a)
             | _ \<Rightarrow> Some (m_mk_not (m_mk_or new_args)))
          else None,
      add_cost (length args) rw)"

definition simp_arg :: "expr set \<Rightarrow> expr set \<Rightarrow> expr \<Rightarrow> expr \<times> bool" where
  \<comment> \<open>the new argument and whether it has been modified\<close>
  "simp_arg neg_lits pos_lits arg =
     (if is_not arg then
        (if get_arg arg 0 \<in> neg_lits then (m_false, True)
         else if get_arg arg 0 \<in> pos_lits then (m_true, True)
         else (arg, False))
      else
        (if arg \<in> neg_lits then (m_true, True)
         else if arg \<in> pos_lits then (m_false, True)
         else (arg, False)))"

definition mk_nested_ite :: "bool_rewriter \<Rightarrow> expr \<Rightarrow> expr \<Rightarrow> expr \<Rightarrow> expr" where
  "mk_nested_ite rw c t e =
     (if is_true c then t
      else if is_false c then e
      else if t = e then t
      else if is_bool t \<and> is_true t then (if is_false e then c else m_mk_or [c, e])
      else if is_bool t \<and> is_false t then
        (if is_true e then mk_not rw c else m_mk_not (m_mk_or [c, mk_not rw e]))
      else if is_bool t \<and> is_true e then m_mk_or [mk_not rw c, t]
      else if is_bool t \<and> (is_false e \<or> c = e) then m_mk_not (m_mk_or [mk_not rw c, mk_not rw t])
      else if is_bool t \<and> c = t then m_mk_or [c, e]
      else if is_bool t \<and> is_complement_core t e then mk_eq rw c t
      else if is_bool t \<and> is_complement_core e t then mk_eq rw c t
      else m_mk_ite c t e)"

definition simp_nested_eq_ite :: "bool_rewriter \<Rightarrow> expr \<Rightarrow> expr set \<Rightarrow> expr set \<Rightarrow> expr option \<times> bool_rewriter" where
  "simp_nested_eq_ite rw t0 neg_lits pos_lits =
     (let neg = is_not t0;
          t = (if neg then get_arg t0 0 else t0);
          negate = (\<lambda>r. if neg then mk_not rw r else r)
      in if is_eq t then
           let (new_lhs, m1) = simp_arg neg_lits pos_lits (get_arg t 0);
               (new_rhs, m2) = simp_arg neg_lits pos_lits (get_arg t 1)
           in if \<not> (m1 \<or> m2) then None else Some (negate (mk_eq rw new_lhs new_rhs))
         else if is_ite t then
           let (new_c, m1) = simp_arg neg_lits pos_lits (get_arg t 0);
               (new_t, m2) = simp_arg neg_lits pos_lits (get_arg t 1);
               (new_e, m3) = simp_arg neg_lits pos_lits (get_arg t 2)
           in if \<not> (m1 \<or> m2 \<or> m3) then None else Some (negate (mk_nested_ite rw new_c new_t new_e))
         else None,
      add_cost 3 rw)"

record ctx_state =
  c_new_args :: "expr list"
  c_neg_lits :: "expr set"
  c_pos_lits :: "expr set"
  c_modified :: bool
  c_simp :: bool

definition push_new_arg :: "expr \<Rightarrow> ctx_state \<Rightarrow> ctx_state" where
  "push_new_arg arg st =
     (if is_not arg then
        (let narg = get_arg arg 0 in
         if narg \<notin> c_neg_lits st
         then st\<lparr>c_neg_lits := insert narg (c_neg_lits st), c_new_args := c_new_args st @ [arg]\<rparr> else st)
      else
        (if arg \<notin> c_pos_lits st
         then st\<lparr>c_pos_lits := insert arg (c_pos_lits st), c_new_args := c_new_args st @ [arg]\<rparr> else st))"

definition process_arg :: "expr \<Rightarrow> bool_rewriter \<times> ctx_state \<Rightarrow> expr option \<times> bool_rewriter \<times> ctx_state" where
  \<comment> \<open>the macro \<open>PROCESS_ARG\<close>; a result when it returns\<close>
  "process_arg arg0 p0 =
     (let (rw0, st0) = p0;
          (r1, rw1) = (if is_not arg0 \<and> is_or (get_arg arg0 0)
                       then simp_nested_not_or rw0 (get_args (get_arg arg0 0)) (c_neg_lits st0) (c_pos_lits st0)
                       else (None, rw0));
          arg1 = (case r1 of None \<Rightarrow> arg0 | Some a \<Rightarrow> a);
          (r2, rw2) = simp_nested_eq_ite rw1 arg1 (c_neg_lits st0) (c_pos_lits st0);
          arg = (case r2 of None \<Rightarrow> arg1 | Some a \<Rightarrow> a);
          st = (if r1 \<noteq> None \<or> r2 \<noteq> None then st0\<lparr>c_modified := True, c_simp := True\<rparr> else st0)
      in if is_false arg then (None, rw2, st)
         else if is_true arg then (Some arg, rw2, st)
         else if m_flat rw0 \<and> is_or arg then (None, rw2, foldl (\<lambda>s a. push_new_arg a s) st (get_args arg))
         else (None, rw2, push_new_arg arg st))"

fun process_args :: "expr list \<Rightarrow> bool_rewriter \<times> ctx_state \<Rightarrow> expr option \<times> bool_rewriter \<times> ctx_state" where
  "process_args [] p = (None, p)"
| "process_args (arg # args) p =
     (case process_arg arg p of
        (Some r, p') \<Rightarrow> (Some r, p')
      | (None, p') \<Rightarrow> process_args args p')"

fun local_ctx_loop :: "nat \<Rightarrow> bool_rewriter \<Rightarrow> bool \<Rightarrow> bool \<Rightarrow> bool \<Rightarrow> expr list \<Rightarrow> (expr option \<times> bool_rewriter) option" where
  \<comment> \<open>the loop \<open>while (true)\<close>, one round per unit of fuel, \<open>None\<close> when the fuel is used up;
    inside, \<open>None\<close> for the result false\<close>
  "local_ctx_loop 0 rw simp md forward args = None"
| "local_ctx_loop (Suc n) rw simp md forward args =
     (let rw1 = add_cost (2 * length args) rw;
          st0 = \<lparr>c_new_args = [], c_neg_lits = {}, c_pos_lits = {}, c_modified = md, c_simp = simp\<rparr>;
          (res, rw2, st) = process_args (if forward then args else rev args) (rw1, st0)
      in case res of
           Some r \<Rightarrow> Some (Some r, rw2)
         | None \<Rightarrow>
             if forward then local_ctx_loop n rw2 (c_simp st) (c_modified st) False (c_new_args st)
             else if \<not> c_modified st then
               Some (if c_simp st then Some (mk_or_app args) else None, rw2)
             else local_ctx_loop n rw2 (c_simp st) False True (rev (c_new_args st)))"

fun weight :: "expr \<Rightarrow> nat" where
  "weight (VAR i s) = 1"
| "weight (APP f as) = (if f = OP_ITE then 9 else 1) + sum_list (map weight as)"

definition local_ctx_fuel :: "expr list \<Rightarrow> nat" where
  \<comment> \<open>every two rounds that modify something make the arguments lighter\<close>
  "local_ctx_fuel args = 2 * sum_list (map weight args) + 2"

definition local_ctx_simp :: "bool_rewriter \<Rightarrow> expr list \<Rightarrow> expr option \<times> bool_rewriter" where
  "local_ctx_simp rw args =
     (case local_ctx_loop (local_ctx_fuel args) rw False False True args of
        Some r \<Rightarrow> r
      | None \<Rightarrow> (None, rw))"

section \<open>Disjunctions and conjunctions\<close>

fun or_scan :: "bool_rewriter \<Rightarrow> expr list \<Rightarrow> expr set \<Rightarrow> expr set \<Rightarrow> expr option \<Rightarrow> bool \<Rightarrow> expr list \<Rightarrow> (bool \<times> expr list) option" where
  \<comment> \<open>the loop of \<open>mk_nflat_or_core\<close>; \<open>None\<close> when it returns with the result true\<close>
  "or_scan rw [] neg_lits pos_lits prev s buffer = Some (s, buffer)"
| "or_scan rw (arg # args) neg_lits pos_lits prev s buffer =
     (let s' = (s \<or> (case prev of None \<Rightarrow> False | Some p \<Rightarrow> m_lt rw arg p)) in
      if is_true arg then None
      else if is_false arg then or_scan rw args neg_lits pos_lits prev True buffer
      else if is_not arg then
        (let atom = get_arg arg 0 in
         if atom \<in> neg_lits then or_scan rw args neg_lits pos_lits prev True buffer
         else if atom \<in> pos_lits then None
         else or_scan rw args (insert atom neg_lits) pos_lits (Some arg) s' (buffer @ [arg]))
      else
        (if arg \<in> pos_lits then or_scan rw args neg_lits pos_lits prev True buffer
         else if arg \<in> neg_lits then None
         else or_scan rw args neg_lits (insert arg pos_lits) (Some arg) s' (buffer @ [arg])))"

definition mk_nflat_or_core :: "bool_rewriter \<Rightarrow> expr list \<Rightarrow> br \<times> bool_rewriter" where
  "mk_nflat_or_core rw args =
     (case or_scan rw args {} {} None False [] of
        None \<Rightarrow> (Some (BR_DONE, m_true), rw)
      | Some (s, buffer) \<Rightarrow>
          (case buffer of
             [] \<Rightarrow> (Some (BR_DONE, m_false), rw)
           | [a] \<Rightarrow> (Some (BR_DONE, a), rw)
           | _ \<Rightarrow>
               (let (r, rw1) = (if m_local_ctx rw \<and> m_local_ctx_cost rw \<le> m_local_ctx_limit rw
                                then local_ctx_simp rw buffer else (None, rw))
                in case r of
                     Some result \<Rightarrow> (Some (BR_DONE, result), rw1)
                   | None \<Rightarrow>
                       if s then (Some (BR_DONE, m_mk_or (sort_key (m_get_id rw) buffer)), rw1)
                       else (None, rw1))))"

fun flat_or_scan :: "bool_rewriter \<Rightarrow> expr list \<Rightarrow> expr option \<Rightarrow> bool \<Rightarrow> expr list \<Rightarrow> bool \<times> expr list" where
  "flat_or_scan rw [] prev ordered flat_args = (ordered, flat_args)"
| "flat_or_scan rw (arg # args) prev ordered flat_args =
     (if is_or arg then flat_or_scan rw args prev False (flat_args @ get_args arg)
      else flat_or_scan rw args (Some arg)
             (ordered \<and> (case prev of None \<Rightarrow> True | Some p \<Rightarrow> \<not> m_lt rw arg p)) (flat_args @ [arg]))"

definition mk_flat_or_core :: "bool_rewriter \<Rightarrow> expr list \<Rightarrow> br \<times> bool_rewriter" where
  "mk_flat_or_core rw args =
     (if list_ex is_or args then
        let (ordered, flat_args) = flat_or_scan rw (dropWhile (\<lambda>a. \<not> is_or a) args) None True
                                     (takeWhile (\<lambda>a. \<not> is_or a) args);
            (r, rw1) = mk_nflat_or_core rw flat_args
        in (Some (BR_DONE, br_result r
              (m_mk_or (if \<not> ordered then sort_key (m_get_id rw) flat_args else flat_args))), rw1)
      else mk_nflat_or_core rw args)"

definition mk_or_core :: "bool_rewriter \<Rightarrow> expr list \<Rightarrow> br \<times> bool_rewriter" where
  "mk_or_core rw args = (if m_flat rw then mk_flat_or_core rw args else mk_nflat_or_core rw args)"

definition mk_or :: "bool_rewriter \<Rightarrow> expr list \<Rightarrow> expr \<times> bool_rewriter" where
  "mk_or rw args = (let (r, rw1) = mk_or_core rw args in (br_result r (m_mk_or args), rw1))"

definition mk_and_as_or :: "bool_rewriter \<Rightarrow> expr list \<Rightarrow> expr \<times> bool_rewriter" where
  "mk_and_as_or rw args = (let (tmp, rw1) = mk_or rw (map (mk_not rw) args) in (mk_not rw1 tmp, rw1))"

fun and_scan :: "expr list \<Rightarrow> expr set \<Rightarrow> expr set \<Rightarrow> bool \<Rightarrow> expr list \<Rightarrow> (bool \<times> expr list) option" where
  \<comment> \<open>the loop of \<open>mk_nflat_and_core\<close>; \<open>None\<close> when it returns with the result false\<close>
  "and_scan [] neg_lits pos_lits s buffer = Some (s, buffer)"
| "and_scan (arg # args) neg_lits pos_lits s buffer =
     (if is_true arg then and_scan args neg_lits pos_lits True buffer
      else if is_false arg then None
      else if is_not arg then
        (let atom = get_arg arg 0 in
         if atom \<in> neg_lits then and_scan args neg_lits pos_lits True buffer
         else if atom \<in> pos_lits then None
         else and_scan args (insert atom neg_lits) pos_lits s (buffer @ [arg]))
      else
        (if arg \<in> pos_lits then and_scan args neg_lits pos_lits True buffer
         else if arg \<in> neg_lits then None
         else and_scan args neg_lits (insert arg pos_lits) s (buffer @ [arg])))"

definition mk_nflat_and_core :: "expr list \<Rightarrow> br" where
  "mk_nflat_and_core args =
     (case and_scan args {} {} False [] of
        None \<Rightarrow> Some (BR_DONE, m_false)
      | Some (s, buffer) \<Rightarrow>
          (case buffer of
             [] \<Rightarrow> Some (BR_DONE, m_true)
           | [a] \<Rightarrow> Some (BR_DONE, a)
           | _ \<Rightarrow> if s then Some (BR_DONE, m_mk_and buffer) else None))"

definition mk_flat_and_core :: "expr list \<Rightarrow> br" where
  "mk_flat_and_core args =
     (if list_ex is_and args then
        let flat_args = concat (map (\<lambda>a. if is_and a then get_args a else [a]) args)
        in Some (BR_DONE, br_result (mk_nflat_and_core flat_args) (m_mk_and flat_args))
      else mk_nflat_and_core args)"

definition mk_and_core :: "bool_rewriter \<Rightarrow> expr list \<Rightarrow> br \<times> bool_rewriter" where
  "mk_and_core rw args =
     (if m_elim_and rw then let (r, rw1) = mk_and_as_or rw args in (Some (BR_DONE, r), rw1)
      else if m_flat rw then (mk_flat_and_core args, rw)
      else (mk_nflat_and_core args, rw))"

definition mk_and :: "bool_rewriter \<Rightarrow> expr list \<Rightarrow> expr \<times> bool_rewriter" where
  "mk_and rw args = (let (r, rw1) = mk_and_core rw args in (br_result r (m_mk_and args), rw1))"

definition mk_implies :: "bool_rewriter \<Rightarrow> expr \<Rightarrow> expr \<Rightarrow> expr \<times> bool_rewriter" where
  "mk_implies rw lhs rhs = mk_or rw [mk_not rw lhs, rhs]"

definition mk_nand :: "bool_rewriter \<Rightarrow> expr list \<Rightarrow> expr \<times> bool_rewriter" where
  "mk_nand rw args = (let (tmp, rw1) = mk_and rw args in (mk_not rw1 tmp, rw1))"

definition mk_nor :: "bool_rewriter \<Rightarrow> expr list \<Rightarrow> expr \<times> bool_rewriter" where
  "mk_nor rw args = (let (tmp, rw1) = mk_or rw args in (mk_not rw1 tmp, rw1))"

definition mk_ge2 :: "bool_rewriter \<Rightarrow> expr \<Rightarrow> expr \<Rightarrow> expr \<Rightarrow> expr \<times> bool_rewriter" where
  "mk_ge2 rw a b c =
     (if is_false a then mk_and rw [b, c]
      else if is_false b then mk_and rw [a, c]
      else if is_false c then mk_and rw [a, b]
      else if is_true a then mk_or rw [b, c]
      else if is_true b then mk_or rw [a, c]
      else if is_true c then mk_or rw [a, b]
      else let (i1, rw1) = mk_and rw [a, b]; (i2, rw2) = mk_and rw1 [a, c]; (i3, rw3) = mk_and rw2 [b, c]
           in mk_or rw3 [i1, i2, i3])"

section \<open>Conditionals\<close>

definition ite_bool :: "bool_rewriter \<Rightarrow> expr \<Rightarrow> expr \<Rightarrow> expr \<Rightarrow> (expr \<times> bool_rewriter) option" where
  \<comment> \<open>the rules for a conditional of sort bool\<close>
  "ite_bool rw c t e =
     (if \<not> is_bool t then None
      else if is_true t \<and> is_false e then Some (c, rw)
      else if is_true t \<and> m_elim_ite rw then Some (mk_or rw [c, e])
      else if is_false t \<and> is_true e then Some (mk_not rw c, rw)
      else if is_false t \<and> m_elim_ite rw then Some (mk_and rw [mk_not rw c, e])
      else if is_true e \<and> m_elim_ite rw then Some (mk_or rw [mk_not rw c, t])
      else if is_false e \<and> m_elim_ite rw then Some (mk_and rw [c, t])
      else if c = e \<and> m_elim_ite rw then Some (mk_and rw [c, t])
      else if c = t \<and> m_elim_ite rw then Some (mk_or rw [c, e])
      else if is_complement_core t e \<and> m_elim_ite rw then Some (mk_eq rw c t, rw)
      else if is_complement_core e t \<and> m_elim_ite rw then Some (mk_eq rw c t, rw)
      else None)"

definition ite_then_ite :: "bool_rewriter \<Rightarrow> expr \<Rightarrow> expr \<Rightarrow> expr \<Rightarrow> (expr \<times> bool_rewriter) option" where
  \<comment> \<open>the extra rules for a conditional in the first branch\<close>
  "ite_then_ite rw c t e =
     (if \<not> (is_ite t \<and> m_ite_extra_rules rw \<and> m_elim_ite rw) then None
      else if e = get_arg t 1 then
        (let (new_c, rw1) = mk_and rw [c, mk_not rw (get_arg t 0)] in Some (m_mk_ite new_c (get_arg t 2) e, rw1))
      else if e = get_arg t 2 then
        (let (new_c, rw1) = mk_and rw [c, get_arg t 0] in Some (m_mk_ite new_c (get_arg t 1) e, rw1))
      else if is_ite e \<and> get_arg t 1 = get_arg e 1 \<and> get_arg t 2 = get_arg e 2 then
        (let (and1, rw1) = mk_and rw [c, get_arg t 0];
             (and2, rw2) = mk_and rw1 [mk_not rw1 c, get_arg e 0];
             (new_c, rw3) = mk_or rw2 [and1, and2]
         in Some (m_mk_ite new_c (get_arg t 1) (get_arg t 2), rw3))
      else if is_ite e \<and> get_arg t 1 = get_arg e 2 \<and> get_arg t 2 = get_arg e 1 then
        (let (and1, rw1) = mk_and rw [c, get_arg t 0];
             (and2, rw2) = mk_and rw1 [mk_not rw1 c, mk_not rw1 (get_arg e 0)];
             (new_c, rw3) = mk_or rw2 [and1, and2]
         in Some (m_mk_ite new_c (get_arg t 1) (get_arg t 2), rw3))
      else None)"

definition ite_else_ite :: "bool_rewriter \<Rightarrow> expr \<Rightarrow> expr \<Rightarrow> expr \<Rightarrow> (expr \<times> bool_rewriter) option" where
  \<comment> \<open>the extra rules for a conditional in the second branch\<close>
  "ite_else_ite rw c t e =
     (if \<not> (is_ite e \<and> m_ite_extra_rules rw \<and> m_elim_ite rw) then None
      else if t = get_arg e 1 then
        (let (new_c, rw1) = mk_or rw [c, get_arg e 0] in Some (m_mk_ite new_c t (get_arg e 2), rw1))
      else if t = get_arg e 2 then
        (let (new_c, rw1) = mk_or rw [c, mk_not rw (get_arg e 0)] in Some (m_mk_ite new_c t (get_arg e 1), rw1))
      else None)"

definition ite_simplify :: "bool_rewriter \<Rightarrow> bool \<Rightarrow> expr \<Rightarrow> expr \<Rightarrow> expr \<Rightarrow> br \<times> bool_rewriter" where
  \<comment> \<open>the rest of \<open>mk_ite_core\<close> after the conditionals on the same condition\<close>
  "ite_simplify rw s c t e =
     (if is_true c then (Some (BR_DONE, t), rw)
      else if is_false c then (Some (BR_DONE, e), rw)
      else if t = e then (Some (BR_DONE, t), rw)
      else case ite_bool rw c t e of
        Some (r, rw1) \<Rightarrow> (Some (BR_DONE, r), rw1)
      | None \<Rightarrow>
          (case ite_then_ite rw c t e of
             Some (r, rw1) \<Rightarrow> (Some (BR_REWRITE1, r), rw1)
           | None \<Rightarrow>
               (case ite_else_ite rw c t e of
                  Some (r, rw1) \<Rightarrow> (Some (BR_REWRITE1, r), rw1)
                | None \<Rightarrow> (if s then Some (BR_DONE, m_mk_ite c t e) else None, rw))))"

definition mk_ite_core :: "bool_rewriter \<Rightarrow> expr \<Rightarrow> expr \<Rightarrow> expr \<Rightarrow> br \<times> bool_rewriter" where
  "mk_ite_core rw c0 t0 e0 =
     (let s1 = is_not c0;
          c = (if s1 then get_arg c0 0 else c0);
          t1 = (if s1 then e0 else t0);
          e1 = (if s1 then t0 else e0);
          s2 = (is_ite t1 \<and> get_arg t1 0 = c);
          t = (if s2 then get_arg t1 1 else t1)
      in if is_ite e1 \<and> get_arg e1 1 = t then
           (Some (BR_REWRITE3, m_mk_ite (m_mk_or [c, get_arg e1 0]) t (get_arg e1 2)), rw)
         else
           (let s3 = (is_ite e1 \<and> get_arg e1 0 = c);
                e = (if s3 then get_arg e1 2 else e1)
            in ite_simplify rw (s1 \<or> s2 \<or> s3) c t e))"

definition mk_ite :: "bool_rewriter \<Rightarrow> expr \<Rightarrow> expr \<Rightarrow> expr \<Rightarrow> expr \<times> bool_rewriter" where
  "mk_ite rw c t e = (let (r, rw1) = mk_ite_core rw c t e in (br_result r (m_mk_ite c t e), rw1))"

section \<open>Distinct arguments\<close>

fun diff_scan :: "expr \<Rightarrow> expr list \<Rightarrow> bool option" where
  \<comment> \<open>the inner loop over the arguments before \<open>arg\<close>: \<open>None\<close> when it returns with the result false\<close>
  "diff_scan arg [] = Some True"
| "diff_scan arg (b # before) =
     (if are_distinct arg b then diff_scan arg before
      else if are_equal arg b then None
      else Some False)"

fun distinct_scan :: "expr list \<Rightarrow> bool \<Rightarrow> bool \<Rightarrow> expr list \<Rightarrow> bool option" where
  \<comment> \<open>\<open>before\<close> are the arguments visited so far\<close>
  "distinct_scan before all_value all_diff [] = Some all_diff"
| "distinct_scan before all_value all_diff (arg # args) =
     (if arg \<in> set before then None
      else
        let all_value' = (all_value \<and> is_unique_value arg)
        in case (if \<not> all_value' \<and> all_diff then diff_scan arg before else Some all_diff) of
             None \<Rightarrow> None
           | Some all_diff' \<Rightarrow> distinct_scan (before @ [arg]) all_value' all_diff' args)"

definition mk_distinct_core :: "bool_rewriter \<Rightarrow> expr list \<Rightarrow> br" where
  "mk_distinct_core rw args =
     (if length args \<le> 1 then Some (BR_DONE, m_true)
      else if length args = 2 then Some (BR_REWRITE2, m_mk_not (m_mk_eq (args ! 0) (args ! 1)))
      else case distinct_scan [] True True args of
        None \<Rightarrow> Some (BR_DONE, m_false)
      | Some all_diff \<Rightarrow>
          (if all_diff then Some (BR_DONE, m_true)
           else if is_bool (args ! 0) then Some (BR_DONE, m_false)
           else if m_blast_distinct rw \<and> of_nat (length args) < m_blast_distinct_threshold rw then
             Some (BR_REWRITE3, m_mk_and (concat (map (\<lambda>i. map (\<lambda>j. m_mk_not (m_mk_eq (args ! i) (args ! j)))
                                                       [Suc i..<length args]) [0..<length args])))
           else None))"

definition mk_distinct :: "bool_rewriter \<Rightarrow> expr list \<Rightarrow> expr" where
  "mk_distinct rw args = br_result (mk_distinct_core rw args) (m_mk_distinct args)"

section \<open>Dispatch\<close>

definition mk_app_core :: "bool_rewriter \<Rightarrow> func_decl \<Rightarrow> expr list \<Rightarrow> br \<times> bool_rewriter" where
  "mk_app_core rw f args =
     (case f of
        OP_EQ \<Rightarrow> (mk_eq_core rw (args ! 0) (args ! 1), rw)
      | OP_DISTINCT \<Rightarrow> (mk_distinct_core rw args, rw)
      | OP_AND \<Rightarrow> mk_and_core rw args
      | OP_OR \<Rightarrow> mk_or_core rw args
      | OP_NOT \<Rightarrow> (mk_not_core rw (args ! 0), rw)
      | OP_ITE \<Rightarrow> mk_ite_core rw (args ! 0) (args ! 1) (args ! 2)
      | OP_IMPLIES \<Rightarrow> (let (r, rw1) = mk_implies rw (args ! 0) (args ! 1) in (Some (BR_DONE, r), rw1))
      | OP_XOR \<Rightarrow> (case args of
            [a] \<Rightarrow> (Some (BR_DONE, a), rw)
          | [a, b] \<Rightarrow> (Some (BR_DONE, mk_xor rw a b), rw)
          | _ \<Rightarrow> (None, rw))
      | _ \<Rightarrow> (None, rw))"

definition mk_app :: "bool_rewriter \<Rightarrow> func_decl \<Rightarrow> expr list \<Rightarrow> expr \<times> bool_rewriter" where
  "mk_app rw f args = (let (r, rw1) = mk_app_core rw f args in (br_result r (APP f args), rw1))"

definition reduce_app :: "bool_rewriter \<Rightarrow> func_decl \<Rightarrow> expr list \<Rightarrow> br \<times> bool_rewriter" where
  \<comment> \<open>\<open>bool_rewriter_cfg::reduce_app\<close>, without the proof it never produces\<close>
  "reduce_app rw f args =
     (if get_family_id f \<noteq> basic_family then (None, rw) else mk_app_core rw f args)"

definition flat_assoc :: "bool_rewriter \<Rightarrow> func_decl \<Rightarrow> bool" where
  "flat_assoc rw f \<longleftrightarrow> m_flat rw \<and> (f = OP_AND \<or> f = OP_OR)"

end
