(* ===== verification/Bool_Rewriter_Sound.thy ===== *)
theory Bool_Rewriter_Sound
  imports Bool_Rewriter
begin

text \<open>
  The boolean rewriter keeps the meaning of terms: for every operation, the result is a
  well-sorted term of the same sort with the same value in every interpretation, whatever the
  parameters of the rewriter are. The local context simplification is treated together with the
  loop it runs in; that the loop ends is shown in \<open>Local_Context\<close>.
\<close>

section \<open>Equations and negations\<close>

definition is_equation :: "expr \<Rightarrow> expr \<Rightarrow> expr \<Rightarrow> bool" where
  "is_equation a b r \<longleftrightarrow> ok_bool r \<and> (\<forall>I. holds_in I r = (eval I a = eval I b))"

definition is_meaning :: "(interp \<Rightarrow> bool) \<Rightarrow> expr \<Rightarrow> bool" where
  "is_meaning P r \<longleftrightarrow> ok_bool r \<and> (\<forall>I. holds_in I r = P I)"

lemma are_equal_sound: "are_equal a b \<Longrightarrow> eval I a = eval I b"
  by (simp add: are_equal_iff)

lemma are_distinct_sym_sound:
  assumes "well_sorted a" "well_sorted b" "are_distinct a b"
  shows "eval I a \<noteq> eval I b" "eval I b \<noteq> eval I a"
  using are_distinct_sound [OF assms, of I] by simp_all

lemma APP_ITE: "APP OP_ITE [c, t, e] = m_mk_ite c t e"
  by (simp add: m_mk_ite_def)

lemma ite_of_values_ite: "ite_of_values t \<Longrightarrow> is_ite t"
  by (simp add: ite_of_values_def)

lemma is_equation_ite: "is_equation (APP OP_ITE [c, t, e]) v r \<longleftrightarrow>
    ok_bool r \<and> (\<forall>I. holds_in I r = ((if holds_in I c then eval I t else eval I e) = eval I v))"
  by (simp add: is_equation_def APP_ITE term_simps)

lemma try_ite_value_sound:
  assumes "try_ite_value ite val = Some (st, r)" "well_sorted ite" "well_sorted val" "get_sort ite = get_sort val"
  shows "is_equation ite val r"
  using assms
proof (induction ite val arbitrary: st r rule: try_ite_value.induct)
  case (1 cond t e val)
  then have s: "ok_bool cond" "well_sorted t" "well_sorted e" "get_sort t = get_sort val" "get_sort e = get_sort val"
    by (auto simp: APP_ITE term_simps)
  note ih1 = 1(1) [OF _ _ _ _ _ _ s(2) 1(5) s(4)]
  note ih2 = 1(2) [OF _ _ _ _ _ _ _ s(3) 1(5) s(5)]
  note d = are_distinct_sym_sound(2) [OF 1(5) s(3)] are_distinct_sym_sound(2) [OF 1(5) s(2)]
  show ?case
  proof (cases "are_distinct val e \<or> are_distinct val t \<or> are_equal val t \<or> are_equal val e")
    case True
    with 1(3) consider
        (de) "are_distinct val e" "r = m_mk_and [m_mk_eq t val, cond]"
      | (dt) "are_distinct val t" "r = m_mk_and [m_mk_eq e val, m_mk_not cond]"
      | (eb) "val = t" "val = e" "r = m_true"
      | (et) "val = t" "r = m_mk_or [m_mk_eq e val, cond]"
      | (ee) "val = e" "r = m_mk_or [m_mk_eq t val, m_mk_not cond]"
      by (auto simp: are_equal_iff split: if_splits)
    then show ?thesis
    proof cases
      case de
      with s 1(5) d(1) [OF de(1)] show ?thesis unfolding is_equation_ite by (simp add: term_simps)
    next
      case dt
      with s 1(5) d(2) [OF dt(1)] show ?thesis unfolding is_equation_ite by (simp add: term_simps)
    next
      case eb
      then show ?thesis unfolding is_equation_ite by (simp add: term_simps)
    next
      case et
      with s(1-3,5) 1(5) show ?thesis unfolding is_equation_ite by (simp add: term_simps)
    next
      case ee
      with s(1-4) 1(5) show ?thesis unfolding is_equation_ite by (simp add: term_simps)
    qed
  next
    case False
    show ?thesis
    proof (cases "if ite_of_values t then try_ite_value t val else None")
      case (Some p)
      obtain st' r' where p: "p = (st', r')" by (cases p)
      with False Some 1(3) have r: "r = m_mk_ite cond r' (m_mk_eq e val)" by (auto split: if_splits)
      from False Some p have "is_equation t val r'" by (intro ih1) (auto split: if_splits)
      with s 1(5) r show ?thesis unfolding is_equation_ite by (simp add: is_equation_def term_simps)
    next
      case None
      with False 1(3) obtain st' r' where p: "(if ite_of_values e then try_ite_value e val else None) = Some (st', r')"
        by (auto split: option.splits if_splits)
      with False None 1(3) have r: "r = m_mk_ite cond (m_mk_eq t val) r'" by (auto split: if_splits)
      from False None p have "is_equation e val r'" by (intro ih2) (auto split: if_splits)
      with s 1(5) r show ?thesis unfolding is_equation_ite by (simp add: is_equation_def term_simps)
    qed
  qed
qed simp_all

lemma ite_rules_sound:
  assumes "ite_rules rw a b = Some (st, r)" "well_sorted a" "well_sorted b" "get_sort a = get_sort b"
  shows "is_equation a b r"
proof -
  from assms(1) consider "try_ite_value a b = Some (st, r)" | "try_ite_value b a = Some (st, r)"
    by (auto simp: ite_rules_def split: if_splits)
  then show ?thesis
  proof cases
    case 1
    with assms show ?thesis by (simp add: try_ite_value_sound)
  next
    case 2
    then have "is_equation b a r" using assms by (intro try_ite_value_sound) simp_all
    then show ?thesis unfolding is_equation_def by metis
  qed
qed

lemma is_complement_value:
  assumes "is_complement a b" "ok_bool a" "ok_bool b"
  shows "holds_in I a = (\<not> holds_in I b)"
  using assms by (auto simp: is_complement_def is_complement_core_def is_true_def is_false_def is_not_iff term_simps)

lemma opposite_args_value:
  assumes "opposite_args a b" "well_sorted a" "well_sorted b"
  shows "ok_bool a \<and> ok_bool b \<and> holds_in I a = (\<not> holds_in I b)"
  using assms by (auto simp: opposite_args_def is_not_iff term_simps)

lemma opposite_eqs_value:
  assumes "opposite_eqs a b" "ok_bool a" "ok_bool b"
  shows "holds_in I a = (\<not> holds_in I b)"
proof -
  from assms obtain la lb ra rb where e: "a = m_mk_eq la lb" "b = m_mk_eq ra rb"
    by (auto simp: opposite_eqs_def is_eq_iff)
  with assms have "la = ra \<and> opposite_args lb rb \<or> lb = rb \<and> opposite_args la ra"
    by (simp add: opposite_eqs_def Let_def term_simps)
  then show ?thesis
  proof
    assume o: "la = ra \<and> opposite_args lb rb"
    with e assms opposite_args_value [of lb rb I] have "ok_bool lb" "ok_bool rb" "holds_in I lb = (\<not> holds_in I rb)"
      by (auto simp: term_simps)
    with o e assms show ?thesis
      by (auto simp: term_simps well_sorted_bool eval_eq_bool ok_bool_def is_bool_def eval_bool)
  next
    assume o: "lb = rb \<and> opposite_args la ra"
    with e assms opposite_args_value [of la ra I] have "ok_bool la" "ok_bool ra" "holds_in I la = (\<not> holds_in I ra)"
      by (auto simp: term_simps)
    with o e assms show ?thesis
      by (auto simp: term_simps well_sorted_bool eval_eq_bool ok_bool_def is_bool_def eval_bool)
  qed
qed

lemma bool_equation:
  assumes "ok_bool a" "ok_bool b"
  shows "is_equation a b r \<longleftrightarrow> is_meaning (\<lambda>I. holds_in I a = holds_in I b) r"
  using assms by (simp add: is_equation_def is_meaning_def eval_eq_bool)

lemma mk_not_mk_eq_sound:
  "ok_bool t \<Longrightarrow> is_meaning (\<lambda>I. \<not> holds_in I t) (br_result (mk_not_core rw t) (m_mk_not t))"
  "well_sorted l \<Longrightarrow> well_sorted r \<Longrightarrow> get_sort l = get_sort r \<Longrightarrow>
     is_equation l r (br_result (mk_eq_core rw l r) (m_mk_eq l r))"
proof (induction rw t and rw l r rule: mk_not_core_mk_eq_core.induct)
  case (1 rw t)
  show ?case
  proof (cases "\<not> is_not t \<and> is_eq t \<and> is_bool (get_arg t 0)")
    case True
    then obtain a b where t: "t = m_mk_eq a b" by (auto simp: is_eq_iff)
    from True 1(3) have ab: "ok_bool a" "ok_bool b"
      unfolding t by (auto simp: term_simps ok_bool_def [of a] ok_bool_def [of b] is_bool_def)
    define tmp where "tmp = br_result (mk_not_core rw a) (m_mk_not a)"
    from ab have s: "well_sorted a" "well_sorted b" "is_bool a" "get_sort a = BOOL_SORT" "get_sort b = BOOL_SORT"
      by (simp_all add: ok_bool_def is_bool_def)
    have n: "is_meaning (\<lambda>I. \<not> holds_in I a) tmp"
      using 1(1) s ab unfolding t tmp_def by (simp add: term_simps)
    then have tmp: "ok_bool tmp" "well_sorted tmp" "get_sort tmp = BOOL_SORT"
      by (simp_all add: is_meaning_def ok_bool_def is_bool_def)
    have "is_equation tmp b (br_result (mk_eq_core rw tmp b) (m_mk_eq tmp b))"
      using 1(2) s tmp unfolding t by (simp add: term_simps tmp_def)
    then have "is_meaning (\<lambda>I. holds_in I a \<noteq> holds_in I b) (br_result (mk_eq_core rw tmp b) (m_mk_eq tmp b))"
      using n by (auto simp: bool_equation [OF tmp(1) ab(2)] is_meaning_def)
    then show ?thesis
      using s ab unfolding t mk_not_core.simps [of rw "m_mk_eq a b"]
      by (simp add: term_simps tmp_def [symmetric] is_meaning_def eval_eq_bool)
  next
    case False
    with 1(3) show ?thesis
      by (auto simp: mk_not_core.simps [of rw t] is_meaning_def is_not_iff is_true_def is_false_def term_simps)
  qed
next
  case (2 rw l r)
  show ?case
  proof (cases "are_equal l r \<or> are_distinct l r \<or> ite_rules rw l r \<noteq> None \<or> \<not> is_bool l")
    case True
    with 2(3-) ite_rules_sound [of rw l r] are_distinct_sound [of l r] show ?thesis
      by (auto simp: mk_eq_core.simps [of rw l r] is_equation_def are_equal_iff term_simps)
  next
    case False
    with 2(3-) have b: "ok_bool l" "ok_bool r" by (auto simp: ok_bool_def is_bool_def)
    define u where "u \<longleftrightarrow> is_not l \<and> is_not r"
    define l' where "l' = (if u then get_arg l 0 else l)"
    define r' where "r' = (if u then get_arg r 0 else r)"
    have b': "ok_bool l'" "ok_bool r'"
      using b by (auto simp: l'_def r'_def u_def is_not_iff term_simps)
    have h: "(holds_in I l = holds_in I r) = (holds_in I l' = holds_in I r')" for I
      using b by (auto simp: l'_def r'_def u_def is_not_iff term_simps)
    note ih = 2(1,2) [OF _ _ _ _ u_def l'_def r'_def]
    have "is_meaning (\<lambda>I. holds_in I l' = holds_in I r') (br_result (mk_eq_core rw l r) (m_mk_eq l r))"
    proof -
      note c = is_complement_value [OF _ b'] opposite_eqs_value [OF _ b']
      from False have *: "br_result (mk_eq_core rw l r) (m_mk_eq l r) =
        (if is_true l' then r'
         else if is_false l' then br_result (mk_not_core rw r') (m_mk_not r')
         else if is_true r' then l'
         else if is_false r' then br_result (mk_not_core rw l') (m_mk_not l')
         else if is_complement l' r' then m_false
         else if u then m_mk_eq l' r'
         else if opposite_eqs l' r' then m_false
         else m_mk_eq l' r')"
        unfolding mk_eq_core.simps [of rw l r] Let_def u_def [symmetric] l'_def [symmetric] r'_def [symmetric]
        by (simp add: l'_def r'_def)
      from False ih b b' show ?thesis
        unfolding *
        by (simp split del: if_split)
          (auto simp: is_meaning_def is_true_def is_false_def term_simps eval_eq_bool c ok_bool_def is_bool_def)
    qed
    with b b' h show ?thesis by (simp add: bool_equation is_meaning_def)
  qed
qed

named_theorems rw_simps

lemma mk_not_ok [rw_simps]:
  assumes "ok_bool t"
  shows "ok_bool (mk_not rw t)" "holds_in I (mk_not rw t) = (\<not> holds_in I t)"
  using mk_not_mk_eq_sound(1) [OF assms, of rw] by (simp_all add: mk_not_def is_meaning_def)

lemma mk_eq_ok [rw_simps]:
  assumes "well_sorted l" "well_sorted r" "get_sort l = get_sort r"
  shows "ok_bool (mk_eq rw l r)" "holds_in I (mk_eq rw l r) = (eval I l = eval I r)"
  using mk_not_mk_eq_sound(2) [OF assms, of rw] by (simp_all add: mk_eq_def is_equation_def)

lemma ok_boolD: "ok_bool a \<Longrightarrow> well_sorted a \<and> get_sort a = BOOL_SORT \<and> is_bool a"
  by (simp add: ok_bool_def is_bool_def)

lemma mk_eq_bool_ok [rw_simps]:
  assumes "ok_bool l" "ok_bool r"
  shows "ok_bool (mk_eq rw l r)" "holds_in I (mk_eq rw l r) = (holds_in I l = holds_in I r)"
  using assms mk_eq_ok [of l r] ok_boolD [OF assms(1)] ok_boolD [OF assms(2)]
  by (simp_all add: eval_eq_bool)

lemma mk_xor_ok [rw_simps]:
  assumes "ok_bool l" "ok_bool r"
  shows "ok_bool (mk_xor rw l r)" "holds_in I (mk_xor rw l r) = (holds_in I l \<noteq> holds_in I r)"
  using assms by (auto simp: mk_xor_def rw_simps)

lemma mk_iff_ok [rw_simps]:
  assumes "ok_bool l" "ok_bool r"
  shows "ok_bool (mk_iff rw l r)" "holds_in I (mk_iff rw l r) = (holds_in I l = holds_in I r)"
  using assms by (auto simp: mk_iff_def rw_simps)

section \<open>Literals of a scan\<close>

text \<open>The marks of a loop over the arguments of a disjunction are literals of its buffer.\<close>

definition marked_in :: "expr list \<Rightarrow> expr set \<Rightarrow> expr set \<Rightarrow> bool" where
  "marked_in buffer neg pos \<longleftrightarrow> list_all ok_bool buffer \<and>
     (\<forall>a \<in> pos. a \<in> set buffer) \<and> (\<forall>a \<in> neg. m_mk_not a \<in> set buffer)"

lemma marked_in_Nil [simp]: "marked_in [] {} {}"
  by (simp add: marked_in_def)

lemma marked_in_neg [intro]:
  "marked_in buffer neg pos \<Longrightarrow> ok_bool a \<Longrightarrow> marked_in (buffer @ [m_mk_not a]) (insert a neg) pos"
  by (auto simp: marked_in_def term_simps)

lemma marked_in_pos [intro]:
  "marked_in buffer neg pos \<Longrightarrow> ok_bool a \<Longrightarrow> marked_in (buffer @ [a]) neg (insert a pos)"
  by (auto simp: marked_in_def)

lemma marked_pos: "marked_in buffer neg pos \<Longrightarrow> a \<in> pos \<Longrightarrow> holds_in I a \<Longrightarrow> list_ex (holds_in I) buffer"
  by (auto simp: marked_in_def list_ex_iff)

lemma marked_neg: "marked_in buffer neg pos \<Longrightarrow> a \<in> neg \<Longrightarrow> \<not> holds_in I a \<Longrightarrow> list_ex (holds_in I) buffer"
  by (force simp: marked_in_def list_ex_iff term_simps)

lemma marked_neg_or: "marked_in buffer neg pos \<Longrightarrow> a \<in> neg \<Longrightarrow> list_ex (holds_in I) buffer \<or> holds_in I a"
  using marked_neg by blast

lemma marked_pos_all: "marked_in buffer neg pos \<Longrightarrow> a \<in> pos \<Longrightarrow> list_all (holds_in I) buffer \<Longrightarrow> holds_in I a"
  by (auto simp: marked_in_def list_all_iff)

lemma marked_neg_all: "marked_in buffer neg pos \<Longrightarrow> a \<in> neg \<Longrightarrow> list_all (holds_in I) buffer \<Longrightarrow> \<not> holds_in I a"
  by (force simp: marked_in_def list_all_iff term_simps)

lemma ok_bool_cases:
  assumes "ok_bool arg"
  obtains (true) "arg = m_true" | (false) "arg = m_false" | (neg) atom where "arg = m_mk_not atom" "ok_bool atom"
  | (pos) "\<not> is_not arg" "\<not> is_true arg" "\<not> is_false arg"
  using assms by (cases "is_not arg") (auto simp: is_not_iff is_true_def is_false_def term_simps)

definition or_spec :: "(bool \<times> expr list) option \<Rightarrow> expr list \<Rightarrow> bool" where
  "or_spec r args \<longleftrightarrow> (case r of None \<Rightarrow> \<forall>I. list_ex (holds_in I) args
     | Some (s, buffer) \<Rightarrow> list_all ok_bool buffer \<and> (\<forall>I. list_ex (holds_in I) buffer = list_ex (holds_in I) args))"

definition and_spec :: "(bool \<times> expr list) option \<Rightarrow> expr list \<Rightarrow> bool" where
  "and_spec r args \<longleftrightarrow> (case r of None \<Rightarrow> \<forall>I. \<not> list_all (holds_in I) args
     | Some (s, buffer) \<Rightarrow> list_all ok_bool buffer \<and> (\<forall>I. list_all (holds_in I) buffer = list_all (holds_in I) args))"

lemma or_spec_skip:
  assumes "or_spec r (buffer @ args)" "\<And>I. holds_in I arg \<Longrightarrow> list_ex (holds_in I) buffer"
  shows "or_spec r (buffer @ arg # args)"
  using assms by (auto simp: or_spec_def split: option.splits)

lemma and_spec_skip:
  assumes "and_spec r (buffer @ args)" "\<And>I. list_all (holds_in I) buffer \<Longrightarrow> holds_in I arg"
  shows "and_spec r (buffer @ arg # args)"
  using assms by (auto simp: and_spec_def split: option.splits)

lemma or_scan_sound:
  assumes "marked_in buffer neg pos" "list_all ok_bool args"
  shows "or_spec (or_scan rw args neg pos prev s buffer) (buffer @ args)"
  using assms
proof (induction args arbitrary: neg pos prev s buffer)
  case Nil
  then show ?case by (simp add: marked_in_def or_spec_def)
next
  case (Cons arg args)
  note mk = Cons.prems(1)
  from Cons.prems have ok: "ok_bool arg" "list_all ok_bool args" by simp_all
  have skip: "or_spec (or_scan rw args neg pos prev True buffer) (buffer @ arg # args)"
    if "\<And>I. holds_in I arg \<Longrightarrow> list_ex (holds_in I) buffer"
    using that by (intro or_spec_skip Cons.IH mk ok)
  from ok(1) show ?case
  proof (cases rule: ok_bool_cases)
    case true
    then show ?thesis by (simp add: term_simps or_spec_def)
  next
    case false
    with skip show ?thesis by (simp add: term_simps)
  next
    case (neg atom)
    have "or_spec (or_scan rw args (insert atom neg) pos (Some arg) s' (buffer @ [arg])) (buffer @ arg # args)" for s'
      using Cons.IH [OF marked_in_neg [OF mk neg(2)] ok(2)] neg(1) by simp
    with neg skip marked_neg [OF mk, of atom] marked_pos [OF mk, of atom] show ?thesis
      by (auto simp: term_simps Let_def or_spec_def [of None])
  next
    case pos
    have "or_spec (or_scan rw args neg (insert arg pos) (Some arg) s' (buffer @ [arg])) (buffer @ arg # args)" for s'
      using Cons.IH [OF marked_in_pos [OF mk ok(1)] ok(2)] by simp
    with pos skip marked_neg [OF mk, of arg] marked_pos [OF mk, of arg] show ?thesis
      by (auto simp: Let_def or_spec_def [of None])
  qed
qed

lemma and_scan_sound:
  assumes "marked_in buffer neg pos" "list_all ok_bool args"
  shows "and_spec (and_scan args neg pos s buffer) (buffer @ args)"
  using assms
proof (induction args arbitrary: neg pos s buffer)
  case Nil
  then show ?case by (simp add: marked_in_def and_spec_def)
next
  case (Cons arg args)
  note mk = Cons.prems(1)
  from Cons.prems have ok: "ok_bool arg" "list_all ok_bool args" by simp_all
  have skip: "and_spec (and_scan args neg pos True buffer) (buffer @ arg # args)"
    if "\<And>I. list_all (holds_in I) buffer \<Longrightarrow> holds_in I arg"
    using that by (intro and_spec_skip Cons.IH mk ok)
  from ok(1) show ?case
  proof (cases rule: ok_bool_cases)
    case true
    with skip show ?thesis by (simp add: term_simps)
  next
    case false
    then show ?thesis by (simp add: term_simps and_spec_def)
  next
    case (neg atom)
    have "and_spec (and_scan args (insert atom neg) pos s (buffer @ [arg])) (buffer @ arg # args)"
      using Cons.IH [OF marked_in_neg [OF mk neg(2)] ok(2)] neg(1) by simp
    with neg skip marked_neg_all [OF mk, of atom] marked_pos_all [OF mk, of atom] show ?thesis
      by (auto simp: term_simps Let_def and_spec_def [of None])
  next
    case pos
    have "and_spec (and_scan args neg (insert arg pos) s (buffer @ [arg])) (buffer @ arg # args)"
      using Cons.IH [OF marked_in_pos [OF mk ok(1)] ok(2)] by simp
    with pos skip marked_neg_all [OF mk, of arg] marked_pos_all [OF mk, of arg] show ?thesis
      by (auto simp: Let_def and_spec_def [of None])
  qed
qed

section \<open>Local context simplification\<close>

text \<open>
  Inside a disjunction, an argument may be simplified under the assumption that the literals
  collected from the other arguments are false.
\<close>

definition falsifies :: "interp \<Rightarrow> expr set \<Rightarrow> expr set \<Rightarrow> bool" where
  "falsifies I neg pos \<longleftrightarrow> (\<forall>a \<in> pos. \<not> holds_in I a) \<and> (\<forall>a \<in> neg. holds_in I a)"

definition bool_marks :: "expr set \<Rightarrow> expr set \<Rightarrow> bool" where
  "bool_marks neg pos \<longleftrightarrow> (\<forall>a \<in> neg \<union> pos. ok_bool a)"

lemma marked_in_bool: "marked_in buffer neg pos \<Longrightarrow> bool_marks neg pos"
  unfolding marked_in_def bool_marks_def list_all_iff
  by (metis UnE ok_bool_m(3))

lemma bool_marksD: "bool_marks neg pos \<Longrightarrow> a \<in> neg \<or> a \<in> pos \<Longrightarrow> ok_bool a"
  by (auto simp: bool_marks_def)

lemma marked_in_falsifies:
  "marked_in buffer neg pos \<Longrightarrow> \<not> list_ex (holds_in I) buffer \<Longrightarrow> falsifies I neg pos"
  using marked_pos marked_neg unfolding falsifies_def by blast

lemma simp_arg_cases:
  obtains (same) "simp_arg neg pos a = (a, False)"
  | (false) "simp_arg neg pos a = (m_false, True)" "a \<in> pos \<or> (\<exists>x \<in> neg. a = m_mk_not x)"
  | (true) "simp_arg neg pos a = (m_true, True)" "a \<in> neg \<or> (\<exists>x \<in> pos. a = m_mk_not x)"
proof -
  have "simp_arg neg pos a = (a, False) \<or>
      simp_arg neg pos a = (m_false, True) \<and> (a \<in> pos \<or> (\<exists>x \<in> neg. a = m_mk_not x)) \<or>
      simp_arg neg pos a = (m_true, True) \<and> (a \<in> neg \<or> (\<exists>x \<in> pos. a = m_mk_not x))"
    by (auto simp: simp_arg_def is_not_iff term_simps)
  with that show ?thesis by blast
qed

lemma literal_values:
  assumes "bool_marks neg pos"
  shows "a \<in> pos \<or> (\<exists>x \<in> neg. a = m_mk_not x) \<Longrightarrow> ok_bool a \<and> (falsifies I neg pos \<longrightarrow> \<not> holds_in I a)"
    "a \<in> neg \<or> (\<exists>x \<in> pos. a = m_mk_not x) \<Longrightarrow> ok_bool a \<and> (falsifies I neg pos \<longrightarrow> holds_in I a)"
  using bool_marksD [OF assms] by (auto simp: falsifies_def term_simps)

lemma simp_arg_sound:
  assumes "bool_marks neg pos" "well_sorted a"
  shows "well_sorted (fst (simp_arg neg pos a))" "get_sort (fst (simp_arg neg pos a)) = get_sort a"
    "falsifies I neg pos \<Longrightarrow> eval I (fst (simp_arg neg pos a)) = eval I a"
proof -
  have "well_sorted (fst (simp_arg neg pos a)) \<and> get_sort (fst (simp_arg neg pos a)) = get_sort a \<and>
      (falsifies I neg pos \<longrightarrow> eval I (fst (simp_arg neg pos a)) = eval I a)"
  proof (cases a rule: simp_arg_cases [of neg pos])
    case same
    with assms show ?thesis by simp
  next
    case false
    with literal_values(1) [OF assms(1) false(2), of I] show ?thesis
      by (auto simp: term_simps eval_bool dest: ok_boolD)
  next
    case true
    with literal_values(2) [OF assms(1) true(2), of I] show ?thesis
      by (auto simp: term_simps eval_bool dest: ok_boolD)
  qed
  then show "well_sorted (fst (simp_arg neg pos a))" "get_sort (fst (simp_arg neg pos a)) = get_sort a"
    "falsifies I neg pos \<Longrightarrow> eval I (fst (simp_arg neg pos a)) = eval I a" by simp_all
qed

lemma simp_arg_bool:
  assumes "bool_marks neg pos" "ok_bool a"
  shows "ok_bool (fst (simp_arg neg pos a))"
    "falsifies I neg pos \<Longrightarrow> holds_in I (fst (simp_arg neg pos a)) = holds_in I a"
  using simp_arg_sound [OF assms(1), of a] ok_boolD [OF assms(2)]
  by (simp_all add: ok_bool_def is_bool_def holds_in_def)

lemma nested_not_or_scan_sound:
  assumes "bool_marks neg pos" "list_all ok_bool args" "list_all ok_bool new"
  shows "case nested_not_or_scan args neg pos simp new of
      None \<Rightarrow> \<forall>I. falsifies I neg pos \<longrightarrow> list_ex (holds_in I) (new @ args)
    | Some (simp', new') \<Rightarrow> list_all ok_bool new' \<and>
        (\<forall>I. falsifies I neg pos \<longrightarrow> list_ex (holds_in I) new' = list_ex (holds_in I) (new @ args))"
  using assms
proof (induction args arbitrary: simp new)
  case (Cons arg args)
  then have ok: "ok_bool arg" "list_all ok_bool args" by simp_all
  note skip = Cons.IH [OF Cons.prems(1) ok(2) Cons.prems(3), of True]
  have keep: "list_all ok_bool (new @ [arg])" using Cons.prems ok by simp
  note keep = Cons.IH [OF Cons.prems(1) ok(2) keep, of simp]
  have t: "falsifies I neg pos \<Longrightarrow> holds_in I arg"
    if "arg \<in> neg \<or> is_not arg \<and> get_arg arg 0 \<in> pos" for I
    using that by (auto simp: falsifies_def is_not_iff term_simps)
  have f: "falsifies I neg pos \<Longrightarrow> \<not> holds_in I arg"
    if "arg \<in> pos \<or> is_not arg \<and> get_arg arg 0 \<in> neg" for I
    using that by (auto simp: falsifies_def is_not_iff term_simps)
  show ?case
  proof (cases "arg \<in> neg \<or> is_not arg \<and> get_arg arg 0 \<in> pos")
    case True
    note h = t [OF True]
    show ?thesis
    proof (cases "nested_not_or_scan (arg # args) neg pos simp new = None")
      case True
      with h show ?thesis by simp
    next
      case False
      with True have "arg \<in> pos \<or> is_not arg \<and> get_arg arg 0 \<in> neg"
        "nested_not_or_scan (arg # args) neg pos simp new = nested_not_or_scan args neg pos True new"
        by (auto split: if_splits)
      with skip f show ?thesis by (auto split: option.splits)
    qed
  next
    case False
    with skip keep f show ?thesis by (auto split: option.splits)
  qed
qed simp

lemma simp_nested_not_or_sound:
  assumes "bool_marks neg pos" "list_all ok_bool args"
    and "simp_nested_not_or rw args neg pos = (Some r, rw')"
  shows "ok_bool r" "falsifies I neg pos \<Longrightarrow> holds_in I r = (\<not> list_ex (holds_in I) args)"
proof -
  note s = nested_not_or_scan_sound [OF assms(1,2), of "[]" False]
  have "ok_bool r \<and> (falsifies I neg pos \<longrightarrow> holds_in I r = (\<not> list_ex (holds_in I) args))"
    using s assms(3)
    by (auto simp: simp_nested_not_or_def term_simps rw_simps split: option.splits if_splits list.splits)
  then show "ok_bool r" "falsifies I neg pos \<Longrightarrow> holds_in I r = (\<not> list_ex (holds_in I) args)" by simp_all
qed

lemma is_complement_core_value:
  assumes "is_complement_core a b" "ok_bool a" "ok_bool b"
  shows "holds_in I a = (\<not> holds_in I b)"
  using is_complement_value [of a b I] assms by (simp add: is_complement_def)

definition is_conditional :: "expr \<Rightarrow> expr \<Rightarrow> expr \<Rightarrow> expr \<Rightarrow> bool" where
  "is_conditional c t e r \<longleftrightarrow> well_sorted r \<and> get_sort r = get_sort t \<and>
     (\<forall>I. eval I r = (if holds_in I c then eval I t else eval I e))"

lemma bool_conditional:
  assumes "ok_bool t" "ok_bool e"
  shows "is_conditional c t e r \<longleftrightarrow> is_meaning (\<lambda>I. if holds_in I c then holds_in I t else holds_in I e) r"
proof -
  have "well_sorted r \<and> get_sort r = get_sort t \<longleftrightarrow> ok_bool r"
    using assms by (simp add: ok_bool_def is_bool_def)
  moreover have "ok_bool r \<Longrightarrow> eval I r = (if holds_in I c then eval I t else eval I e) \<longleftrightarrow>
      holds_in I r = (if holds_in I c then holds_in I t else holds_in I e)" for I
    using assms by (simp add: eval_bool)
  ultimately show ?thesis unfolding is_conditional_def is_meaning_def by blast
qed

lemma if_meaning:
  assumes "b \<Longrightarrow> is_meaning P x" "\<not> b \<Longrightarrow> is_meaning P y"
  shows "is_meaning P (if b then x else y)"
  using assms by simp

lemma mk_nested_ite_sound:
  assumes "ok_bool c" "well_sorted t" "well_sorted e" "get_sort t = get_sort e"
  shows "is_conditional c t e (mk_nested_ite rw c t e)"
proof (cases "is_bool t")
  case False
  with assms show ?thesis
    by (auto simp: mk_nested_ite_def is_conditional_def is_true_def is_false_def term_simps)
next
  case True
  with assms have b: "ok_bool t" "ok_bool e" by (auto simp: ok_bool_def is_bool_def)
  note v = is_complement_core_value [OF _ b] is_complement_core_value [OF _ b(2,1)]
  show ?thesis
    unfolding bool_conditional [OF b] mk_nested_ite_def is_true_def is_false_def
    using assms(1) b
    by (intro if_meaning; (elim conjE disjE)?; simp add: is_meaning_def term_simps rw_simps v)
qed

lemma simp_nested_eq_ite_sound:
  assumes "bool_marks neg pos" "ok_bool t"
    and "simp_nested_eq_ite rw t neg pos = (Some r, rw')"
  shows "ok_bool r \<and> (falsifies I neg pos \<longrightarrow> holds_in I r = holds_in I t)"
proof -
  define u where "u = (if is_not t then get_arg t 0 else t)"
  have u: "ok_bool u" "holds_in I t = (if is_not t then \<not> holds_in I u else holds_in I u)"
    using assms(2) by (auto simp: u_def is_not_iff term_simps)
  note sa = simp_arg_sound [OF assms(1)]
  have "\<exists>q. r = (if is_not t then mk_not rw q else q) \<and> ok_bool q \<and>
      (falsifies I neg pos \<longrightarrow> holds_in I q = holds_in I u)"
  proof (cases "is_eq u")
    case True
    then obtain a b where ab: "u = m_mk_eq a b" by (auto simp: is_eq_iff)
    with u have s: "well_sorted a" "well_sorted b" "get_sort a = get_sort b" by (simp_all add: term_simps)
    let ?q = "mk_eq rw (fst (simp_arg neg pos a)) (fst (simp_arg neg pos b))"
    have "r = (if is_not t then mk_not rw ?q else ?q)"
      using assms(3) ab True unfolding simp_nested_eq_ite_def u_def [symmetric] Let_def
      by (simp add: term_simps split: prod.splits if_splits)
    moreover have "ok_bool ?q" "falsifies I neg pos \<longrightarrow> holds_in I ?q = holds_in I u"
      using sa [OF s(1)] sa [OF s(2)] s by (simp_all add: rw_simps ab term_simps)
    ultimately show ?thesis by blast
  next
    case False
    then have "is_ite u"
      using assms(3) unfolding simp_nested_eq_ite_def u_def [symmetric] Let_def by (simp split: if_splits)
    then obtain c a b where ab: "u = m_mk_ite c a b" by (auto simp: is_ite_iff)
    with u have s: "ok_bool c" "ok_bool a" "ok_bool b" by (simp_all add: term_simps)
    let ?a = "\<lambda>x. fst (simp_arg neg pos x)"
    let ?q = "mk_nested_ite rw (?a c) (?a a) (?a b)"
    have "r = (if is_not t then mk_not rw ?q else ?q)"
      using assms(3) ab False unfolding simp_nested_eq_ite_def u_def [symmetric] Let_def
      by (simp add: term_simps split: prod.splits if_splits)
    moreover note sb = simp_arg_bool [OF assms(1)]
    have "is_conditional (?a c) (?a a) (?a b) ?q"
      using s ok_boolD [OF sb(1) [OF s(2)]] ok_boolD [OF sb(1) [OF s(3)]]
      by (intro mk_nested_ite_sound) (simp_all add: sb)
    then have "is_meaning (\<lambda>I. if holds_in I (?a c) then holds_in I (?a a) else holds_in I (?a b)) ?q"
      using s by (simp add: bool_conditional sb)
    then have "ok_bool ?q" "falsifies I neg pos \<longrightarrow> holds_in I ?q = holds_in I u"
      using s by (simp_all add: ab term_simps is_meaning_def sb)
    ultimately show ?thesis by blast
  qed
  with u show ?thesis by (auto simp: rw_simps)
qed

text \<open>The state of a pass: the marks are literals of the new arguments.\<close>

definition ctx_ok :: "ctx_state \<Rightarrow> bool" where
  "ctx_ok st \<longleftrightarrow> marked_in (c_new_args st) (c_neg_lits st) (c_pos_lits st)"

definition ctx_holds :: "interp \<Rightarrow> ctx_state \<Rightarrow> bool" where
  "ctx_holds I st = list_ex (holds_in I) (c_new_args st)"

lemma push_new_arg_sound:
  assumes "ctx_ok st" "ok_bool arg"
  shows "ctx_ok (push_new_arg arg st)" "ctx_holds I (push_new_arg arg st) = (ctx_holds I st \<or> holds_in I arg)"
proof -
  note mk = assms(1) [unfolded ctx_ok_def]
  have "ctx_ok (push_new_arg arg st) \<and> ctx_holds I (push_new_arg arg st) = (ctx_holds I st \<or> holds_in I arg)"
  proof (cases "is_not arg")
    case True
    with assms(2) obtain a where a: "arg = m_mk_not a" "ok_bool a" by (auto simp: is_not_iff term_simps)
    with mk marked_in_neg [OF mk a(2)] marked_neg [OF mk, of a I] show ?thesis
      by (auto simp: push_new_arg_def ctx_ok_def ctx_holds_def Let_def term_simps)
  next
    case False
    with mk marked_in_pos [OF mk assms(2)] marked_pos [OF mk, of arg I] show ?thesis
      by (auto simp: push_new_arg_def ctx_ok_def ctx_holds_def)
  qed
  then show "ctx_ok (push_new_arg arg st)" "ctx_holds I (push_new_arg arg st) = (ctx_holds I st \<or> holds_in I arg)"
    by simp_all
qed

lemma push_new_args_sound:
  assumes "ctx_ok st" "list_all ok_bool args"
  shows "ctx_ok (foldl (\<lambda>s a. push_new_arg a s) st args) \<and>
    ctx_holds I (foldl (\<lambda>s a. push_new_arg a s) st args) = (ctx_holds I st \<or> list_ex (holds_in I) args)"
  using assms by (induction args arbitrary: st) (auto simp: push_new_arg_sound)

definition cost_only :: "bool_rewriter \<Rightarrow> bool_rewriter \<Rightarrow> bool" where
  "cost_only rw rw' \<longleftrightarrow> (\<exists>c. rw' = rw\<lparr>m_local_ctx_cost := c\<rparr>)"

lemma cost_only_refl [simp]: "cost_only rw rw"
  by (auto simp: cost_only_def intro: exI [of _ "m_local_ctx_cost rw"])

lemma cost_only_add [simp]: "cost_only rw (add_cost k rw)"
  by (auto simp: cost_only_def add_cost_def)

lemma cost_only_trans: "cost_only a b \<Longrightarrow> cost_only b c \<Longrightarrow> cost_only a c"
  by (auto simp: cost_only_def)

lemma ctx_falsifies:
  assumes "ctx_ok st" "\<not> ctx_holds I st"
  shows "falsifies I (c_neg_lits st) (c_pos_lits st)"
  using assms marked_in_falsifies by (auto simp: ctx_ok_def ctx_holds_def)

lemma ctx_marks: "ctx_ok st \<Longrightarrow> bool_marks (c_neg_lits st) (c_pos_lits st)"
  using marked_in_bool by (auto simp: ctx_ok_def)

lemma ctx_flags [simp]:
  "ctx_ok (st\<lparr>c_modified := x, c_simp := y\<rparr>) = ctx_ok st"
  "ctx_holds I (st\<lparr>c_modified := x, c_simp := y\<rparr>) = ctx_holds I st"
  by (simp_all add: ctx_ok_def ctx_holds_def)

definition nested_not_or_step :: "bool_rewriter \<Rightarrow> ctx_state \<Rightarrow> expr \<Rightarrow> expr option \<times> bool_rewriter" where
  \<comment> \<open>the first of the two simplifications of an argument\<close>
  "nested_not_or_step rw st arg =
     (if is_not arg \<and> is_or (get_arg arg 0)
      then simp_nested_not_or rw (get_args (get_arg arg 0)) (c_neg_lits st) (c_pos_lits st)
      else (None, rw))"

lemma nested_not_or_step_sound:
  assumes "ctx_ok st" "ok_bool arg" "nested_not_or_step rw st arg = (r, rw')"
  shows "cost_only rw rw' \<and> (\<forall>a. r = Some a \<longrightarrow> ok_bool a \<and> (\<not> ctx_holds I st \<longrightarrow> holds_in I a = holds_in I arg))"
proof (cases "is_not arg \<and> is_or (get_arg arg 0)")
  case True
  then obtain args where a: "arg = m_mk_not (m_mk_or args)" by (auto simp: is_not_iff is_or_iff term_simps)
  with assms(2) have "list_all ok_bool args" by (simp add: term_simps)
  note s = simp_nested_not_or_sound [OF ctx_marks [OF assms(1)] this]
  from assms(3) a have e: "simp_nested_not_or rw args (c_neg_lits st) (c_pos_lits st) = (r, rw')"
    by (simp add: nested_not_or_step_def term_simps)
  then have "cost_only rw rw'" by (auto simp: simp_nested_not_or_def)
  with e s a ctx_falsifies [OF assms(1), of I] show ?thesis by (auto simp: term_simps)
qed (use assms in \<open>auto simp: nested_not_or_step_def\<close>)

lemma simp_nested_eq_ite_cost: "simp_nested_eq_ite rw t neg pos = (r, rw') \<Longrightarrow> cost_only rw rw'"
  by (auto simp: simp_nested_eq_ite_def)

lemma process_arg_cases:
  assumes "process_arg arg (rw, st) = (res, rw', st')"
  obtains r1 rw1 r2 arg1 arg2 st1 where
    "nested_not_or_step rw st arg = (r1, rw1)" "arg1 = case_option arg id r1"
    "simp_nested_eq_ite rw1 arg1 (c_neg_lits st) (c_pos_lits st) = (r2, rw')" "arg2 = case_option arg1 id r2"
    "st1 = (if r1 \<noteq> None \<or> r2 \<noteq> None then st\<lparr>c_modified := True, c_simp := True\<rparr> else st)"
    "(res, st') = (if is_false arg2 then (None, st1) else if is_true arg2 then (Some arg2, st1)
       else if m_flat rw \<and> is_or arg2 then (None, foldl (\<lambda>s a. push_new_arg a s) st1 (get_args arg2))
       else (None, push_new_arg arg2 st1))"
proof -
  obtain r1 rw1 where 1: "nested_not_or_step rw st arg = (r1, rw1)" by (cases "nested_not_or_step rw st arg")
  define arg1 where "arg1 = case_option arg id r1"
  obtain r2 rw2 where 2: "simp_nested_eq_ite rw1 arg1 (c_neg_lits st) (c_pos_lits st) = (r2, rw2)"
    by (cases "simp_nested_eq_ite rw1 arg1 (c_neg_lits st) (c_pos_lits st)")
  define arg2 where "arg2 = case_option arg1 id r2"
  define st1 where "st1 = (if r1 \<noteq> None \<or> r2 \<noteq> None then st\<lparr>c_modified := True, c_simp := True\<rparr> else st)"
  have "process_arg arg (rw, st) =
      (if is_false arg2 then (None, rw2, st1) else if is_true arg2 then (Some arg2, rw2, st1)
       else if m_flat rw \<and> is_or arg2 then (None, rw2, foldl (\<lambda>s a. push_new_arg a s) st1 (get_args arg2))
       else (None, rw2, push_new_arg arg2 st1))"
    unfolding process_arg_def Let_def prod.case 1 [unfolded nested_not_or_step_def] id_def
    by (simp add: 2 [unfolded arg1_def id_def] arg2_def [unfolded arg1_def id_def] st1_def)
  with assms have "rw' = rw2" "(res, st') = (if is_false arg2 then (None, st1) else if is_true arg2 then (Some arg2, st1)
       else if m_flat rw \<and> is_or arg2 then (None, foldl (\<lambda>s a. push_new_arg a s) st1 (get_args arg2))
       else (None, push_new_arg arg2 st1))"
    by (auto split: if_splits)
  with that [OF 1 arg1_def _ arg2_def st1_def] 2 show ?thesis by simp
qed

lemma process_arg_sound:
  assumes "ctx_ok st" "ok_bool arg" "process_arg arg (rw, st) = (res, rw', st')"
  shows "ctx_ok st' \<and> cost_only rw rw' \<and>
    (case res of None \<Rightarrow> ctx_holds I st' = (ctx_holds I st \<or> holds_in I arg)
     | Some r \<Rightarrow> r = m_true \<and> (ctx_holds I st \<or> holds_in I arg))"
  using assms(3)
proof (cases rule: process_arg_cases)
  case (1 r1 rw1 r2 arg1 arg2 st1)
  from nested_not_or_step_sound [OF assms(1,2) 1(1), of I] assms(2) 1(2)
  have a1: "ok_bool arg1" "\<not> ctx_holds I st \<longrightarrow> holds_in I arg1 = holds_in I arg" "cost_only rw rw1"
    by (auto split: option.splits)
  have a2: "ok_bool arg2" "\<not> ctx_holds I st \<longrightarrow> holds_in I arg2 = holds_in I arg"
    using simp_nested_eq_ite_sound [OF ctx_marks [OF assms(1)] a1(1), of rw1 _ rw' I] 1(3,4) a1
      ctx_falsifies [OF assms(1), of I] by (auto split: option.splits)
  have st1: "ctx_ok st1" "ctx_holds I st1 = ctx_holds I st" using 1(5) assms(1) by simp_all
  have c: "cost_only rw rw'" using a1(3) simp_nested_eq_ite_cost [OF 1(3)] by (rule cost_only_trans)
  have "list_all ok_bool (get_args arg2) \<and> list_ex (holds_in I) (get_args arg2) = holds_in I arg2" if "is_or arg2"
    using that a2(1) by (auto simp: is_or_iff term_simps)
  with 1(6) st1 a2 c push_new_arg_sound(1) [OF st1(1) a2(1)] push_new_arg_sound(2) [OF st1(1) a2(1), of I]
    push_new_args_sound [OF st1(1), of "get_args arg2" I]
  show ?thesis by (auto simp: is_true_def is_false_def term_simps split: if_splits)
qed

lemma process_args_sound:
  assumes "ctx_ok st" "list_all ok_bool args" "process_args args (rw, st) = (res, rw', st')"
  shows "ctx_ok st' \<and> cost_only rw rw' \<and>
    (case res of None \<Rightarrow> ctx_holds I st' = (ctx_holds I st \<or> list_ex (holds_in I) args)
     | Some r \<Rightarrow> r = m_true \<and> (ctx_holds I st \<or> list_ex (holds_in I) args))"
  using assms
proof (induction args arbitrary: rw st)
  case (Cons arg args)
  obtain res1 rw1 st1 where 1: "process_arg arg (rw, st) = (res1, rw1, st1)" by (cases "process_arg arg (rw, st)")
  from Cons.prems process_arg_sound [OF _ _ 1, of I]
  have s: "ctx_ok st1" "cost_only rw rw1" by auto
  show ?case
  proof (cases res1)
    case None
    with Cons.IH [OF s(1), of rw1] Cons.prems 1 s process_arg_sound [OF _ _ 1, of I] show ?thesis
      by (auto intro: cost_only_trans split: option.splits)
  next
    case (Some r)
    with Cons.prems 1 process_arg_sound [OF _ _ 1, of I] show ?thesis by auto
  qed
qed simp

lemma mk_or_app_sound:
  assumes "list_all ok_bool args"
  shows "ok_bool (mk_or_app args)" "holds_in I (mk_or_app args) = list_ex (holds_in I) args"
  using assms by (auto simp: mk_or_app_def term_simps split: list.splits)

lemma list_ex_rev: "list_ex P (rev xs) = list_ex P xs"
  by (auto simp: list_ex_iff)

lemma local_ctx_loop_sound:
  assumes "list_all ok_bool args" "local_ctx_loop n rw simp md forward args = Some (res, rw')"
  shows "cost_only rw rw' \<and> (case res of None \<Rightarrow> True
     | Some r \<Rightarrow> ok_bool r \<and> holds_in I r = list_ex (holds_in I) args)"
  using assms
proof (induction n arbitrary: rw simp md forward args)
  case (Suc n)
  define st0 where "st0 = \<lparr>c_new_args = [], c_neg_lits = {}, c_pos_lits = {}, c_modified = md, c_simp = simp\<rparr>"
  have st0: "ctx_ok st0" "\<not> ctx_holds I st0" by (simp_all add: st0_def ctx_ok_def ctx_holds_def)
  define as where "as = (if forward then args else rev args)"
  have as: "list_all ok_bool as" "list_ex (holds_in I) as = list_ex (holds_in I) args"
    using Suc.prems by (simp_all add: as_def list_ex_rev)
  obtain r1 rw1 st1 where 1: "process_args as (add_cost (2 * length args) rw, st0) = (r1, rw1, st1)"
    by (cases "process_args as (add_cost (2 * length args) rw, st0)")
  note s = process_args_sound [OF st0(1) as(1) 1, of I]
  have c: "cost_only rw rw1" using s cost_only_trans [OF cost_only_add] by blast
  note e = Suc.prems(2) [unfolded local_ctx_loop.simps Let_def st0_def [symmetric] as_def [symmetric] 1 prod.case]
  show ?case
  proof (cases r1)
    case (Some r)
    with e s c st0 as show ?thesis by (auto simp: term_simps)
  next
    case None
    with s st0 as have new: "list_all ok_bool (c_new_args st1)"
      "list_ex (holds_in I) (c_new_args st1) = list_ex (holds_in I) args"
      by (auto simp: ctx_ok_def marked_in_def ctx_holds_def)
    with Suc.IH [of "c_new_args st1" rw1] Suc.IH [of "rev (c_new_args st1)" rw1] e None c
      mk_or_app_sound [OF Suc.prems(1)]
    show ?thesis
      by (auto simp: list_ex_rev split: if_splits option.splits intro: cost_only_trans)
  qed
qed simp

lemma local_ctx_simp_sound:
  assumes "list_all ok_bool args" "local_ctx_simp rw args = (res, rw')"
  shows "cost_only rw rw' \<and> (case res of None \<Rightarrow> True
     | Some r \<Rightarrow> ok_bool r \<and> holds_in I r = list_ex (holds_in I) args)"
proof (cases "local_ctx_loop (local_ctx_fuel args) rw False False True args")
  case (Some p)
  with assms(2) have "local_ctx_loop (local_ctx_fuel args) rw False False True args = Some (res, rw')"
    by (simp add: local_ctx_simp_def)
  then show ?thesis by (rule local_ctx_loop_sound [OF assms(1)])
qed (use assms(2) in \<open>auto simp: local_ctx_simp_def\<close>)

end
