(* ===== verification/Rewriter_Ops.thy ===== *)
theory Rewriter_Ops
  imports Bool_Rewriter_Sound
begin

text \<open>
  The connectives of the boolean rewriter: disjunctions, conjunctions, conditionals and
  \<open>distinct\<close>, and the dispatch \<open>mk_app\<close>. Every operation returns a term with the meaning of
  the application it stands for, and changes nothing of the rewriter but the cost of the local
  context simplification, not even that when this simplification is off.
\<close>

section \<open>Disjunctions and conjunctions\<close>

definition steps_to :: "(interp \<Rightarrow> bool) \<Rightarrow> bool_rewriter \<Rightarrow> expr \<times> bool_rewriter \<Rightarrow> bool" where
  \<comment> \<open>an operation that returns a boolean term and the rewriter\<close>
  "steps_to P rw x \<longleftrightarrow> is_meaning P (fst x) \<and> cost_only rw (snd x) \<and> (\<not> m_local_ctx rw \<longrightarrow> snd x = rw)"

lemma steps_to_Pair [simp]:
  "steps_to P rw (r, rw') \<longleftrightarrow> is_meaning P r \<and> cost_only rw rw' \<and> (\<not> m_local_ctx rw \<longrightarrow> rw' = rw)"
  by (simp add: steps_to_def)

lemma steps_to_trans:
  assumes "cost_only rw rw1" "\<not> m_local_ctx rw \<longrightarrow> rw1 = rw" "steps_to P rw1 x"
  shows "steps_to P rw x"
  using assms cost_only_trans unfolding steps_to_def by metis

definition plain_result :: "expr \<Rightarrow> br \<times> bool_rewriter \<Rightarrow> expr \<times> bool_rewriter" where
  "plain_result e x = (br_result (fst x) e, snd x)"

lemma plain_result_Pair [simp]: "plain_result e (r, rw) = (br_result r e, rw)"
  by (simp add: plain_result_def)

abbreviation any_of :: "expr list \<Rightarrow> interp \<Rightarrow> bool" where
  "any_of args \<equiv> \<lambda>I. list_ex (holds_in I) args"

abbreviation all_of :: "expr list \<Rightarrow> interp \<Rightarrow> bool" where
  "all_of args \<equiv> \<lambda>I. list_all (holds_in I) args"

lemma is_meaning_const:
  "is_meaning P m_true \<longleftrightarrow> (\<forall>I. P I)" "is_meaning P m_false \<longleftrightarrow> (\<forall>I. \<not> P I)"
  by (auto simp: is_meaning_def term_simps)

lemma is_meaning_or: "list_all ok_bool bs \<Longrightarrow> (\<And>I. any_of bs I = P I) \<Longrightarrow> is_meaning P (m_mk_or bs)"
  by (simp add: is_meaning_def term_simps)

lemma is_meaning_and: "list_all ok_bool bs \<Longrightarrow> (\<And>I. all_of bs I = P I) \<Longrightarrow> is_meaning P (m_mk_and bs)"
  by (simp add: is_meaning_def term_simps)

lemma sort_key_all: "list_all P (sort_key f xs) = list_all P xs" "list_ex P (sort_key f xs) = list_ex P xs"
  by (simp_all add: list_all_iff list_ex_iff)

lemma or_tail_sound:
  assumes "list_all ok_bool buffer" "list_all ok_bool args" "\<And>I. any_of buffer I = any_of args I"
    and "(if m_local_ctx rw \<and> m_local_ctx_cost rw \<le> m_local_ctx_limit rw
          then local_ctx_simp rw buffer else (None, rw)) = (r, rw1)"
  shows "steps_to (any_of args) rw (plain_result (m_mk_or args)
     (case r of Some result \<Rightarrow> (Some (BR_DONE, result), rw1)
      | None \<Rightarrow> if s then (Some (BR_DONE, m_mk_or (sort_key (m_get_id rw) buffer)), rw1) else (None, rw1)))"
proof -
  have l: "cost_only rw rw1 \<and> (\<not> m_local_ctx rw \<longrightarrow> rw1 = rw) \<and>
      (\<forall>q. r = Some q \<longrightarrow> is_meaning (any_of args) q)"
  proof (cases "m_local_ctx rw \<and> m_local_ctx_cost rw \<le> m_local_ctx_limit rw")
    case True
    with assms(4) have "local_ctx_simp rw buffer = (r, rw1)" by simp
    from local_ctx_simp_sound [OF assms(1) this] True assms(3) show ?thesis
      by (auto simp: is_meaning_def split: option.splits)
  qed (use assms(4) in auto)
  with assms(1-3) show ?thesis
    by (auto simp: is_meaning_def term_simps sort_key_all split: option.splits)
qed

lemma mk_nflat_or_core_sound:
  assumes "list_all ok_bool args"
  shows "steps_to (any_of args) rw (plain_result (m_mk_or args) (mk_nflat_or_core rw args))"
proof (cases "or_scan rw args {} {} None False []")
  case None
  with or_scan_sound [OF marked_in_Nil assms, of rw None False] show ?thesis
    by (simp add: mk_nflat_or_core_def or_spec_def is_meaning_const)
next
  case (Some p)
  obtain s buffer where p: "p = (s, buffer)" by (cases p)
  with Some or_scan_sound [OF marked_in_Nil assms, of rw None False]
  have b: "list_all ok_bool buffer" "\<And>I. any_of buffer I = any_of args I" by (auto simp: or_spec_def)
  obtain r rw1 where r: "(if m_local_ctx rw \<and> m_local_ctx_cost rw \<le> m_local_ctx_limit rw
      then local_ctx_simp rw buffer else (None, rw)) = (r, rw1)" by (meson surj_pair)
  note tail = or_tail_sound [OF b(1) assms b(2) r]
  consider "buffer = []" | a where "buffer = [a]" | a a' bs where "buffer = a # a' # bs"
    by (metis list.exhaust)
  then show ?thesis
  proof cases
    case 1
    with Some p b(2) show ?thesis by (simp add: mk_nflat_or_core_def is_meaning_const)
  next
    case 2
    with Some p b show ?thesis by (simp add: mk_nflat_or_core_def is_meaning_def)
  next
    case 3
    have "mk_nflat_or_core rw args = (case r of Some result \<Rightarrow> (Some (BR_DONE, result), rw1)
      | None \<Rightarrow> if s then (Some (BR_DONE, m_mk_or (sort_key (m_get_id rw) buffer)), rw1) else (None, rw1))"
      unfolding mk_nflat_or_core_def Some p option.case prod.case 3 list.case
      using r [unfolded 3] by (simp only: Let_def prod.case)
    with tail show ?thesis by simp
  qed
qed

lemma flat_or_scan_args:
  "snd (flat_or_scan rw args prev ordered flat) =
     flat @ concat (map (\<lambda>a. if is_or a then get_args a else [a]) args)"
  by (induction args arbitrary: prev ordered flat) simp_all

lemma flat_or_args:
  assumes "list_all ok_bool args"
  shows "list_all ok_bool (concat (map (\<lambda>a. if is_or a then get_args a else [a]) args))"
    "list_ex (holds_in I) (concat (map (\<lambda>a. if is_or a then get_args a else [a]) args)) = any_of args I"
  using assms by (induction args) (auto simp: is_or_iff term_simps)

lemma flat_and_args:
  assumes "list_all ok_bool args"
  shows "list_all ok_bool (concat (map (\<lambda>a. if is_and a then get_args a else [a]) args))"
    "list_all (holds_in I) (concat (map (\<lambda>a. if is_and a then get_args a else [a]) args)) = all_of args I"
  using assms by (induction args) (auto simp: is_and_iff term_simps)

lemma flat_prefix: "takeWhile (\<lambda>a. \<not> p a) xs @ concat (map (\<lambda>a. if p a then f a else [a]) (dropWhile (\<lambda>a. \<not> p a) xs))
    = concat (map (\<lambda>a. if p a then f a else [a]) xs)"
  by (induction xs) auto

lemma mk_flat_or_core_sound:
  assumes "list_all ok_bool args"
  shows "steps_to (any_of args) rw (plain_result (m_mk_or args) (mk_flat_or_core rw args))"
proof (cases "list_ex is_or args")
  case True
  define flat where "flat = concat (map (\<lambda>a. if is_or a then get_args a else [a]) args)"
  obtain ordered where o: "flat_or_scan rw (dropWhile (\<lambda>a. \<not> is_or a) args) None True
      (takeWhile (\<lambda>a. \<not> is_or a) args) = (ordered, flat)"
    unfolding flat_def using flat_or_scan_args [of rw "dropWhile (\<lambda>a. \<not> is_or a) args" None True
        "takeWhile (\<lambda>a. \<not> is_or a) args"] by (metis flat_prefix prod.collapse)
  obtain r rw1 where r: "mk_nflat_or_core rw flat = (r, rw1)" by (cases "mk_nflat_or_core rw flat")
  have f: "list_all ok_bool flat" "any_of flat I = any_of args I" for I
    using flat_or_args [OF assms] by (simp_all add: flat_def)
  from mk_nflat_or_core_sound [OF f(1), of rw] r f show ?thesis
    by (cases r) (auto simp: mk_flat_or_core_def True o is_meaning_def term_simps sort_key_all)
next
  case False
  with mk_nflat_or_core_sound [OF assms] show ?thesis by (simp add: mk_flat_or_core_def)
qed

lemma mk_or_core_sound:
  assumes "list_all ok_bool args"
  shows "steps_to (any_of args) rw (plain_result (m_mk_or args) (mk_or_core rw args))"
  using mk_flat_or_core_sound [OF assms] mk_nflat_or_core_sound [OF assms] by (simp add: mk_or_core_def)

lemma mk_or_plain: "mk_or rw args = plain_result (m_mk_or args) (mk_or_core rw args)"
  by (simp add: mk_or_def plain_result_def split_def Let_def)

lemma mk_or_sound:
  assumes "list_all ok_bool args"
  shows "steps_to (any_of args) rw (mk_or rw args)"
  using mk_or_core_sound [OF assms, of rw] by (simp add: mk_or_plain)

lemma is_meaning_not: "is_meaning P t \<Longrightarrow> is_meaning (\<lambda>I. \<not> P I) (mk_not rw t)"
  by (simp add: is_meaning_def rw_simps)

lemma is_meaning_ok: "is_meaning P t \<Longrightarrow> ok_bool t"
  by (simp add: is_meaning_def)

lemma map_mk_not:
  assumes "list_all ok_bool args"
  shows "list_all ok_bool (map (mk_not rw) args)" "any_of (map (mk_not rw) args) I = (\<not> all_of args I)"
  using assms by (induction args) (auto simp: rw_simps)

lemma not_step_sound:
  assumes "steps_to P rw x"
  shows "steps_to (\<lambda>I. \<not> P I) rw (let (tmp, rw1) = x in (mk_not rw1 tmp, rw1))"
  using assms is_meaning_not by (cases x) simp

lemma mk_and_as_or_sound:
  assumes "list_all ok_bool args"
  shows "steps_to (all_of args) rw (mk_and_as_or rw args)"
  using not_step_sound [OF mk_or_sound [OF map_mk_not(1) [OF assms]], of rw rw] map_mk_not(2) [OF assms]
  by (simp add: mk_and_as_or_def)

lemma mk_nflat_and_core_sound:
  assumes "list_all ok_bool args"
  shows "is_meaning (all_of args) (br_result (mk_nflat_and_core args) (m_mk_and args))"
proof (cases "and_scan args {} {} False []")
  case None
  with and_scan_sound [OF marked_in_Nil assms, of False] show ?thesis
    by (simp add: mk_nflat_and_core_def and_spec_def is_meaning_const)
next
  case (Some p)
  obtain s buffer where p: "p = (s, buffer)" by (cases p)
  with Some and_scan_sound [OF marked_in_Nil assms, of False]
  have b: "list_all ok_bool buffer" "\<And>I. all_of buffer I = all_of args I" by (auto simp: and_spec_def)
  consider "buffer = []" | a where "buffer = [a]" | a a' bs where "buffer = a # a' # bs"
    by (metis list.exhaust)
  then show ?thesis
  proof cases
    case 1
    with Some p b(2) show ?thesis by (simp add: mk_nflat_and_core_def is_meaning_const)
  next
    case 2
    with Some p b show ?thesis by (simp add: mk_nflat_and_core_def is_meaning_def)
  next
    case 3
    have "mk_nflat_and_core args = (if s then Some (BR_DONE, m_mk_and buffer) else None)"
      unfolding mk_nflat_and_core_def Some p option.case prod.case 3 list.case ..
    with is_meaning_and [OF b] is_meaning_and [OF assms] show ?thesis by simp
  qed
qed

lemma mk_flat_and_core_sound:
  assumes "list_all ok_bool args"
  shows "is_meaning (all_of args) (br_result (mk_flat_and_core args) (m_mk_and args))"
proof (cases "list_ex is_and args")
  case True
  with mk_nflat_and_core_sound [OF flat_and_args(1) [OF assms]] flat_and_args(2) [OF assms] show ?thesis
    by (simp add: mk_flat_and_core_def Let_def)
next
  case False
  with mk_nflat_and_core_sound [OF assms] show ?thesis by (simp add: mk_flat_and_core_def)
qed

lemma mk_and_core_sound:
  assumes "list_all ok_bool args"
  shows "steps_to (all_of args) rw (plain_result (m_mk_and args) (mk_and_core rw args))"
  using mk_and_as_or_sound [OF assms, of rw] mk_flat_and_core_sound [OF assms] mk_nflat_and_core_sound [OF assms]
  by (auto simp: mk_and_core_def split: prod.splits)

lemma mk_and_plain: "mk_and rw args = plain_result (m_mk_and args) (mk_and_core rw args)"
  by (simp add: mk_and_def plain_result_def split_def Let_def)

lemma mk_and_sound:
  assumes "list_all ok_bool args"
  shows "steps_to (all_of args) rw (mk_and rw args)"
  using mk_and_core_sound [OF assms] by (simp add: mk_and_plain)

lemma steps_to_cong: "steps_to P rw x \<Longrightarrow> (\<And>I. P I = Q I) \<Longrightarrow> steps_to Q rw x"
  by (simp add: steps_to_def is_meaning_def)

lemma mk_or2_sound:
  assumes "ok_bool a" "ok_bool b" "\<And>I. (holds_in I a \<or> holds_in I b) = P I"
  shows "steps_to P rw (mk_or rw [a, b])"
  using assms by (intro steps_to_cong [OF mk_or_sound]) simp_all

lemma mk_and2_sound:
  assumes "ok_bool a" "ok_bool b" "\<And>I. (holds_in I a \<and> holds_in I b) = P I"
  shows "steps_to P rw (mk_and rw [a, b])"
  using assms by (intro steps_to_cong [OF mk_and_sound]) simp_all

lemma mk_implies_sound:
  assumes "ok_bool a" "ok_bool b"
  shows "steps_to (\<lambda>I. holds_in I a \<longrightarrow> holds_in I b) rw (mk_implies rw a b)"
  unfolding mk_implies_def using assms by (intro mk_or2_sound) (auto simp: rw_simps)

lemma mk_nand_sound:
  assumes "list_all ok_bool args"
  shows "steps_to (\<lambda>I. \<not> all_of args I) rw (mk_nand rw args)"
  using not_step_sound [OF mk_and_sound [OF assms]] by (simp add: mk_nand_def)

lemma mk_nor_sound:
  assumes "list_all ok_bool args"
  shows "steps_to (\<lambda>I. \<not> any_of args I) rw (mk_nor rw args)"
  using not_step_sound [OF mk_or_sound [OF assms]] by (simp add: mk_nor_def)

lemma steps_to_bind:
  assumes "steps_to P rw x" "\<And>r rw1. is_meaning P r \<Longrightarrow> steps_to Q rw1 (f r rw1)"
  shows "steps_to Q rw (let (r, rw1) = x in f r rw1)"
proof -
  obtain r rw1 where x: "x = (r, rw1)" by (cases x)
  with assms(1) have "is_meaning P r" "cost_only rw rw1" "\<not> m_local_ctx rw \<longrightarrow> rw1 = rw" by simp_all
  with steps_to_trans [OF this(2,3) assms(2)] x show ?thesis by simp
qed

lemma if_steps:
  assumes "b \<Longrightarrow> steps_to P rw x" "\<not> b \<Longrightarrow> steps_to P rw y"
  shows "steps_to P rw (if b then x else y)"
  using assms by simp

lemma mk_ge2_sound:
  assumes "ok_bool a" "ok_bool b" "ok_bool c"
  shows "steps_to (\<lambda>I. holds_in I a \<and> holds_in I b \<or> holds_in I a \<and> holds_in I c \<or> holds_in I b \<and> holds_in I c)
     rw (mk_ge2 rw a b c)"
  unfolding mk_ge2_def is_true_def is_false_def
proof (intro if_steps steps_to_bind)
  show "steps_to (all_of [a, b]) rw (mk_and rw [a, b])" using assms by (intro mk_and_sound) simp
  show "steps_to (all_of [a, c]) rw1 (mk_and rw1 [a, c])" for rw1 using assms by (intro mk_and_sound) simp
  show "steps_to (all_of [b, c]) rw2 (mk_and rw2 [b, c])" for rw2 using assms by (intro mk_and_sound) simp
  show "steps_to (\<lambda>I. holds_in I a \<and> holds_in I b \<or> holds_in I a \<and> holds_in I c \<or> holds_in I b \<and> holds_in I c)
      rw3 (mk_or rw3 [i1, i2, i3])"
    if "is_meaning (all_of [a, b]) i1" "is_meaning (all_of [a, c]) i2" "is_meaning (all_of [b, c]) i3" for rw3 i1 i2 i3
    using that by (intro steps_to_cong [OF mk_or_sound]) (simp_all add: is_meaning_def)
qed (use assms in \<open>auto simp: term_simps intro: mk_or2_sound mk_and2_sound\<close>)

section \<open>Conditionals\<close>

definition cond_steps :: "expr \<Rightarrow> expr \<Rightarrow> expr \<Rightarrow> bool_rewriter \<Rightarrow> expr \<times> bool_rewriter \<Rightarrow> bool" where
  "cond_steps c t e rw x \<longleftrightarrow>
     is_conditional c t e (fst x) \<and> cost_only rw (snd x) \<and> (\<not> m_local_ctx rw \<longrightarrow> snd x = rw)"

lemma cond_steps_Pair [simp]: "cond_steps c t e rw (r, rw') \<longleftrightarrow>
    is_conditional c t e r \<and> cost_only rw rw' \<and> (\<not> m_local_ctx rw \<longrightarrow> rw' = rw)"
  by (simp add: cond_steps_def)

lemma bool_cond_steps:
  assumes "ok_bool t" "ok_bool e"
  shows "cond_steps c t e rw x \<longleftrightarrow> steps_to (\<lambda>I. if holds_in I c then holds_in I t else holds_in I e) rw x"
  by (simp add: cond_steps_def steps_to_def bool_conditional [OF assms])

lemma if_pred_option:
  assumes "b \<Longrightarrow> pred_option Q x" "\<not> b \<Longrightarrow> pred_option Q y"
  shows "pred_option Q (if b then x else y)"
  using assms by simp

lemma pred_option_SomeI: "Q x \<Longrightarrow> pred_option Q (Some x)"
  by simp

lemma pred_option_NoneI: "pred_option Q None"
  by simp

lemma ite_bool_sound:
  assumes "ok_bool c" "well_sorted t" "well_sorted e" "get_sort t = get_sort e"
  shows "pred_option (cond_steps c t e rw) (ite_bool rw c t e)"
proof (cases "is_bool t")
  case True
  with assms have b: "ok_bool t" "ok_bool e" by (auto simp: ok_bool_def is_bool_def)
  note v = is_complement_core_value [OF _ b] is_complement_core_value [OF _ b(2,1)]
  show ?thesis
    unfolding bool_cond_steps [OF b, abs_def] ite_bool_def is_true_def is_false_def using assms(1) b
    by (intro if_pred_option; (elim conjE)?; simp only: option.pred_inject; (intro mk_or2_sound mk_and2_sound)?;
        simp add: is_meaning_def term_simps rw_simps v; blast?)
qed (simp add: ite_bool_def)

lemma cond_steps_bind:
  assumes "steps_to P rw x" "\<And>r rw1. is_meaning P r \<Longrightarrow> cond_steps c t e rw1 (f r rw1)"
  shows "cond_steps c t e rw (let (r, rw1) = x in f r rw1)"
proof -
  obtain r rw1 where x: "x = (r, rw1)" by (cases x)
  with assms(1) have s: "is_meaning P r" "cost_only rw rw1" "\<not> m_local_ctx rw \<longrightarrow> rw1 = rw" by simp_all
  with assms(2) [OF s(1), of rw1] cost_only_trans [of rw rw1] show ?thesis
    unfolding cond_steps_def x Let_def prod.case by metis
qed

lemma is_conditional_ite:
  assumes "is_meaning P new_c" "well_sorted a" "well_sorted b" "get_sort a = get_sort t" "get_sort b = get_sort t"
    and "\<And>I. (if P I then eval I a else eval I b) = (if holds_in I c then eval I t else eval I e)"
  shows "is_conditional c t e (m_mk_ite new_c a b)"
  using assms by (simp add: is_conditional_def is_meaning_def term_simps)

lemma some_let: "(let (r, rw1) = x in Some (f r rw1)) = Some (let (r, rw1) = x in f r rw1)"
  by (simp add: split_def Let_def)

lemma ite_both_sound:
  assumes "ok_bool c" "ok_bool x" "\<And>rw. is_meaning Y (y rw)" "well_sorted a" "well_sorted b"
    and "get_sort a = get_sort t" "get_sort b = get_sort t"
    and "\<And>I. (if (if holds_in I c then holds_in I x else Y I) then eval I a else eval I b) =
             (if holds_in I c then eval I t else eval I e)"
  shows "cond_steps c t e rw
    (let (and1, rw1) = mk_and rw [c, x]; (and2, rw2) = mk_and rw1 [mk_not rw1 c, y rw1]; (new_c, rw3) = mk_or rw2 [and1, and2]
     in (m_mk_ite new_c a b, rw3))"
proof (intro cond_steps_bind)
  show "steps_to (\<lambda>I. holds_in I c \<and> holds_in I x) rw (mk_and rw [c, x])"
    using assms by (intro mk_and2_sound) simp_all
  show "steps_to (\<lambda>I. \<not> holds_in I c \<and> Y I) rw1 (mk_and rw1 [mk_not rw1 c, y rw1])" for rw1
    using assms(1,3) by (intro mk_and2_sound) (simp_all add: rw_simps is_meaning_def)
  show "steps_to (\<lambda>I. if holds_in I c then holds_in I x else Y I) rw2 (mk_or rw2 [and1, and2])"
    if "is_meaning (\<lambda>I. holds_in I c \<and> holds_in I x) and1" "is_meaning (\<lambda>I. \<not> holds_in I c \<and> Y I) and2"
    for rw2 and1 and2
    using that by (intro mk_or2_sound) (auto simp: is_meaning_def)
  show "cond_steps c t e rw3 (m_mk_ite new_c a b, rw3)"
    if "is_meaning (\<lambda>I. if holds_in I c then holds_in I x else Y I) new_c" for rw3 new_c
    using is_conditional_ite [OF that assms(4-7), of c e] assms(8) by simp
qed

lemma ite_one_sound:
  assumes "steps_to P rw x" "well_sorted a" "well_sorted b" "get_sort a = get_sort t" "get_sort b = get_sort t"
    and "\<And>I. (if P I then eval I a else eval I b) = (if holds_in I c then eval I t else eval I e)"
  shows "cond_steps c t e rw (let (new_c, rw1) = x in (m_mk_ite new_c a b, rw1))"
  using assms(1)
proof (rule cond_steps_bind)
  show "cond_steps c t e rw1 (m_mk_ite new_c a b, rw1)" if "is_meaning P new_c" for new_c rw1
    using is_conditional_ite [OF that assms(2-5), of c e] assms(6) by simp
qed

lemma let_some3:
  "(let (p, a) = x; (q, b) = f p a; (r, c) = g p a q b in Some (h p a q b r c)) =
   Some (let (p, a) = x; (q, b) = f p a; (r, c) = g p a q b in h p a q b r c)"
  by (simp add: split_def Let_def)

lemma ite_then_ite_sound:
  assumes "ok_bool c" "well_sorted t" "well_sorted e" "get_sort t = get_sort e"
  shows "pred_option (cond_steps c t e rw) (ite_then_ite rw c t e)"
proof (cases "is_ite t")
  case True
  then obtain c2 t1 t2 where t: "t = m_mk_ite c2 t1 t2" by (auto simp: is_ite_iff)
  with assms have s: "ok_bool c2" "well_sorted t1" "well_sorted t2" "get_sort t2 = get_sort t1" "get_sort e = get_sort t1"
    by (simp_all add: term_simps)
  have ga: "get_arg t 0 = c2" "get_arg t 1 = t1" "get_arg t 2 = t2" by (simp_all add: t term_simps)
  have A: "cond_steps c t e rw (let (new_c, rw1) = mk_and rw [c, mk_not rw c2] in (m_mk_ite new_c t2 e, rw1))" if "e = t1"
    using assms(1) s that
    by (intro ite_one_sound [OF mk_and2_sound [where P = "\<lambda>I. holds_in I c \<and> \<not> holds_in I c2"]])
      (simp_all add: rw_simps t term_simps)
  have B: "cond_steps c t e rw (let (new_c, rw1) = mk_and rw [c, c2] in (m_mk_ite new_c t1 e, rw1))" if "e = t2"
    using assms(1) s that
    by (intro ite_one_sound [OF mk_and2_sound [where P = "\<lambda>I. holds_in I c \<and> holds_in I c2"]])
      (simp_all add: rw_simps t term_simps)
  have D: "cond_steps c t e rw (let (and1, rw1) = mk_and rw [c, c2]; (and2, rw2) = mk_and rw1 [mk_not rw1 c, y rw1];
       (new_c, rw3) = mk_or rw2 [and1, and2] in (m_mk_ite new_c t1 t2, rw3))"
    if "\<And>rw. is_meaning Y (y rw)" "\<And>I. (if Y I then eval I t1 else eval I t2) = eval I e" for y Y
    using assms(1) s by (intro ite_both_sound [OF _ _ that(1)]) (simp_all add: t term_simps that(2))
  have E: "cond_steps c t e rw (let (and1, rw1) = mk_and rw [c, c2]; (and2, rw2) = mk_and rw1 [mk_not rw1 c, get_arg e 0];
       (new_c, rw3) = mk_or rw2 [and1, and2] in (m_mk_ite new_c t1 t2, rw3))"
    if "is_ite e \<and> t1 = get_arg e 1 \<and> t2 = get_arg e 2"
    using that assms(3)
    by (intro D [where Y = "\<lambda>I. holds_in I (get_arg e 0)"]) (auto simp: is_ite_iff term_simps is_meaning_def)
  have F: "cond_steps c t e rw (let (and1, rw1) = mk_and rw [c, c2];
       (and2, rw2) = mk_and rw1 [mk_not rw1 c, mk_not rw1 (get_arg e 0)];
       (new_c, rw3) = mk_or rw2 [and1, and2] in (m_mk_ite new_c t1 t2, rw3))"
    if "is_ite e \<and> t1 = get_arg e 2 \<and> t2 = get_arg e 1"
    using that assms(3)
    by (intro D [where Y = "\<lambda>I. \<not> holds_in I (get_arg e 0)"]) (auto simp: is_ite_iff term_simps is_meaning_def rw_simps)
  show ?thesis
    unfolding ite_then_ite_def some_let let_some3 ga
    by (intro if_pred_option pred_option_SomeI pred_option_NoneI; rule A B E F; assumption)
qed (simp add: ite_then_ite_def)

lemma ite_else_ite_sound:
  assumes "ok_bool c" "well_sorted t" "well_sorted e" "get_sort t = get_sort e"
  shows "pred_option (cond_steps c t e rw) (ite_else_ite rw c t e)"
proof (cases "is_ite e")
  case True
  then obtain c2 t1 t2 where e: "e = m_mk_ite c2 t1 t2" by (auto simp: is_ite_iff)
  with assms have s: "ok_bool c2" "well_sorted t1" "well_sorted t2" "get_sort t2 = get_sort t1" "get_sort t = get_sort t1"
    by (simp_all add: term_simps)
  have A: "cond_steps c t e rw (let (new_c, rw1) = mk_or rw [c, c2] in (m_mk_ite new_c t t2, rw1))" if "t = t1"
    using assms(1) s that
    by (intro ite_one_sound [OF mk_or2_sound [where P = "\<lambda>I. holds_in I c \<or> holds_in I c2"]])
      (simp_all add: e term_simps)
  have B: "cond_steps c t e rw (let (new_c, rw1) = mk_or rw [c, mk_not rw c2] in (m_mk_ite new_c t t1, rw1))" if "t = t2"
    using assms(1) s that
    by (intro ite_one_sound [OF mk_or2_sound [where P = "\<lambda>I. holds_in I c \<or> \<not> holds_in I c2"]])
      (simp_all add: rw_simps e term_simps)
  show ?thesis
    unfolding ite_else_ite_def some_let using A B by (intro if_pred_option) (simp_all add: e term_simps)
qed (simp add: ite_else_ite_def)

lemma ite_simplify_sound:
  assumes "ok_bool c" "well_sorted t" "well_sorted e" "get_sort t = get_sort e"
    and "\<not> s \<Longrightarrow> is_conditional c t e plain"
  shows "cond_steps c t e rw (plain_result plain (ite_simplify rw s c t e))"
proof -
  note p = ite_bool_sound [OF assms(1-4), of rw] ite_then_ite_sound [OF assms(1-4), of rw]
    ite_else_ite_sound [OF assms(1-4), of rw]
  have ite: "is_conditional c t e (m_mk_ite c t e)"
    using assms by (simp add: is_conditional_def term_simps)
  show ?thesis
  proof (cases "is_true c \<or> is_false c \<or> t = e")
    case True
    then consider (true) "c = m_true" | (false) "c = m_false" | (same) "c \<noteq> m_true" "c \<noteq> m_false" "t = e"
      by (auto simp: is_true_def is_false_def)
    then show ?thesis
    proof cases
      case same
      then show ?thesis
        using assms(3) by (simp add: ite_simplify_def is_conditional_def is_true_def is_false_def)
    qed (use assms(2-4) in \<open>simp_all add: ite_simplify_def is_conditional_def term_simps\<close>)
  next
    case False
    with p ite assms(5) show ?thesis
      by (auto simp: ite_simplify_def split: option.splits)
  qed
qed

text \<open>The first three rules: a negated condition, and conditionals on the same condition.\<close>

lemma is_conditional_not:
  assumes "is_not c" "ok_bool c" "get_sort t = get_sort e"
  shows "ok_bool (get_arg c 0)" "is_conditional (get_arg c 0) e t r = is_conditional c t e r"
proof -
  from assms(1) obtain a where c: "c = m_mk_not a" by (auto simp: is_not_iff)
  show "ok_bool (get_arg c 0)" using assms(2) by (simp add: c term_simps)
  show "is_conditional (get_arg c 0) e t r = is_conditional c t e r"
    unfolding is_conditional_def c by (auto simp: term_simps assms(3))
qed

lemma is_conditional_then:
  assumes "is_ite t \<and> get_arg t 0 = c" "well_sorted t"
  shows "well_sorted (get_arg t 1)" "get_sort (get_arg t 1) = get_sort t"
    "is_conditional c (get_arg t 1) e r = is_conditional c t e r"
proof -
  from assms(1) obtain a b where t: "t = m_mk_ite c a b" by (auto simp: is_ite_iff term_simps)
  show "well_sorted (get_arg t 1)" "get_sort (get_arg t 1) = get_sort t" using assms(2) by (simp_all add: t term_simps)
  show "is_conditional c (get_arg t 1) e r = is_conditional c t e r"
    unfolding is_conditional_def t by (simp add: term_simps cong: if_cong)
qed

lemma is_conditional_else:
  assumes "is_ite e \<and> get_arg e 0 = c" "well_sorted e"
  shows "well_sorted (get_arg e 2)" "get_sort (get_arg e 2) = get_sort e"
    "is_conditional c t (get_arg e 2) r = is_conditional c t e r"
proof -
  from assms(1) obtain a b where e: "e = m_mk_ite c a b" by (auto simp: is_ite_iff term_simps)
  show "well_sorted (get_arg e 2)" "get_sort (get_arg e 2) = get_sort e" using assms(2) by (simp_all add: e term_simps)
  show "is_conditional c t (get_arg e 2) r = is_conditional c t e r"
    unfolding is_conditional_def e by (simp add: term_simps cong: if_cong)
qed

lemma mk_ite_core_sound:
  assumes "ok_bool c0" "well_sorted t0" "well_sorted e0" "get_sort t0 = get_sort e0"
  shows "cond_steps c0 t0 e0 rw (plain_result (m_mk_ite c0 t0 e0) (mk_ite_core rw c0 t0 e0))"
proof -
  define s1 where "s1 = is_not c0"
  define c where "c = (if s1 then get_arg c0 0 else c0)"
  define t1 where "t1 = (if s1 then e0 else t0)"
  define e1 where "e1 = (if s1 then t0 else e0)"
  define s2 where "s2 = (is_ite t1 \<and> get_arg t1 0 = c)"
  define t where "t = (if s2 then get_arg t1 1 else t1)"
  define s3 where "s3 = (is_ite e1 \<and> get_arg e1 0 = c)"
  define e where "e = (if s3 then get_arg e1 2 else e1)"
  have 1: "ok_bool c" "well_sorted t1" "well_sorted e1" "get_sort t1 = get_sort e1" "get_sort t1 = get_sort t0"
    "is_conditional c t1 e1 r = is_conditional c0 t0 e0 r" for r
    using is_conditional_not [OF _ assms(1,4)] assms by (auto simp: c_def t1_def e1_def s1_def)
  have 2: "well_sorted t" "get_sort t = get_sort t1" "is_conditional c t e1 r = is_conditional c t1 e1 r" for r
    using is_conditional_then [of t1 c] 1 by (auto simp: t_def s2_def)
  have 3: "well_sorted e" "get_sort e = get_sort e1" "is_conditional c t e r = is_conditional c t e1 r" for r
    using is_conditional_else [of e1 c] 1 by (auto simp: e_def s3_def)
  have ite: "is_conditional c0 t0 e0 (m_mk_ite c0 t0 e0)"
    using assms by (simp add: is_conditional_def term_simps)
  show ?thesis
  proof (cases "is_ite e1 \<and> get_arg e1 1 = t")
    case True
    then obtain c2 t2 where e1: "e1 = m_mk_ite c2 t t2" by (auto simp: is_ite_iff term_simps)
    have "ok_bool c2" "well_sorted t2" "get_sort t = get_sort t2" using 1(3) unfolding e1 by (simp_all add: term_simps)
    with 1(1) 2(1) have "is_conditional c t e1 (m_mk_ite (m_mk_or [c, c2]) t t2)"
      unfolding e1 is_conditional_def by (simp add: term_simps)
    then have "is_conditional c0 t0 e0 (m_mk_ite (m_mk_or [c, c2]) t t2)" by (simp only: 1(6) 2(3))
    moreover have "get_arg e1 0 = c2" "get_arg e1 2 = t2" by (simp_all add: e1 term_simps)
    moreover have "mk_ite_core rw c0 t0 e0 =
        (Some (BR_REWRITE3, m_mk_ite (m_mk_or [c, get_arg e1 0]) t (get_arg e1 2)), rw)"
      unfolding mk_ite_core_def Let_def s1_def [symmetric] c_def [symmetric] t1_def [symmetric] e1_def [symmetric]
        s2_def [symmetric] t_def [symmetric] by (rule if_P [OF True])
    ultimately show ?thesis by simp
  next
    case False
    have "cond_steps c t e rw (plain_result (m_mk_ite c0 t0 e0) (ite_simplify rw (s1 \<or> s2 \<or> s3) c t e))"
      using 1 2 3 ite by (intro ite_simplify_sound) simp_all
    moreover have "mk_ite_core rw c0 t0 e0 = ite_simplify rw (s1 \<or> s2 \<or> s3) c t e"
      unfolding mk_ite_core_def Let_def s1_def [symmetric] c_def [symmetric] t1_def [symmetric] e1_def [symmetric]
        s2_def [symmetric] t_def [symmetric] s3_def [symmetric] e_def [symmetric] by (rule if_not_P [OF False])
    ultimately show ?thesis unfolding cond_steps_def 1(6) 2(3) 3(3) by simp
  qed
qed

lemma mk_ite_plain: "mk_ite rw c t e = plain_result (m_mk_ite c t e) (mk_ite_core rw c t e)"
  by (simp add: mk_ite_def plain_result_def split_def Let_def)

lemma mk_ite_sound:
  assumes "ok_bool c" "well_sorted t" "well_sorted e" "get_sort t = get_sort e"
  shows "cond_steps c t e rw (mk_ite rw c t e)"
  using mk_ite_core_sound [OF assms] by (simp add: mk_ite_plain)

section \<open>Distinct arguments\<close>

lemma distinct_snoc_eval:
  "distinct (map (eval I) (xs @ [x])) \<longleftrightarrow> distinct (map (eval I) xs) \<and> (\<forall>b \<in> set xs. eval I x \<noteq> eval I b)"
  by auto

lemma diff_scan_sound:
  assumes "well_sorted arg" "list_all well_sorted before"
  shows "diff_scan arg before = Some True \<Longrightarrow> \<forall>b \<in> set before. eval I arg \<noteq> eval I b"
    "diff_scan arg before = None \<Longrightarrow> arg \<in> set before"
  using assms by (induction before) (auto simp: are_equal_iff dest: are_distinct_sound [of arg] split: if_splits)

lemma distinct_scan_sound:
  assumes "list_all well_sorted (before @ args)"
    and "all_value \<Longrightarrow> list_all is_unique_value before"
    and "all_diff \<Longrightarrow> \<forall>I. distinct (map (eval I) before)"
  shows "(distinct_scan before all_value all_diff args = None \<longrightarrow> \<not> distinct (before @ args)) \<and>
    (distinct_scan before all_value all_diff args = Some True \<longrightarrow> (\<forall>I. distinct (map (eval I) (before @ args))))"
  using assms
proof (induction args arbitrary: before all_value all_diff)
  case (Cons arg args)
  show ?case
  proof (cases "arg \<in> set before")
    case False
    define av where "av = (all_value \<and> is_unique_value arg)"
    have ws: "well_sorted arg" "list_all well_sorted before" "list_all well_sorted ((before @ [arg]) @ args)"
      using Cons.prems(1) by simp_all
    have av: "av \<Longrightarrow> list_all is_unique_value (before @ [arg])" using Cons.prems(2) by (simp add: av_def)
    have uv: "\<forall>b \<in> set before. eval I arg \<noteq> eval I b" if "av" for I
      using av [OF that] ws False unique_value_neq [of arg _ I] by (auto simp: list_all_iff)
    define d where "d = (if \<not> av \<and> all_diff then diff_scan arg before else Some all_diff)"
    show ?thesis
    proof (cases d)
      case None
      then have "diff_scan arg before = None" by (auto simp: d_def split: if_splits)
      with diff_scan_sound(2) [OF ws(1,2)] False show ?thesis by blast
    next
      case (Some d')
      have "\<forall>I. distinct (map (eval I) (before @ [arg]))" if "d'"
      proof
        fix I
        from that Some have ad: "all_diff" "av \<or> diff_scan arg before = Some True"
          by (auto simp: d_def split: if_splits)
        with uv diff_scan_sound(1) [OF ws(1,2)] have "\<forall>b \<in> set before. eval I arg \<noteq> eval I b" by blast
        with ad Cons.prems(3) show "distinct (map (eval I) (before @ [arg]))"
          unfolding distinct_snoc_eval by blast
      qed
      note ih = Cons.IH [OF ws(3) av this]
      have "distinct_scan before all_value all_diff (arg # args) = distinct_scan (before @ [arg]) av d' args"
        using Some False unfolding distinct_scan.simps Let_def av_def [symmetric] d_def [symmetric] by simp
      with ih show ?thesis by simp
    qed
  qed auto
qed auto

lemma distinct_pairs_blast:
  "list_all (holds_in I) (concat (map (\<lambda>i. map (\<lambda>j. m_mk_not (m_mk_eq (as ! i) (as ! j))) [Suc i..<length as]) [0..<length as]))
     \<longleftrightarrow> distinct (map (eval I) as)"
proof -
  have "list_all (holds_in I) (concat (map (\<lambda>i. map (\<lambda>j. m_mk_not (m_mk_eq (as ! i) (as ! j))) [Suc i..<length as]) [0..<length as]))
     \<longleftrightarrow> (\<forall>i < length as. \<forall>j < length as. i < j \<longrightarrow> eval I (as ! i) \<noteq> eval I (as ! j))"
    by (auto simp: list_all_iff term_simps)
  also have "\<dots> \<longleftrightarrow> distinct (map (eval I) as)"
    unfolding distinct_conv_nth length_map
  proof (intro iffI allI impI)
    fix i j
    assume *: "\<forall>i < length as. \<forall>j < length as. i < j \<longrightarrow> eval I (as ! i) \<noteq> eval I (as ! j)"
      "i < length as" "j < length as" "i \<noteq> j"
    then have "i < j \<or> j < i" by auto
    with * have "eval I (as ! i) \<noteq> eval I (as ! j)" by metis
    with * show "map (eval I) as ! i \<noteq> map (eval I) as ! j" by simp
  qed auto
  finally show ?thesis .
qed

lemma three_bools:
  assumes "3 \<le> length as" "list_all ok_bool as"
  shows "\<not> distinct (map (eval I) as)"
proof
  assume d: "distinct (map (eval I) as)"
  have "set (map (eval I) as) \<subseteq> {VBool True, VBool False}"
    using assms(2) by (auto simp: list_all_iff eval_bool)
  then have "card (set (map (eval I) as)) \<le> card {VBool True, VBool False}" by (intro card_mono) simp_all
  with d assms(1) show False by (simp add: distinct_card [OF d] del: set_map)
qed

lemma same_sorts:
  assumes "well_sorted (m_mk_distinct as)"
  shows "list_all well_sorted as" "\<And>i j. i < length as \<Longrightarrow> j < length as \<Longrightarrow> get_sort (as ! i) = get_sort (as ! j)"
  using assms by (auto simp: m_mk_distinct_def sig_ok_def list_all_length hd_map hd_conv_nth)

lemma mk_distinct_core_sound:
  assumes "well_sorted (m_mk_distinct args)"
  shows "is_meaning (\<lambda>I. distinct (map (eval I) args)) (br_result (mk_distinct_core rw args) (m_mk_distinct args))"
proof -
  note ws = same_sorts [OF assms]
  have plain: "is_meaning (\<lambda>I. distinct (map (eval I) args)) (m_mk_distinct args)"
    using assms by (simp add: is_meaning_def term_simps ok_bool_def is_bool_def)
  consider (short) "length args \<le> 1" | (two) a b where "args = [a, b]" | (many) "3 \<le> length args"
  proof -
    have "length args \<le> 1 \<or> length args = 2 \<or> 3 \<le> length args" by linarith
    with that show ?thesis by (auto simp: length_2_conv)
  qed
  then show ?thesis
  proof cases
    case short
    then show ?thesis
      by (cases args) (auto simp: mk_distinct_core_def is_meaning_const)
  next
    case two
    with ws(1) ws(2) [of 0 1] show ?thesis
      by (simp add: mk_distinct_core_def is_meaning_def term_simps)
  next
    case many
    note sc = distinct_scan_sound [of "[]" args True True]
    have bl: "list_all ok_bool (concat (map (\<lambda>i. map (\<lambda>j. m_mk_not (m_mk_eq (args ! i) (args ! j))) [Suc i..<length args]) [0..<length args]))"
      using ws(1) by (auto simp: list_all_iff term_simps intro!: ws(2))
    have b: "list_all ok_bool args" if "is_bool (args ! 0)"
      unfolding list_all_length
    proof (intro allI impI)
      fix i assume i: "i < length args"
      with many have "get_sort (args ! i) = get_sort (args ! 0)" by (intro ws(2)) auto
      with that i ws(1) show "ok_bool (args ! i)" by (simp add: ok_bool_def is_bool_def list_all_length)
    qed
    from many have m: "\<not> length args \<le> 1" "length args \<noteq> 2" by simp_all
    show ?thesis
    proof (cases "distinct_scan [] True True args")
      case None
      with sc ws(1) have "\<not> distinct args" by simp
      then have "\<not> distinct (map (eval I) args)" for I by (simp add: distinct_map)
      with None m show ?thesis by (simp add: mk_distinct_core_def is_meaning_const)
    next
      case (Some d)
      with sc ws(1) m bl plain three_bools [OF many] b distinct_pairs_blast show ?thesis
        by (auto simp: mk_distinct_core_def is_meaning_const is_meaning_and)
    qed
  qed
qed

section \<open>Dispatch\<close>

definition same_term :: "expr \<Rightarrow> expr \<Rightarrow> bool" where
  "same_term e r \<longleftrightarrow> well_sorted r \<and> get_sort r = get_sort e \<and> (\<forall>I. eval I r = eval I e)"

lemma same_term_bool:
  assumes "is_meaning P r" "ok_bool e" "\<And>I. P I = holds_in I e"
  shows "same_term e r"
  using assms ok_boolD [of e] ok_boolD [of r] by (auto simp: same_term_def is_meaning_def eval_bool)

lemma same_term_refl: "well_sorted e \<Longrightarrow> same_term e e"
  by (simp add: same_term_def)

definition app_steps :: "expr \<Rightarrow> bool_rewriter \<Rightarrow> expr \<times> bool_rewriter \<Rightarrow> bool" where
  "app_steps e rw x \<longleftrightarrow> same_term e (fst x) \<and> cost_only rw (snd x) \<and> (\<not> m_local_ctx rw \<longrightarrow> snd x = rw)"

lemma app_stepsI:
  assumes "steps_to P rw x" "ok_bool e" "\<And>I. P I = holds_in I e"
  shows "app_steps e rw x"
  using assms same_term_bool by (auto simp: app_steps_def steps_to_def)

lemma app_steps_stay: "same_term e r \<Longrightarrow> app_steps e rw (r, rw)"
  by (simp add: app_steps_def)

lemma mk_app_sound_aux:
  assumes "well_sorted (APP f args)"
  shows "app_steps (APP f args) rw (mk_app rw f args)"
proof -
  have app: "mk_app rw f args = plain_result (APP f args) (mk_app_core rw f args)"
    by (simp add: mk_app_def plain_result_def split_def Let_def)
  have stay: "app_steps (APP f args) rw (APP f args, rw)"
    using assms by (intro app_steps_stay same_term_refl)
  show ?thesis
  proof (cases f)
    case OP_EQ
    with assms obtain a b where ab: "args = [a, b]" by (auto simp: sig_ok_def length_2_conv)
    have e: "APP f args = m_mk_eq a b" by (simp add: OP_EQ ab m_mk_eq_def)
    from assms have s: "well_sorted a" "well_sorted b" "get_sort a = get_sort b" unfolding e by (simp_all add: term_simps)
    from mk_not_mk_eq_sound(2) [OF s, of rw] have "same_term (m_mk_eq a b) (br_result (mk_eq_core rw a b) (m_mk_eq a b))"
      by (intro same_term_bool [where P = "\<lambda>I. eval I a = eval I b"]) (simp_all add: is_equation_def is_meaning_def term_simps s)
    then show ?thesis unfolding app e by (simp add: OP_EQ ab mk_app_core_def app_steps_stay)
  next
    case OP_NOT
    with assms obtain a where a: "args = [a]" by (auto simp: sig_ok_def)
    have e: "APP f args = m_mk_not a" by (simp add: OP_NOT a m_mk_not_def)
    from assms have s: "ok_bool a" unfolding e by (simp add: term_simps)
    from mk_not_mk_eq_sound(1) [OF s, of rw] have "same_term (m_mk_not a) (br_result (mk_not_core rw a) (m_mk_not a))"
      by (intro same_term_bool) (simp_all add: term_simps s)
    then show ?thesis unfolding app e by (simp add: OP_NOT a mk_app_core_def app_steps_stay)
  next
    case OP_DISTINCT
    have e: "APP f args = m_mk_distinct args" by (simp add: OP_DISTINCT m_mk_distinct_def)
    with assms mk_distinct_core_sound [of args rw] have "same_term (m_mk_distinct args) (br_result (mk_distinct_core rw args) (m_mk_distinct args))"
      by (intro same_term_bool) (simp_all add: term_simps ok_bool_def is_bool_def)
    then show ?thesis unfolding app e by (simp add: OP_DISTINCT mk_app_core_def app_steps_stay)
  next
    case OP_AND
    have e: "APP f args = m_mk_and args" by (simp add: OP_AND m_mk_and_def)
    from assms have s: "list_all ok_bool args" unfolding e by (simp add: term_simps)
    show ?thesis unfolding app e using mk_and_core_sound [OF s, of rw] s
      by (intro app_stepsI) (simp_all add: OP_AND mk_app_core_def term_simps)
  next
    case OP_OR
    have e: "APP f args = m_mk_or args" by (simp add: OP_OR m_mk_or_def)
    from assms have s: "list_all ok_bool args" unfolding e by (simp add: term_simps)
    show ?thesis unfolding app e using mk_or_core_sound [OF s, of rw] s
      by (intro app_stepsI) (simp_all add: OP_OR mk_app_core_def term_simps)
  next
    case OP_ITE
    with assms obtain c t u where a: "args = [c, t, u]" by (auto simp: sig_ok_def length_3_conv)
    have e: "APP f args = m_mk_ite c t u" by (simp add: OP_ITE a m_mk_ite_def)
    from assms have s: "ok_bool c" "well_sorted t" "well_sorted u" "get_sort t = get_sort u"
      unfolding e by (simp_all add: term_simps)
    show ?thesis unfolding app e using mk_ite_core_sound [OF s, of rw]
      by (simp add: OP_ITE a mk_app_core_def app_steps_def cond_steps_def same_term_def is_conditional_def term_simps)
  next
    case OP_IMPLIES
    with assms obtain a b where ab: "args = [a, b]" "ok_bool a" "ok_bool b"
      by (auto simp: sig_ok_def ok_bool_def is_bool_def map_eq_Cons_conv)
    have "ok_bool (APP f args)" using assms by (simp add: ok_bool_def is_bool_def OP_IMPLIES get_range_def)
    with mk_implies_sound [OF ab(2,3), of rw] show ?thesis unfolding app
      by (intro app_stepsI) (auto simp: OP_IMPLIES ab mk_app_core_def holds_in_def split: prod.splits)
  next
    case OP_XOR
    have o: "ok_bool (APP f args)" using assms by (simp add: ok_bool_def is_bool_def OP_XOR get_range_def)
    have l: "list_all ok_bool args" using assms by (simp add: OP_XOR sig_ok_def list_all_iff ok_bool_def is_bool_def)
    have x2: "holds_in I (APP OP_XOR [a, b]) = (holds_in I a \<noteq> holds_in I b)" for I a b
      by (simp add: holds_in_def)
    consider a where "args = [a]" | a b where "args = [a, b]" | "mk_app_core rw f args = (None, rw)"
      by (cases args rule: remdups_adj.cases; cases "tl (tl args)") (auto simp: OP_XOR mk_app_core_def)
    then show ?thesis
    proof cases
      case 1
      with o l show ?thesis unfolding app
        by (auto simp: OP_XOR mk_app_core_def is_meaning_def holds_in_def
            intro!: app_steps_stay same_term_bool [where P = "\<lambda>I. holds_in I a"])
    next
      case 2
      with o l show ?thesis unfolding app
        by (auto simp: OP_XOR mk_app_core_def is_meaning_def x2 rw_simps
            intro!: app_steps_stay same_term_bool [where P = "\<lambda>I. holds_in I a \<noteq> holds_in I b"])
    next
      case 3
      with stay show ?thesis unfolding app by simp
    qed
  qed (use stay app in \<open>simp_all add: mk_app_core_def\<close>)
qed

end
