(* ===== verification/Bit_Blaster_Cfg.thy ===== *)
theory Bit_Blaster_Cfg
  imports Circuits_Shift Rewriter_Ops "HOL-Library.Multiset"
begin

text \<open>
  The configuration of the bit-blaster (bit_blaster.h, bit_blaster.cpp): the gates of the circuits are
  operations of the boolean rewriter on terms. A bit-blaster owns a rewriter with the default
  parameters, for which the local context simplification is off; such a rewriter is not changed
  by its operations, so that the gates are functions of their arguments. The configuration
  fulfils the contract \<open>gates\<close> of the circuits, in every interpretation of the terms and for
  every parameter of the rewriter; hence every circuit, built from terms, computes its
  arithmetic function.
\<close>

section \<open>The gates\<close>

record bit_blaster_params =
  m_bb_ext_gates :: bool
  m_bb_quantifiers :: bool

definition sort_args :: "bool_rewriter \<Rightarrow> expr \<Rightarrow> expr \<Rightarrow> expr \<Rightarrow> expr \<times> expr \<times> expr" where
  "sort_args rw l1 l2 l3 = (let args = sort_key (m_get_id rw) [l1, l2, l3] in (args ! 0, args ! 1, args ! 2))"

definition mk_xor3 :: "bool_rewriter \<Rightarrow> bit_blaster_params \<Rightarrow> expr \<Rightarrow> expr \<Rightarrow> expr \<Rightarrow> expr" where
  "mk_xor3 rw p a1 a2 a3 =
     (let (l1, l2, l3) = sort_args rw a1 a2 a3 in
      if m_bb_ext_gates p then
        (if l1 = l2 then l3
         else if l1 = l3 then l2
         else if l2 = l3 then l1
         else if is_complement l1 l2 then mk_not rw l3
         else if is_complement l1 l3 then mk_not rw l2
         else if is_complement l2 l3 then mk_not rw l1
         else if Ast.is_true l1 then mk_iff rw l2 l3
         else if Ast.is_false l1 then mk_xor rw l2 l3
         else if Ast.is_true l2 then mk_iff rw l1 l3
         else if Ast.is_false l2 then mk_xor rw l1 l3
         else if Ast.is_true l3 then mk_iff rw l1 l2
         else if Ast.is_false l3 then mk_xor rw l1 l2
         else APP OP_XOR3 [l1, l2, l3])
      else mk_xor rw (mk_xor rw l1 l2) l3)"

definition mk_carry :: "bool_rewriter \<Rightarrow> bit_blaster_params \<Rightarrow> expr \<Rightarrow> expr \<Rightarrow> expr \<Rightarrow> expr \<times> bool_rewriter" where
  "mk_carry rw p a1 a2 a3 =
     (let (l1, l2, l3) = sort_args rw a1 a2 a3 in
      if m_bb_ext_gates p then
        (if Ast.is_false l1 \<and> Ast.is_false l2 \<or> Ast.is_false l1 \<and> Ast.is_false l3 \<or> Ast.is_false l2 \<and> Ast.is_false l3
         then (m_false, rw)
         else if Ast.is_true l1 \<and> Ast.is_true l2 \<or> Ast.is_true l1 \<and> Ast.is_true l3 \<or> Ast.is_true l2 \<and> Ast.is_true l3
         then (m_true, rw)
         else if l1 = l2 \<and> l1 = l3 then (l1, rw)
         else if Ast.is_false l1 then mk_and rw [l2, l3]
         else if Ast.is_false l2 then mk_and rw [l1, l3]
         else if Ast.is_false l3 then mk_and rw [l1, l2]
         else if Ast.is_true l1 then mk_or rw [l2, l3]
         else if Ast.is_true l2 then mk_or rw [l1, l3]
         else if Ast.is_true l3 then mk_or rw [l1, l2]
         else if is_complement l1 l2 then (l3, rw)
         else if is_complement l1 l3 then (l2, rw)
         else if is_complement l2 l3 then (l1, rw)
         else (APP OP_CARRY [l1, l2, l3], rw))
      else
        let (t1, rw1) = mk_and rw [l1, l2]; (t2, rw2) = mk_and rw1 [l1, l3]; (t3, rw3) = mk_and rw2 [l2, l3]
        in mk_or rw3 [t1, t2, t3])"

definition bit_blaster_cfg :: "bool_rewriter \<Rightarrow> bit_blaster_params \<Rightarrow> bool \<Rightarrow> bool \<Rightarrow> expr bb_cfg" where
  \<comment> \<open>\<open>use_wtm\<close> and \<open>use_bcm\<close> are the arguments of the constructor of \<open>bit_blaster_tpl\<close>\<close>
  "bit_blaster_cfg rw p use_wtm use_bcm =
     \<lparr>mk_true = m_true, mk_false = m_false, bb_cfg.is_true = Ast.is_true, bb_cfg.is_false = Ast.is_false,
      mk_app_ite = m_mk_ite,
      cfg_xor = mk_xor rw,
      cfg_xor3 = mk_xor3 rw p,
      cfg_carry = (\<lambda>a b c. fst (mk_carry rw p a b c)),
      cfg_iff = mk_iff rw,
      cfg_and = (\<lambda>a b. fst (mk_and rw [a, b])),
      cfg_ands = (\<lambda>as. fst (mk_and rw as)),
      cfg_or = (\<lambda>a b. fst (mk_or rw [a, b])),
      cfg_ors = (\<lambda>as. fst (mk_or rw as)),
      cfg_not = mk_not rw,
      cfg_ite = (\<lambda>c t e. fst (mk_ite rw c t e)),
      cfg_nand = (\<lambda>a b. fst (mk_nand rw [a, b])),
      cfg_nor = (\<lambda>a b. fst (mk_nor rw [a, b])),
      cfg_ge2 = (\<lambda>a b c. fst (mk_ge2 rw a b c)),
      m_use_wtm = use_wtm, m_use_bcm = use_bcm\<rparr>"

definition bit_blaster :: "(expr \<Rightarrow> nat) \<Rightarrow> (expr \<Rightarrow> expr \<Rightarrow> bool) \<Rightarrow> bit_blaster_params \<Rightarrow> expr bb_cfg" where
  \<comment> \<open>the constructor of \<open>bit_blaster\<close>: a rewriter of its own with the default parameters\<close>
  "bit_blaster ids lt p = bit_blaster_cfg (mk_bool_rewriter ids lt default_params) p False False"

section \<open>What the gates compute\<close>

lemma sort_args_perm:
  assumes "sort_args rw a b c = (l1, l2, l3)"
  shows "mset [l1, l2, l3] = mset [a, b, c]"
proof -
  define args where "args = sort_key (m_get_id rw) [a, b, c]"
  have l: "length args = 3" by (simp add: args_def)
  then have "args = [args ! 0, args ! 1, args ! 2]" by (auto simp: length_3_conv)
  with assms have "args = [l1, l2, l3]" by (simp add: sort_args_def args_def Let_def)
  then show ?thesis by (metis args_def mset_sort)
qed

definition majority :: "bool \<Rightarrow> bool \<Rightarrow> bool \<Rightarrow> bool" where
  "majority x y z \<longleftrightarrow> x \<and> y \<or> x \<and> z \<or> y \<and> z"

lemma sort_args_ok:
  assumes "sort_args rw a b c = (l1, l2, l3)" "ok_bool a" "ok_bool b" "ok_bool c"
  shows "ok_bool l1" "ok_bool l2" "ok_bool l3"
    "(holds_in I l1 \<noteq> (holds_in I l2 \<noteq> holds_in I l3)) = (holds_in I a \<noteq> (holds_in I b \<noteq> holds_in I c))"
    "majority (holds_in I l1) (holds_in I l2) (holds_in I l3) = majority (holds_in I a) (holds_in I b) (holds_in I c)"
proof -
  note m = sort_args_perm [OF assms(1)]
  have "set [l1, l2, l3] = set [a, b, c]" using m by (metis set_mset_mset)
  then show "ok_bool l1" "ok_bool l2" "ok_bool l3" using assms by auto
  have s: "size (filter_mset (holds_in I) (mset [l1, l2, l3])) = size (filter_mset (holds_in I) (mset [a, b, c]))"
    by (simp only: m)
  then show "(holds_in I l1 \<noteq> (holds_in I l2 \<noteq> holds_in I l3)) = (holds_in I a \<noteq> (holds_in I b \<noteq> holds_in I c))"
    "majority (holds_in I l1) (holds_in I l2) (holds_in I l3) = majority (holds_in I a) (holds_in I b) (holds_in I c)"
    by (auto simp: majority_def split: if_splits)
qed

lemma xor3_term:
  assumes "ok_bool a" "ok_bool b" "ok_bool c"
  shows "is_meaning (\<lambda>I. holds_in I a \<noteq> (holds_in I b \<noteq> holds_in I c)) (APP OP_XOR3 [a, b, c])"
  using assms by (auto simp: is_meaning_def ok_bool_def is_bool_def sig_ok_def get_range_def holds_in_def)

lemma carry_term:
  assumes "ok_bool a" "ok_bool b" "ok_bool c"
  shows "is_meaning (\<lambda>I. majority (holds_in I a) (holds_in I b) (holds_in I c)) (APP OP_CARRY [a, b, c])"
  using assms by (auto simp: is_meaning_def ok_bool_def is_bool_def sig_ok_def get_range_def holds_in_def majority_def)

lemma mk_xor3_ok:
  assumes "ok_bool a" "ok_bool b" "ok_bool c"
  shows "is_meaning (\<lambda>I. holds_in I a \<noteq> (holds_in I b \<noteq> holds_in I c)) (mk_xor3 rw p a b c)"
proof -
  obtain l1 l2 l3 where l: "sort_args rw a b c = (l1, l2, l3)" by (cases "sort_args rw a b c")
  note ok = sort_args_ok(1-3) [OF l assms]
  note v = is_complement_value [OF _ ok(1,2)] is_complement_value [OF _ ok(1,3)] is_complement_value [OF _ ok(2,3)]
  have "is_meaning (\<lambda>I. holds_in I l1 \<noteq> (holds_in I l2 \<noteq> holds_in I l3)) (mk_xor3 rw p a b c)"
    unfolding mk_xor3_def l Let_def prod.case Ast.is_true_def Ast.is_false_def
    using ok xor3_term [OF ok]
    by (intro if_meaning; (elim conjE)?; simp add: is_meaning_def rw_simps term_simps v; (intro allI; argo)?)
  then show ?thesis unfolding is_meaning_def sort_args_ok(4) [OF l assms] .
qed

lemma three_ands_sound:
  assumes ok: "ok_bool l1" "ok_bool l2" "ok_bool l3"
  shows "steps_to (\<lambda>I. majority (holds_in I l1) (holds_in I l2) (holds_in I l3)) rw
     (let (t1, rw1) = mk_and rw [l1, l2]; (t2, rw2) = mk_and rw1 [l1, l3]; (t3, rw3) = mk_and rw2 [l2, l3]
      in mk_or rw3 [t1, t2, t3])"
proof (intro steps_to_bind)
  show "steps_to (all_of [l1, l2]) rw (mk_and rw [l1, l2])" using ok by (intro mk_and_sound) simp
  show "steps_to (all_of [l1, l3]) rw1 (mk_and rw1 [l1, l3])" for rw1 using ok by (intro mk_and_sound) simp
  show "steps_to (all_of [l2, l3]) rw2 (mk_and rw2 [l2, l3])" for rw2 using ok by (intro mk_and_sound) simp
  show "steps_to (\<lambda>I. majority (holds_in I l1) (holds_in I l2) (holds_in I l3)) rw3 (mk_or rw3 [t1, t2, t3])"
    if "is_meaning (all_of [l1, l2]) t1" "is_meaning (all_of [l1, l3]) t2" "is_meaning (all_of [l2, l3]) t3" for rw3 t1 t2 t3
    using that by (intro steps_to_cong [OF mk_or_sound]) (simp_all add: is_meaning_def majority_def)
qed

lemma mk_carry_sound:
  assumes "ok_bool a" "ok_bool b" "ok_bool c"
  shows "steps_to (\<lambda>I. majority (holds_in I a) (holds_in I b) (holds_in I c)) rw (mk_carry rw p a b c)"
proof -
  obtain l1 l2 l3 where l: "sort_args rw a b c = (l1, l2, l3)" by (cases "sort_args rw a b c")
  note ok = sort_args_ok(1-3) [OF l assms]
  note v = is_complement_value [OF _ ok(1,2)] is_complement_value [OF _ ok(1,3)] is_complement_value [OF _ ok(2,3)]
  have "steps_to (\<lambda>I. majority (holds_in I l1) (holds_in I l2) (holds_in I l3)) rw (mk_carry rw p a b c)"
    unfolding mk_carry_def l Let_def [of "(l1, l2, l3)"] prod.case Ast.is_true_def Ast.is_false_def
    using ok carry_term [OF ok] three_ands_sound [OF ok]
    by (intro if_steps; (elim conjE disjE)?; (intro mk_or2_sound mk_and2_sound)?;
        simp add: is_meaning_def rw_simps term_simps v majority_def; blast?)
  then show ?thesis by (rule steps_to_cong) (rule sort_args_ok(5) [OF l assms])
qed

text \<open>The operations of the rewriter fulfil the contract of the gates.\<close>

interpretation bb: gates "bit_blaster_cfg rw p use_wtm use_bcm" "holds_in I" ok_bool for rw p use_wtm use_bcm I
proof
  let ?C = "bit_blaster_cfg rw p use_wtm use_bcm"
  have st: "ok_bool (fst x) \<and> holds_in I (fst x) = P I" if "steps_to P rw x" for x P
    using that by (simp add: steps_to_def is_meaning_def)
  fix a b c :: expr and as :: "expr list"
  show "ok_bool (mk_true ?C) \<and> holds_in I (mk_true ?C)" "ok_bool (mk_false ?C) \<and> \<not> holds_in I (mk_false ?C)"
    by (simp_all add: bit_blaster_cfg_def term_simps)
  show "bb_cfg.is_true ?C a \<Longrightarrow> holds_in I a" "bb_cfg.is_false ?C a \<Longrightarrow> \<not> holds_in I a"
    by (simp_all add: bit_blaster_cfg_def Ast.is_true_def Ast.is_false_def term_simps)
  assume a: "ok_bool a"
  show "ok_bool (cfg_not ?C a) \<and> holds_in I (cfg_not ?C a) = (\<not> holds_in I a)"
    using a by (simp add: bit_blaster_cfg_def rw_simps)
  assume b: "ok_bool b"
  show "ok_bool (cfg_and ?C a b) \<and> holds_in I (cfg_and ?C a b) = (holds_in I a \<and> holds_in I b)"
    using st [OF mk_and_sound [of "[a, b]" rw]] a b by (simp add: bit_blaster_cfg_def)
  show "ok_bool (cfg_or ?C a b) \<and> holds_in I (cfg_or ?C a b) = (holds_in I a \<or> holds_in I b)"
    using st [OF mk_or_sound [of "[a, b]" rw]] a b by (simp add: bit_blaster_cfg_def)
  show "ok_bool (cfg_xor ?C a b) \<and> holds_in I (cfg_xor ?C a b) = (holds_in I a \<noteq> holds_in I b)"
    using a b by (simp add: bit_blaster_cfg_def rw_simps)
  show "ok_bool (cfg_iff ?C a b) \<and> holds_in I (cfg_iff ?C a b) = (holds_in I a = holds_in I b)"
    using a b by (simp add: bit_blaster_cfg_def rw_simps)
  show "ok_bool (cfg_nand ?C a b) \<and> holds_in I (cfg_nand ?C a b) = (\<not> (holds_in I a \<and> holds_in I b))"
    using st [OF mk_nand_sound [of "[a, b]" rw]] a b by (simp add: bit_blaster_cfg_def)
  show "ok_bool (cfg_nor ?C a b) \<and> holds_in I (cfg_nor ?C a b) = (\<not> (holds_in I a \<or> holds_in I b))"
    using st [OF mk_nor_sound [of "[a, b]" rw]] a b by (simp add: bit_blaster_cfg_def)
  assume c: "ok_bool c"
  have "cond_steps a b c rw (mk_ite rw a b c)"
    using a b c by (intro mk_ite_sound) (simp_all add: ok_boolD)
  then have "steps_to (\<lambda>I. if holds_in I a then holds_in I b else holds_in I c) rw (mk_ite rw a b c)"
    by (simp only: bool_cond_steps [OF b c])
  from st [OF this] show "ok_bool (cfg_ite ?C a b c) \<and>
      holds_in I (cfg_ite ?C a b c) = (if holds_in I a then holds_in I b else holds_in I c)"
    by (simp add: bit_blaster_cfg_def)
  show "ok_bool (cfg_xor3 ?C a b c) \<and>
      holds_in I (cfg_xor3 ?C a b c) = (holds_in I a \<noteq> (holds_in I b \<noteq> holds_in I c))"
    using mk_xor3_ok [OF a b c, of rw p] by (simp add: bit_blaster_cfg_def is_meaning_def)
  show "ok_bool (cfg_carry ?C a b c) \<and> holds_in I (cfg_carry ?C a b c) =
      (holds_in I a \<and> holds_in I b \<or> holds_in I a \<and> holds_in I c \<or> holds_in I b \<and> holds_in I c)"
    using st [OF mk_carry_sound [OF a b c, of rw p]] by (simp add: bit_blaster_cfg_def majority_def)
  show "ok_bool (cfg_ge2 ?C a b c) \<and> holds_in I (cfg_ge2 ?C a b c) =
      (holds_in I a \<and> holds_in I b \<or> holds_in I a \<and> holds_in I c \<or> holds_in I b \<and> holds_in I c)"
    using st [OF mk_ge2_sound [OF a b c, of rw]] by (simp add: bit_blaster_cfg_def)
next
  let ?C = "bit_blaster_cfg rw p use_wtm use_bcm"
  have st: "ok_bool (fst x) \<and> holds_in I (fst x) = P I" if "steps_to P rw x" for x P
    using that by (simp add: steps_to_def is_meaning_def)
  fix as :: "expr list"
  assume as: "list_all ok_bool as"
  show "ok_bool (cfg_ands ?C as) \<and> holds_in I (cfg_ands ?C as) = list_all (holds_in I) as"
    using st [OF mk_and_sound [OF as, of rw]] by (simp add: bit_blaster_cfg_def)
  show "ok_bool (cfg_ors ?C as) \<and> holds_in I (cfg_ors ?C as) = list_ex (holds_in I) as"
    using st [OF mk_or_sound [OF as, of rw]] by (simp add: bit_blaster_cfg_def)
qed

end
