(* ===== verification/Blasted_Circuits.thy ===== *)
theory Blasted_Circuits
  imports Bit_Blaster_Cfg
begin

unbundle bit_operations_syntax

text \<open>
  The circuits over the terms of the solver: for bits that are well-sorted boolean terms, the
  output bits are such terms again, and in every interpretation their number is the result of
  the bit-vector operation on the numbers of the inputs. All statements hold for every state
  of the rewriter, with and without the extended gates and for both kinds of multipliers.
\<close>

section \<open>Numbers of bit terms\<close>

definition bit_terms :: "nat \<Rightarrow> expr list \<Rightarrow> bool" where
  "bit_terms n as \<longleftrightarrow> length as = n \<and> list_all ok_bool as"

definition unsigned_in :: "interp \<Rightarrow> expr list \<Rightarrow> nat" where
  "unsigned_in I as = bval (map (holds_in I) as)"

definition signed_in :: "interp \<Rightarrow> expr list \<Rightarrow> int" where
  "signed_in I as = sval (map (holds_in I) as)"

lemma bb_bits [simp]: "gates.bits ok_bool n as = bit_terms n as"
  by (simp add: bb.bits_def bit_terms_def)

lemma bb_uv [simp]: "gates.uv (holds_in I) as = unsigned_in I as"
  by (simp add: bb.uv_def unsigned_in_def)

lemma bb_sv [simp]: "gates.sv (holds_in I) as = signed_in I as"
  by (simp add: bb.sv_def signed_in_def)

lemma bb_mag [simp]: "gates.mag (holds_in I) as = nat \<bar>signed_in I as\<bar>"
  by (simp add: bb.mag_def)

text \<open>Inputs for the examples: two vectors of three bits, some of them constant.\<close>

definition demo_x :: "expr list" where
  "demo_x = [VAR 0 BOOL_SORT, VAR 1 BOOL_SORT, m_true]"

definition demo_y :: "expr list" where
  "demo_y = [VAR 2 BOOL_SORT, m_false, VAR 3 BOOL_SORT]"

definition demo_cfg :: "expr bb_cfg" where
  "demo_cfg = bit_blaster (\<lambda>e. 0) (\<lambda>a b. False) \<lparr>m_bb_ext_gates = True, m_bb_quantifiers = False\<rparr>"

lemma demo_bits [simp]: "bit_terms 3 demo_x" "bit_terms 3 demo_y"
  by (simp_all add: demo_x_def demo_y_def bit_terms_def term_simps) (simp_all add: ok_bool_def is_bool_def)

lemma demo_cfg_eq: "demo_cfg = bit_blaster_cfg (mk_bool_rewriter (\<lambda>e. 0) (\<lambda>a b. False) default_params)
    \<lparr>m_bb_ext_gates = True, m_bb_quantifiers = False\<rparr> False False"
  by (simp add: demo_cfg_def bit_blaster_def)

section \<open>Addition and multiplication\<close>

text \<open>
  The gates of the full adder: with and without the extended gates, \<open>mk_xor3\<close> is the
  parity and \<open>mk_carry\<close> the majority of three terms, and a rewriter without local context
  simplification is left as it was.
\<close>

lemma full_adder_gates_correct:
  assumes "ok_bool a" "ok_bool b" "ok_bool c"
  shows "ok_bool (mk_xor3 rw p a b c) \<and> ok_bool (fst (mk_carry rw p a b c)) \<and>
     (\<not> m_local_ctx rw \<longrightarrow> snd (mk_carry rw p a b c) = rw) \<and>
     (\<forall>I. holds_in I (mk_xor3 rw p a b c) = odd (bval [holds_in I a] + bval [holds_in I b] + bval [holds_in I c]) \<and>
          holds_in I (fst (mk_carry rw p a b c)) = (2 \<le> bval [holds_in I a] + bval [holds_in I b] + bval [holds_in I c]))"
  using mk_xor3_ok [OF assms, of rw p] mk_carry_sound [OF assms, of rw p]
  by (auto simp: is_meaning_def steps_to_def majority_def)

text \<open>
  C26. The adder adds and the subtracter subtracts modulo \<open>2 ^ n\<close>, the last carry of the latter
  tells that there is no borrow, and \<open>mk_neg\<close> is the two's complement.
\<close>

theorem addition_correct:
  assumes "bit_terms n as" "bit_terms n bs"
  shows "bit_terms n (mk_adder (bit_blaster_cfg rw p wtm bcm) as bs) \<and>
    (\<forall>I. unsigned_in I (mk_adder (bit_blaster_cfg rw p wtm bcm) as bs) = (unsigned_in I as + unsigned_in I bs) mod 2 ^ n) \<and>
    (case mk_subtracter (bit_blaster_cfg rw p wtm bcm) as bs of (out, cout) \<Rightarrow>
      bit_terms n out \<and> ok_bool cout \<and>
      (\<forall>I. int (unsigned_in I out) = (int (unsigned_in I as) - int (unsigned_in I bs)) mod 2 ^ n \<and>
           (holds_in I cout \<longleftrightarrow> unsigned_in I bs \<le> unsigned_in I as) \<and>
           int (unsigned_in I (mk_neg (bit_blaster_cfg rw p wtm bcm) as)) = - int (unsigned_in I as) mod 2 ^ n))"
proof -
  let ?C = "bit_blaster_cfg rw p wtm bcm"
  obtain t c where s: "mk_subtracter ?C as bs = (t, c)" by (cases "mk_subtracter ?C as bs")
  have le: "unsigned_in I as \<le> 2 ^ n" "unsigned_in I bs \<le> 2 ^ n" for I
    using bb.uv_less [of n as I] bb.uv_less [of n bs I] assms by simp_all
  have m: "int ((x + (2 ^ n - y)) mod 2 ^ n) = (int x - int y) mod 2 ^ n" if "y \<le> 2 ^ n" for x y
  proof -
    have "int ((x + (2 ^ n - y)) mod 2 ^ n) = (int x - int y + 2 ^ n) mod 2 ^ n"
      using that by (simp add: zmod_int of_nat_diff algebra_simps)
    then show ?thesis by simp
  qed
  have "int (unsigned_in I t) = (int (unsigned_in I as) - int (unsigned_in I bs)) mod 2 ^ n" for I
    using bb.subtracter_value(3) [of n as bs rw p wtm bcm t c I] assms s m [OF le(2) [of I]] le by simp
  moreover have "int (unsigned_in I (mk_neg ?C as)) = - int (unsigned_in I as) mod 2 ^ n" for I
    using bb.neg_value(2) [of n as I rw p wtm bcm] assms m [OF le(1), of 0 I] by simp
  ultimately show ?thesis
    using bb.subtracter_value(1,2,4) [of n as bs rw p wtm bcm t c] bb.adder_value assms s by simp
qed

theorem addition_correct_witness:
  "\<forall>I. unsigned_in I (mk_adder demo_cfg demo_x demo_y) = (unsigned_in I demo_x + unsigned_in I demo_y) mod 2 ^ 3 \<and>
     int (unsigned_in I (fst (mk_subtracter demo_cfg demo_x demo_y))) = (int (unsigned_in I demo_x) - int (unsigned_in I demo_y)) mod 2 ^ 3"
  using addition_correct [of 3 demo_x demo_y] unfolding demo_cfg_eq by (simp add: split_def)

text \<open>
  C23. Multiplication: the multiplier, whichever of the array, the Wallace tree and the circuits
  for a constant operand is chosen, multiplies modulo \<open>2 ^ n\<close>, and the three overflow predicates
  tell whether the exact product, unsigned or signed, is in range.
\<close>

theorem multiplier_correct:
  assumes "bit_terms n as" "bit_terms n bs" "0 < n"
  shows "bit_terms n (mk_multiplier (bit_blaster_cfg rw p wtm bcm) as bs) \<and>
    (\<forall>I. unsigned_in I (mk_multiplier (bit_blaster_cfg rw p wtm bcm) as bs) = (unsigned_in I as * unsigned_in I bs) mod 2 ^ n \<and>
       holds_in I (mk_umul_no_overflow (bit_blaster_cfg rw p wtm bcm) as bs) = (unsigned_in I as * unsigned_in I bs < 2 ^ n) \<and>
       holds_in I (mk_smul_no_overflow (bit_blaster_cfg rw p wtm bcm) as bs) = (signed_in I as * signed_in I bs < 2 ^ (n - 1)) \<and>
       holds_in I (mk_smul_no_underflow (bit_blaster_cfg rw p wtm bcm) as bs) = (- (2 ^ (n - 1)) \<le> signed_in I as * signed_in I bs))"
  using bb.multiplier_value [of n as bs] bb.umul_no_overflow_value [of n as bs] bb.smul_core_value [of n as bs] assms
  by (simp add: mk_smul_no_overflow_def mk_smul_no_underflow_def)

theorem multiplier_correct_witness:
  "\<forall>I. unsigned_in I (mk_multiplier demo_cfg demo_x demo_y) = (unsigned_in I demo_x * unsigned_in I demo_y) mod 2 ^ 3"
  using multiplier_correct [of 3 demo_x demo_y] unfolding demo_cfg_eq by simp

section \<open>Division\<close>

text \<open>
  C25. Unsigned division: quotient and remainder of the restoring divider are those of the
  numbers; a zero divisor gives the quotient with all bits set and the dividend as remainder.
\<close>

theorem unsigned_division_correct:
  assumes "bit_terms n as" "bit_terms n bs" "0 < n"
  shows "bit_terms n (mk_udiv (bit_blaster_cfg rw p wtm bcm) as bs) \<and> bit_terms n (mk_urem (bit_blaster_cfg rw p wtm bcm) as bs) \<and>
    (\<forall>I. unsigned_in I (mk_udiv (bit_blaster_cfg rw p wtm bcm) as bs) =
           (if unsigned_in I bs = 0 then 2 ^ n - 1 else unsigned_in I as div unsigned_in I bs) \<and>
         unsigned_in I (mk_urem (bit_blaster_cfg rw p wtm bcm) as bs) = unsigned_in I as mod unsigned_in I bs)"
  using bb.udiv_value [of n as bs] bb.urem_value [of n as bs] assms by (simp add: bb.udiv_spec_def)

theorem unsigned_division_correct_witness:
  "\<forall>I. unsigned_in I (mk_udiv demo_cfg demo_y demo_x) = unsigned_in I demo_y div unsigned_in I demo_x"
proof -
  have "unsigned_in I demo_x \<noteq> 0" for I by (simp add: unsigned_in_def demo_x_def holds_in_def m_true_def)
  then show ?thesis using unsigned_division_correct [of 3 demo_y demo_x] unfolding demo_cfg_eq by simp
qed

text \<open>
  C24. Signed division: \<open>mk_sdiv\<close> and \<open>mk_srem\<close> truncate towards zero, \<open>mk_smod\<close> rounds down and
  has the sign of the divisor, each in two's complement. A zero divisor gives \<open>1\<close> or \<open>-1\<close>
  by the sign of the dividend, and the dividend as remainder. The circuit
  \<open>mk_sdiv_srem_smod\<close> with the case distinctions shared has the same quotient and
  remainder, but not the same modulus: for operands of different signs it gives the divisor
  instead of zero when there is no remainder. The code uses its first two instances only.
\<close>

theorem signed_division_correct:
  assumes "bit_terms n as" "bit_terms n bs" "0 < n" and C: "C = bit_blaster_cfg rw p wtm bcm"
  shows "bit_terms n (mk_sdiv C as bs) \<and> bit_terms n (mk_srem C as bs) \<and> bit_terms n (mk_smod C as bs) \<and>
    (\<forall>I. int (unsigned_in I (mk_sdiv C as bs)) =
        (if signed_in I bs = 0 then if signed_in I as < 0 then 1 else - 1 else signed_in I as sdiv signed_in I bs) mod 2 ^ n \<and>
      int (unsigned_in I (mk_srem C as bs)) = (signed_in I as smod signed_in I bs) mod 2 ^ n \<and>
      int (unsigned_in I (mk_smod C as bs)) = (signed_in I as mod signed_in I bs) mod 2 ^ n \<and>
      unsigned_in I (mk_sdiv_srem_smod C SDIV as bs) = unsigned_in I (mk_sdiv C as bs) \<and>
      unsigned_in I (mk_sdiv_srem_smod C SREM as bs) = unsigned_in I (mk_srem C as bs) \<and>
      int (unsigned_in I (mk_sdiv_srem_smod C SMOD as bs)) =
        (if (signed_in I as < 0) \<noteq> (signed_in I bs < 0) \<and> signed_in I bs dvd signed_in I as then signed_in I bs
         else signed_in I as mod signed_in I bs) mod 2 ^ n)"
  unfolding C
  using bb.sdiv_int_value [of n as bs] bb.srem_int_value [of n as bs] bb.smod_value [of n as bs] bb.sdiv_value(1) [of n as bs]
    bb.srem_value(1) [of n as bs] bb.sdiv_srem_smod_value [of n as bs]
    bb.sdiv_srem_smod_modulus [of n as bs] assms(1-3) by simp

theorem signed_division_correct_witness:
  "\<forall>I. int (unsigned_in I (mk_sdiv demo_cfg demo_y demo_x)) = (signed_in I demo_y sdiv signed_in I demo_x) mod 2 ^ 3 \<and>
     int (unsigned_in I (mk_smod demo_cfg demo_y demo_x)) = (signed_in I demo_y mod signed_in I demo_x) mod 2 ^ 3"
proof -
  have "signed_in I demo_x \<noteq> 0" for I by (simp add: signed_in_def sval_def demo_x_def holds_in_def m_true_def)
  then show ?thesis using signed_division_correct [of 3 demo_y demo_x, OF _ _ _ demo_cfg_eq] by simp
qed

section \<open>Shifts and rotations\<close>

text \<open>
  C27. The barrel shifters: \<open>mk_shl\<close> multiplies by the power of two modulo \<open>2 ^ n\<close>,
  \<open>mk_lshr\<close> divides the unsigned and \<open>mk_ashr\<close> the signed number by it, rounding
  down, also for shifts by the width or more.
\<close>

theorem shifts_correct:
  assumes "bit_terms n as" "bit_terms n bs" "0 < n" and C: "C = bit_blaster_cfg rw p wtm bcm"
  shows "bit_terms n (mk_shl C as bs) \<and> bit_terms n (mk_lshr C as bs) \<and> bit_terms n (mk_ashr C as bs) \<and>
    (\<forall>I. unsigned_in I (mk_shl C as bs) = unsigned_in I as * 2 ^ unsigned_in I bs mod 2 ^ n \<and>
      unsigned_in I (mk_lshr C as bs) = unsigned_in I as div 2 ^ unsigned_in I bs \<and>
      int (unsigned_in I (mk_ashr C as bs)) = (signed_in I as div 2 ^ unsigned_in I bs) mod 2 ^ n)"
  unfolding C using bb.shl_value [of n as bs] bb.lshr_value [of n as bs] bb.ashr_value [of n as bs] assms(1-3) by simp

theorem shifts_correct_witness:
  "\<forall>I. int (unsigned_in I (mk_ashr demo_cfg demo_x demo_y)) = (signed_in I demo_x div 2 ^ unsigned_in I demo_y) mod 2 ^ 3"
  using shifts_correct [of 3 demo_x demo_y, OF _ _ _ demo_cfg_eq] by simp

text \<open>
  C28. Rotations: by a constant the bits are permuted, by a vector the circuit selects the
  rotation by its number modulo the width; rotating right undoes rotating left.
\<close>

theorem rotations_correct:
  assumes "bit_terms n as" "bit_terms n bs" "i < n" and C: "C = bit_blaster_cfg rw p wtm bcm"
  shows "mk_rotate_left C as k ! i = as ! ((n + i - k mod n) mod n) \<and> mk_rotate_right C as k ! i = as ! ((i + k) mod n) \<and>
    mk_rotate_right C (mk_rotate_left C as k) k ! i = as ! i \<and>
    (\<forall>I. holds_in I (mk_ext_rotate_left C as bs ! i) = holds_in I (mk_rotate_left C as (unsigned_in I bs) ! i) \<and>
      holds_in I (mk_ext_rotate_right C as bs ! i) = holds_in I (mk_rotate_right C as (unsigned_in I bs) ! i))"
proof -
  have len: "length as = n" using assms(1) by (simp add: bit_terms_def)
  note l = rotate_left_nth [OF len] and r = rotate_right_nth [OF len assms(3)]
  have "(i + k) mod n < n" using assms(3) by simp
  then have "mk_rotate_right C (mk_rotate_left C as k) k ! i = as ! ((n + (i + k) mod n - k mod n) mod n)"
    using rotate_right_nth(1) [OF l(2) [OF assms(3)] assms(3)] l(1) by simp
  also have "(n + (i + k) mod n - k mod n) mod n = i"
  proof -
    have "k mod n < n" using assms(3) by simp
    then have "int ((n + (i + k) mod n - k mod n) mod n) = (int n + int ((i + k) mod n) - int (k mod n)) mod int n"
      by (simp add: zmod_int of_nat_diff)
    also have "\<dots> = (int n + int (i + k) - int k) mod int n"
      by (simp only: zmod_int mod_diff_right_eq) (metis mod_diff_left_eq mod_add_right_eq)
    also have "\<dots> = int i" using assms(3) by simp
    finally show ?thesis by simp
  qed
  finally show ?thesis
    using l(1) [OF assms(3)] r(1) bb.ext_rotate_nth(3) [of n as bs i] assms(1-3) C
    by (simp add: mk_ext_rotate_left_def mk_ext_rotate_right_def mod_simps)
qed

theorem rotations_correct_witness:
  "mk_rotate_right demo_cfg (mk_rotate_left demo_cfg demo_x 2) 2 ! 1 = demo_x ! 1"
  using rotations_correct [of 3 demo_x demo_y 1, OF _ _ _ demo_cfg_eq] by simp

section \<open>Comparisons, bitwise operations, extensions and numerals\<close>

text \<open>Comparisons: \<open>mk_eq\<close>, \<open>mk_ule\<close> and \<open>mk_sle\<close> compare the numbers of the vectors.\<close>

lemma comparisons_correct:
  assumes "bit_terms n as" "bit_terms n bs" "0 < n" and C: "C = bit_blaster_cfg rw p wtm bcm"
  shows "holds_in I (Bit_Blaster.mk_eq C as bs) = (unsigned_in I as = unsigned_in I bs) \<and>
    holds_in I (mk_ule C as bs) = (unsigned_in I as \<le> unsigned_in I bs) \<and>
    holds_in I (mk_sle C as bs) = (signed_in I as \<le> signed_in I bs) \<and>
    holds_in I (hd (mk_comp C as bs)) = (unsigned_in I as = unsigned_in I bs)"
  unfolding C using bb.eq_value [of n as bs] bb.ule_value [of n as bs] bb.sle_value [of n as bs] assms(1-3)
  by (simp add: mk_comp_def)

text \<open>
  C29. Bitwise operations: the macro for binary gates and the complement compute the operations
  of machine words, the reductions tell whether all bits or any bit is set, and the
  extensions keep the signed or the unsigned number.
\<close>

theorem bitwise_correct:
  assumes "bit_terms n as" "bit_terms n bs" "0 < n" and C: "C = bit_blaster_cfg rw p wtm bcm"
  shows "unsigned_in I (mk_binary (cfg_and C) as bs) = unsigned_in I as AND unsigned_in I bs \<and>
    unsigned_in I (mk_binary (cfg_or C) as bs) = unsigned_in I as OR unsigned_in I bs \<and>
    unsigned_in I (mk_binary (cfg_xor C) as bs) = unsigned_in I as XOR unsigned_in I bs \<and>
    int (unsigned_in I (mk_binary (cfg_iff C) as bs)) = (NOT (int (unsigned_in I as) XOR int (unsigned_in I bs))) mod 2 ^ n \<and>
    int (unsigned_in I (mk_binary (cfg_nand C) as bs)) = (NOT (int (unsigned_in I as) AND int (unsigned_in I bs))) mod 2 ^ n \<and>
    int (unsigned_in I (mk_binary (cfg_nor C) as bs)) = (NOT (int (unsigned_in I as) OR int (unsigned_in I bs))) mod 2 ^ n \<and>
    unsigned_in I (mk_not_bits C as) = 2 ^ n - 1 - unsigned_in I as \<and>
    unsigned_in I (mk_redand C as) = of_bool (unsigned_in I as = 2 ^ n - 1) \<and>
    unsigned_in I (mk_redor C as) = of_bool (unsigned_in I as \<noteq> 0) \<and>
    signed_in I (mk_sign_extend C as k) = signed_in I as \<and> unsigned_in I (mk_zero_extend C as k) = unsigned_in I as"
  unfolding C
  using bb.bitwise_values [of n as bs] bb.not_bits_value [of n as] bb.reduction_values [of n as]
    bb.sign_extend_value [of n as] bb.zero_extend_value [of n as] assms(1-3) by simp

theorem bitwise_correct_witness:
  "\<forall>I. unsigned_in I (mk_binary (cfg_xor demo_cfg) demo_x demo_y) = unsigned_in I demo_x XOR unsigned_in I demo_y \<and>
     signed_in I (mk_sign_extend demo_cfg demo_x 5) = signed_in I demo_x"
  using bitwise_correct [of 3 demo_x demo_y, OF _ _ _ demo_cfg_eq] by simp

lemma num2bits_consts: "set (num2bits_loop C v n) \<subseteq> {mk_true C, mk_false C}"
proof (induction C v n rule: num2bits_loop.induct)
  case (1 C v n)
  then show ?case by (subst num2bits_loop.simps) (auto simp: mk_bit_def)
qed

lemma is_numeral_loop_const:
  assumes "set as \<subseteq> {mk_true C, mk_false C}" "bb_cfg.is_true C (mk_true C)" "bb_cfg.is_false C (mk_false C)"
  shows "\<exists>v. is_numeral_loop C i r as = Some v"
  using assms(1)
proof (induction as arbitrary: i r)
  case (Cons a as)
  with assms(2,3) show ?case by (cases "a = mk_true C"; cases "bb_cfg.is_true C a") auto
qed simp

text \<open>
  Numerals: \<open>num2bits\<close> yields the bits of \<open>v mod 2 ^ n\<close> as boolean constants, and
  \<open>is_numeral\<close> reads exactly this number back.
\<close>

lemma num2bits_roundtrip:
  "is_numeral (bit_blaster_cfg rw p wtm bcm) (num2bits (bit_blaster_cfg rw p wtm bcm) v n) = Some (v mod 2 ^ n) \<and>
   bit_terms n (num2bits (bit_blaster_cfg rw p wtm bcm) v n) \<and>
   set (num2bits (bit_blaster_cfg rw p wtm bcm) v n) \<subseteq> {m_true, m_false}"
proof -
  let ?C = "bit_blaster_cfg rw p wtm bcm"
  have c: "mk_true ?C = m_true" "mk_false ?C = m_false" "bb_cfg.is_true ?C m_true" "bb_cfg.is_false ?C m_false"
    by (simp_all add: bit_blaster_cfg_def term_simps)
  have s: "set (num2bits ?C v n) \<subseteq> {mk_true ?C, mk_false ?C}" unfolding num2bits_def by (rule num2bits_consts)
  then obtain w where w: "is_numeral ?C (num2bits ?C v n) = Some w"
    using is_numeral_loop_const c unfolding is_numeral_def by metis
  have "w = v mod 2 ^ n"
    using bb.is_numeral_value [of rw p wtm bcm "num2bits ?C v n" w] bb.num2bits_value(2) [of _ rw p wtm bcm v n] w by simp
  with w s c show ?thesis using bb.num2bits_value(1) [of n rw p wtm bcm v] by simp
qed

end
