(* ===== verification/Rewriter_Engine.thy ===== *)
theory Rewriter_Engine
  imports Ast
begin

text \<open>
  The engine \<open>rewriter_tpl\<close> of rewriter_def.h on terms without quantifiers: it rewrites the
  arguments of an application from left to right and hands the results to the configuration.
  The stack of the engine is the recursion here, its cache is left out. Without proofs an
  if-then-else whose condition becomes a constant is replaced by the rewritten branch; the
  other branch is not visited.
\<close>

section \<open>The engine\<close>

record ('s, 'x) rewriter_config =
  c_reduce_var :: "'s \<Rightarrow> nat \<Rightarrow> srt \<Rightarrow> expr option"
  c_reduce_app :: "func_decl \<Rightarrow> expr list \<Rightarrow> 's \<Rightarrow> 'x + expr option \<times> 's"

definition constant_fold :: "func_decl \<Rightarrow> expr list \<Rightarrow> expr \<Rightarrow> expr option" where
  \<comment> \<open>the branch that is left when the first argument has been rewritten to \<open>cond\<close>\<close>
  "constant_fold f args cond = (case args of
     [c, t, e] \<Rightarrow> if f = OP_ITE then if Ast.is_true cond then Some t else if Ast.is_false cond then Some e else None else None
   | _ \<Rightarrow> None)"

lemma constant_fold_Some:
  "constant_fold f args cond = Some b \<longleftrightarrow>
    f = OP_ITE \<and> (\<exists>c t e. args = [c, t, e] \<and> (Ast.is_true cond \<and> b = t \<or> \<not> Ast.is_true cond \<and> Ast.is_false cond \<and> b = e))"
  by (auto simp: constant_fold_def split: list.splits if_splits)

lemma constant_fold_size [termination_simp]:
  "(if pg then None else constant_fold f (a # as) cond) = Some b \<Longrightarrow> size b < Suc (Suc (size a + size_list size as))"
  by (auto simp: constant_fold_Some split: if_splits)

definition process_app :: "('s, 'x) rewriter_config \<Rightarrow> func_decl \<Rightarrow> 'x + expr list \<times> 's \<Rightarrow> 'x + expr \<times> 's" where
  \<comment> \<open>what is made of the rewritten arguments; \<open>None\<close> is \<open>BR_FAILED\<close>\<close>
  "process_app K f res = (case res of
     Inl x \<Rightarrow> Inl x
   | Inr (new_args, st1) \<Rightarrow>
       (case c_reduce_app K f new_args st1 of
          Inl x \<Rightarrow> Inl x
        | Inr (None, st2) \<Rightarrow> Inr (APP f new_args, st2)
        | Inr (Some r, st2) \<Rightarrow> Inr (r, st2)))"

fun rewriter_tpl :: "('s, 'x) rewriter_config \<Rightarrow> bool \<Rightarrow> expr \<Rightarrow> 's \<Rightarrow> 'x + expr \<times> 's"
  and rewriter_tpl_args :: "('s, 'x) rewriter_config \<Rightarrow> bool \<Rightarrow> expr list \<Rightarrow> 's \<Rightarrow> 'x + expr list \<times> 's" where
  \<comment> \<open>\<open>pg\<close> is \<open>ProofGen\<close>\<close>
  "rewriter_tpl K pg (VAR i s) st = Inr (case c_reduce_var K st i s of None \<Rightarrow> VAR i s | Some r \<Rightarrow> r, st)"
| "rewriter_tpl K pg (APP f []) st = process_app K f (Inr ([], st))"
| "rewriter_tpl K pg (APP f (a # as)) st =
     (case rewriter_tpl K pg a st of
        Inl x \<Rightarrow> Inl x
      | Inr (r, st1) \<Rightarrow>
          (case if pg then None else constant_fold f (a # as) r of
             Some branch \<Rightarrow> rewriter_tpl K pg branch st1
           | None \<Rightarrow> process_app K f
               (case rewriter_tpl_args K pg as st1 of Inl x \<Rightarrow> Inl x | Inr (rs, st2) \<Rightarrow> Inr (r # rs, st2))))"
| "rewriter_tpl_args K pg [] st = Inr ([], st)"
| "rewriter_tpl_args K pg (a # as) st =
     (case rewriter_tpl K pg a st of
        Inl x \<Rightarrow> Inl x
      | Inr (r, st1) \<Rightarrow>
          (case rewriter_tpl_args K pg as st1 of Inl x \<Rightarrow> Inl x | Inr (rs, st2) \<Rightarrow> Inr (r # rs, st2)))"

section \<open>Folding\<close>

definition folded :: "('s, 'x) rewriter_config \<Rightarrow> bool \<Rightarrow> func_decl \<Rightarrow> expr list \<Rightarrow> 's \<Rightarrow> (expr \<times> 's) option" where
  \<comment> \<open>the branch an application is folded to, with the state after its condition\<close>
  "folded K pg f args st = (case args of
     [] \<Rightarrow> None
   | a # as \<Rightarrow> (case rewriter_tpl K pg a st of
       Inl x \<Rightarrow> None
     | Inr (r, st1) \<Rightarrow> map_option (\<lambda>b. (b, st1)) (if pg then None else constant_fold f args r)))"

lemma folded_proofs [simp]: "folded K True f args st = None"
  by (auto simp: folded_def split: list.split sum.split)

lemma folded_cases:
  assumes "folded K pg f args st = Some (b, st1)"
  obtains c t e r where "\<not> pg" "f = OP_ITE" "args = [c, t, e]" "rewriter_tpl K pg c st = Inr (r, st1)"
    "r = m_true \<and> b = t \<or> r = m_false \<and> b = e"
  using assms by (auto simp: folded_def constant_fold_Some Ast.is_true_def Ast.is_false_def split: list.splits sum.splits if_splits)

lemma rewriter_tpl_app:
  "rewriter_tpl K pg (APP f args) st = (case folded K pg f args st of
     Some (b, st1) \<Rightarrow> rewriter_tpl K pg b st1 | None \<Rightarrow> process_app K f (rewriter_tpl_args K pg args st))"
  by (cases args) (auto simp: folded_def process_app_def split: sum.split option.split)

lemmas rewriter_tpl_simps = rewriter_tpl.simps(1) rewriter_tpl_app rewriter_tpl_args.simps

text \<open>Induction along a run of the engine.\<close>

lemma rewriter_induct [case_names Var Fold App Nil Cons]:
  assumes Var: "\<And>i s st. P (VAR i s) st"
    and Fold: "\<And>c t e st r b st1. \<not> pg \<Longrightarrow> rewriter_tpl K pg c st = Inr (r, st1) \<Longrightarrow> r = m_true \<and> b = t \<or> r = m_false \<and> b = e \<Longrightarrow>
      folded K pg OP_ITE [c, t, e] st = Some (b, st1) \<Longrightarrow> P c st \<Longrightarrow> P b st1 \<Longrightarrow> P (APP OP_ITE [c, t, e]) st"
    and App: "\<And>f args st. folded K pg f args st = None \<Longrightarrow> Q args st \<Longrightarrow> P (APP f args) st"
    and Nil: "\<And>st. Q [] st"
    and Cons: "\<And>a as st. P a st \<Longrightarrow> (\<And>r st1. rewriter_tpl K pg a st = Inr (r, st1) \<Longrightarrow> Q as st1) \<Longrightarrow> Q (a # as) st"
  shows "P e st" "Q es st"
proof -
  have "(\<forall>e st. size e < n \<longrightarrow> P e st) \<and> (\<forall>es st. size_list size es < n \<longrightarrow> Q es st)" for n
  proof (induction n)
    case (Suc n)
    have P: "P e st" if "size e < Suc n" for e st
    proof (cases e)
      case (APP f args)
      show ?thesis
      proof (cases "folded K pg f args st")
        case None
        with APP that Suc App [of f args st] show ?thesis by simp
      next
        case (Some x)
        then obtain b st1 where x: "folded K pg f args st = Some (b, st1)" by (cases x) auto
        then show ?thesis
        proof (cases rule: folded_cases)
          case (1 c t e' r)
          then have "P c st" "P b st1" using Suc APP that by auto
          with 1 x show ?thesis unfolding APP by (auto intro: Fold)
        qed
      qed
    qed (use Var in simp)
    have "Q es st" if "size_list size es < Suc n" for es st
    proof (cases es)
      case (Cons a as)
      have "P a st" using P [of a st] that Cons by simp
      moreover have "Q as st1" for st1 using Suc that Cons by simp
      ultimately show ?thesis unfolding Cons by (rule assms(5))
    qed (simp add: assms(4))
    with P show ?case by blast
  qed simp
  then show "P e st" "Q es st" by blast+
qed

lemma process_app_Inr:
  "process_app K f res = Inr (r, st') \<longleftrightarrow> (\<exists>new_args st1 x. res = Inr (new_args, st1) \<and> c_reduce_app K f new_args st1 = Inr (x, st') \<and>
     r = (case x of None \<Rightarrow> APP f new_args | Some r \<Rightarrow> r))"
  by (auto simp: process_app_def split: sum.splits option.splits)

lemma process_app_isl:
  "isl (process_app K f res) \<longleftrightarrow> (case res of Inl x \<Rightarrow> True | Inr (new_args, st1) \<Rightarrow> isl (c_reduce_app K f new_args st1))"
  by (auto simp: process_app_def split: sum.split option.split)

lemma rewriter_tpl_args_Cons_isl:
  "isl (rewriter_tpl_args K pg (a # as) st) \<longleftrightarrow>
     (case rewriter_tpl K pg a st of Inl x \<Rightarrow> True | Inr (r, st1) \<Rightarrow> isl (rewriter_tpl_args K pg as st1))"
  by (auto split: sum.split)

lemma rewriter_tpl_args_Cons_Inr:
  "rewriter_tpl_args K pg (a # as) st = Inr (rs, st') \<longleftrightarrow>
     (\<exists>r st1 rs'. rewriter_tpl K pg a st = Inr (r, st1) \<and> rewriter_tpl_args K pg as st1 = Inr (rs', st') \<and> rs = r # rs')"
  by (auto split: sum.splits)

text \<open>A reflexive and transitive relation between states that the configuration keeps is kept by the engine.\<close>

lemma rewriter_keeps:
  assumes refl: "\<And>st. R st st" and trans: "\<And>s1 s2 s3. R s1 s2 \<Longrightarrow> R s2 s3 \<Longrightarrow> R s1 s3"
    and step: "\<And>f as st x st'. c_reduce_app K f as st = Inr (x, st') \<Longrightarrow> R st st'"
  shows "rewriter_tpl K pg e st = Inr (r, st') \<Longrightarrow> R st st'" "rewriter_tpl_args K pg es st = Inr (rs, st') \<Longrightarrow> R st st'"
proof (induction e st and es st arbitrary: r st' and rs st' rule: rewriter_induct [where K = K and pg = pg])
  case (Fold c t e st r0 b st1)
  then show ?case by (auto simp: rewriter_tpl_app intro: trans)
next
  case (App f args st)
  then show ?case by (auto simp: rewriter_tpl_app process_app_Inr intro: trans step)
next
  case (Cons a as st)
  then show ?case unfolding rewriter_tpl_args_Cons_Inr by (blast intro: trans)
qed (auto intro: refl)

section \<open>The operators that are reached\<close>

text \<open>
  The operators the configuration is asked about: those of the term until one fails, without the
  branches that are folded away.
\<close>

fun operators :: "expr \<Rightarrow> func_decl list" where
  "operators (VAR i s) = []"
| "operators (APP f args) = concat (map operators args) @ [f]"

lemma folded_size [termination_simp]:
  "folded K pg f (a # as) st = Some (b, st1) \<Longrightarrow> size b < Suc (Suc (size a + size_list size as))"
  by (erule folded_cases) auto

fun reached :: "('s, 'x) rewriter_config \<Rightarrow> bool \<Rightarrow> expr \<Rightarrow> 's \<Rightarrow> func_decl list"
  and reached_args :: "('s, 'x) rewriter_config \<Rightarrow> bool \<Rightarrow> expr list \<Rightarrow> 's \<Rightarrow> func_decl list" where
  "reached K pg (VAR i s) st = []"
| "reached K pg (APP f []) st = [f]"
| "reached K pg (APP f (a # as)) st =
     (case folded K pg f (a # as) st of
        Some (b, st1) \<Rightarrow> reached K pg a st @ reached K pg b st1
      | None \<Rightarrow> reached_args K pg (a # as) st @ (if isl (rewriter_tpl_args K pg (a # as) st) then [] else [f]))"
| "reached_args K pg [] st = []"
| "reached_args K pg (a # as) st =
     reached K pg a st @ (case rewriter_tpl K pg a st of Inl x \<Rightarrow> [] | Inr (r, st1) \<Rightarrow> reached_args K pg as st1)"

lemma reached_app:
  "folded K pg f args st = None \<Longrightarrow>
    reached K pg (APP f args) st = reached_args K pg args st @ (if isl (rewriter_tpl_args K pg args st) then [] else [f])"
  by (cases args) simp_all

lemma reached_operators:
  "set (reached K pg e st) \<subseteq> set (operators e)" "set (reached_args K pg es st) \<subseteq> (\<Union>e \<in> set es. set (operators e))"
proof (induction e st and es st rule: rewriter_induct [where K = K and pg = pg])
  case (App f args st)
  then show ?case by (auto simp: reached_app)
next
  case (Cons a as st)
  show ?case
  proof (cases "rewriter_tpl K pg a st")
    case (Inr x)
    obtain r st1 where "x = (r, st1)" by (cases x)
    with Inr Cons(1) Cons(2) [of r st1] show ?thesis by auto
  qed (use Cons(1) in auto)
next
  case (Fold c t e st r b st1)
  then show ?case by auto
qed simp_all

lemma rewriter_keeps_flag:
  assumes "\<And>f as st x st'. c_reduce_app K f as st = Inr (x, st') \<Longrightarrow> flag st' = flag st"
  shows "rewriter_tpl K pg e st = Inr (r, st') \<Longrightarrow> flag st' = flag st" "rewriter_tpl_args K pg es st = Inr (rs, st') \<Longrightarrow> flag st' = flag st"
  using rewriter_keeps [of "\<lambda>st st'. flag st' = flag st" K pg] assms by (metis (mono_tags))+

lemma rewriter_fails:
  assumes flag: "\<And>f as st x st'. c_reduce_app K f as st = Inr (x, st') \<Longrightarrow> flag st' = flag st"
    and bad: "\<And>f as st. isl (c_reduce_app K f as st) \<longleftrightarrow> bad (flag st) f"
  shows "isl (rewriter_tpl K pg e st) \<longleftrightarrow> list_ex (bad (flag st)) (reached K pg e st)"
    "isl (rewriter_tpl_args K pg es st) \<longleftrightarrow> list_ex (bad (flag st)) (reached_args K pg es st)"
proof (induction e st and es st rule: rewriter_induct [where K = K and pg = pg])
  have keeps: "rewriter_tpl K p e st = Inr (r, st') \<Longrightarrow> flag st' = flag st"
    "rewriter_tpl_args K p es st = Inr (rs, st') \<Longrightarrow> flag st' = flag st" for p e es st r rs st'
    by (rule rewriter_keeps_flag; simp add: flag)+
  {
    case (Fold c t e st r b st1)
    then show ?case using keeps(1) [OF Fold(2)] by (auto simp: rewriter_tpl_app)
  next
    case (App f args st)
    show ?case
    proof (cases "rewriter_tpl_args K pg args st")
      case (Inr x)
      obtain rs st1 where x: "x = (rs, st1)" by (cases x)
      show ?thesis using App keeps(2) [of pg args st rs st1] Inr x by (simp add: rewriter_tpl_app reached_app process_app_isl bad)
    qed (use App in \<open>simp add: rewriter_tpl_app reached_app process_app_isl\<close>)
  next
    case (Cons a as st)
    show ?case
    proof (cases "rewriter_tpl K pg a st")
      case (Inr x)
      obtain r st1 where x: "x = (r, st1)" by (cases x)
      show ?thesis using Cons(1) Cons(2) [of r st1] keeps(1) [of pg a st r st1] Inr x unfolding rewriter_tpl_args_Cons_isl by simp
    qed (use Cons(1) in \<open>simp add: rewriter_tpl_args_Cons_isl\<close>)
  }
qed simp_all

lemma rewriter_fails_proofs:
  assumes flag: "\<And>f as st x st'. c_reduce_app K f as st = Inr (x, st') \<Longrightarrow> flag st' = flag st"
    and bad: "\<And>f as st. isl (c_reduce_app K f as st) \<longleftrightarrow> bad (flag st) f"
  shows "isl (rewriter_tpl K True e st) \<longleftrightarrow> list_ex (bad (flag st)) (operators e)"
    "isl (rewriter_tpl_args K True es st) \<longleftrightarrow> list_ex (bad (flag st)) (concat (map operators es))"
proof (induction e st and es st rule: rewriter_induct [where K = K and pg = True])
  have keeps: "rewriter_tpl K p e st = Inr (r, st') \<Longrightarrow> flag st' = flag st"
    "rewriter_tpl_args K p es st = Inr (rs, st') \<Longrightarrow> flag st' = flag st" for p e es st r rs st'
    by (rule rewriter_keeps_flag; simp add: flag)+
  {
    case (App f args st)
    show ?case
    proof (cases "rewriter_tpl_args K True args st")
      case (Inr x)
      obtain rs st1 where x: "x = (rs, st1)" by (cases x)
      show ?thesis using App keeps(2) [of True args st rs st1] Inr x by (simp add: rewriter_tpl_app reached_app process_app_isl bad)
    qed (use App in \<open>simp add: rewriter_tpl_app reached_app process_app_isl\<close>)
  next
    case (Cons a as st)
    show ?case
    proof (cases "rewriter_tpl K True a st")
      case (Inr x)
      obtain r st1 where x: "x = (r, st1)" by (cases x)
      show ?thesis using Cons(1) Cons(2) [of r st1] keeps(1) [of True a st r st1] Inr x unfolding rewriter_tpl_args_Cons_isl by simp
    qed (use Cons(1) in \<open>simp add: rewriter_tpl_args_Cons_isl\<close>)
  }
qed simp_all

end
