(* ===== verification/Blaster_Rewriter.thy ===== *)
theory Blaster_Rewriter
  imports Blasted_Circuits Cpp_Strings Rewriter_Engine
begin

text \<open>
  The rewriter of bit_blaster_rewriter.cpp that replaces the operations on bit-vectors by
  circuits: its gates (\<open>blaster_cfg\<close>), its state with the translation of constants and the scopes,
  and \<open>reduce_app\<close> with every operation it dispatches to. A bit-vector becomes an application
  of \<open>OP_MKBV\<close> to its bits, least significant first. The vectors \<open>m_in1\<close>, \<open>m_in2\<close> and
  \<open>m_out\<close> of the code are reset before each use and are local here. A quantifier is a record of
  its own, whose weight and names \<open>qid\<close> and \<open>skid\<close>, which are passed on, are left out, as are
  the limits on memory and steps and the proofs themselves. \<open>rewrite\<close> runs the engine of
  \<open>Rewriter_Engine\<close> with this configuration.
\<close>

section \<open>Gates\<close>

definition blaster_carry :: "bool_rewriter \<Rightarrow> expr \<Rightarrow> expr \<Rightarrow> expr \<Rightarrow> expr \<times> bool_rewriter" where
  "blaster_carry rw a b c =
     (let (t1, rw1) = mk_and rw [a, b]; (t2, rw2) = mk_and rw1 [a, c]; (t3, rw3) = mk_and rw2 [b, c]
      in mk_or rw3 [t1, t2, t3])"

definition blaster_cfg :: "bool_rewriter \<Rightarrow> expr bb_cfg" where
  "blaster_cfg rw =
     \<lparr>mk_true = m_true, mk_false = m_false, bb_cfg.is_true = Ast.is_true, bb_cfg.is_false = Ast.is_false,
      mk_app_ite = m_mk_ite,
      cfg_xor = mk_xor rw,
      cfg_xor3 = (\<lambda>a b c. mk_xor rw a (mk_xor rw b c)),
      cfg_carry = (\<lambda>a b c. fst (blaster_carry rw a b c)),
      cfg_iff = mk_iff rw,
      cfg_and = (\<lambda>a b. fst (mk_and rw [a, b])),
      cfg_ands = (\<lambda>as. fst (mk_and rw as)),
      cfg_or = (\<lambda>a b. fst (mk_or rw [a, b])),
      cfg_ors = (\<lambda>as. fst (mk_or rw as)),
      cfg_not = mk_not rw,
      cfg_ite = (\<lambda>c t e. fst (mk_ite rw c t e)),
      cfg_nand = (\<lambda>a b. fst (mk_nand rw [a, b])),
      cfg_nor = (\<lambda>a b. fst (mk_nor rw [a, b])),
      cfg_ge2 = (\<lambda>a b c. fst (mk_ge2 rw a b c)),
      m_use_wtm = False, m_use_bcm = False\<rparr>"

definition blaster :: "(expr \<Rightarrow> nat) \<Rightarrow> (expr \<Rightarrow> expr \<Rightarrow> bool) \<Rightarrow> expr bb_cfg" where
  \<comment> \<open>the constructor: a rewriter that does not flatten and eliminates conjunctions\<close>
  "blaster ids lt = blaster_cfg (set_elim_and True (set_flat False (mk_bool_rewriter ids lt default_params)))"

section \<open>State\<close>

record blaster_params =
  p_blast_add :: bool
  p_blast_mul :: bool
  p_blast_full :: bool
  p_blast_quant :: bool

definition default_blaster_params :: blaster_params where
  "default_blaster_params = \<lparr>p_blast_add = True, p_blast_mul = True, p_blast_full = False, p_blast_quant = False\<rparr>"

record blaster_state =
  m_const2bits :: "func_decl \<rightharpoonup> expr"
  m_bindings :: "expr list"
  m_shifts :: "nat list"
  m_keys :: "func_decl list"
  m_values :: "expr list"
  m_keyval_lim :: "nat list"
  m_newbits :: "func_decl list"
  m_newbits_lim :: "nat list"
  m_keypos :: nat
  m_blast_mul :: bool
  m_blast_add :: bool
  m_blast_quant :: bool
  m_blast_full :: bool
  m_fresh_id :: nat \<comment> \<open>of the manager: the names from here on are unused\<close>

definition updt_blaster_params :: "blaster_params \<Rightarrow> blaster_state \<Rightarrow> blaster_state" where
  "updt_blaster_params p st = st\<lparr>m_blast_add := p_blast_add p, m_blast_mul := p_blast_mul p, m_blast_full := p_blast_full p,
     m_blast_quant := p_blast_quant p\<rparr>"

definition blaster_rewriter_cfg :: "blaster_params \<Rightarrow> nat \<Rightarrow> blaster_state" where
  "blaster_rewriter_cfg p fresh = updt_blaster_params p
     \<lparr>m_const2bits = Map.empty, m_bindings = [], m_shifts = [], m_keys = [], m_values = [], m_keyval_lim = [], m_newbits = [], m_newbits_lim = [],
      m_keypos = 0, m_blast_mul = False, m_blast_add = False, m_blast_quant = False, m_blast_full = False, m_fresh_id = fresh\<rparr>"

definition push :: "blaster_state \<Rightarrow> blaster_state" where
  "push st = st\<lparr>m_keyval_lim := m_keyval_lim st @ [length (m_keys st)],
                m_newbits_lim := m_newbits_lim st @ [length (m_newbits st)]\<rparr>"

definition get_num_scopes :: "blaster_state \<Rightarrow> nat" where
  "get_num_scopes st = length (m_keyval_lim st)"

definition pop :: "nat \<Rightarrow> blaster_state \<Rightarrow> blaster_state" where
  "pop num_scopes st =
     (if num_scopes = 0 then st
      else let new_sz = length (m_keyval_lim st) - num_scopes;
               lim = m_keyval_lim st ! new_sz;
               lim' = m_newbits_lim st ! new_sz
           in st\<lparr>m_const2bits := foldl (\<lambda>m f. m(f := None)) (m_const2bits st) (rev (drop lim (m_keys st))),
                 m_keys := take lim (m_keys st), m_values := take lim (m_values st),
                 m_keyval_lim := take new_sz (m_keyval_lim st),
                 m_newbits := take lim' (m_newbits st),
                 m_newbits_lim := take new_sz (m_newbits_lim st)\<rparr>)"

definition start_rewrite :: "blaster_state \<Rightarrow> blaster_state" where
  "start_rewrite st = st\<lparr>m_keypos := length (m_keys st)\<rparr>"

type_synonym translation = "(func_decl \<rightharpoonup> expr) \<times> func_decl list"

definition end_rewrite :: "blaster_state \<Rightarrow> translation \<Rightarrow> translation" where
  \<comment> \<open>adds to the two collections of the caller\<close>
  "end_rewrite st = (\<lambda>(const2bits, newbits).
     (foldl (\<lambda>m i. m(m_keys st ! i \<mapsto> m_values st ! i)) const2bits [m_keypos st..<length (m_keys st)],
      newbits @ m_newbits st))"

definition get_translation :: "blaster_state \<Rightarrow> translation \<Rightarrow> translation" where
  "get_translation st = (\<lambda>(const2bits, newbits).
     (foldl (\<lambda>m i. m(m_keys st ! i \<mapsto> m_values st ! i)) const2bits [0..<length (m_keys st)],
      newbits @ m_newbits st))"

section \<open>Bits of a term\<close>

definition is_mkbv :: "expr \<Rightarrow> bool" where
  "is_mkbv t = is_app_of (BV_OP OP_MKBV) t"

definition is_bv :: "expr \<Rightarrow> bool" where
  "is_bv t = is_bv_sort (get_sort t)"

definition get_bits :: "expr \<Rightarrow> expr list" where
  "get_bits t =
     (if is_mkbv t then get_args t
      else map (\<lambda>i. APP (BV_OP (OP_BIT2BOOL i)) [t]) [0..<srt_width (get_sort t)])"

definition mk_mkbv :: "expr list \<Rightarrow> expr" where
  "mk_mkbv bits = APP (BV_OP OP_MKBV) bits"

definition mk_const :: "func_decl \<Rightarrow> blaster_state \<Rightarrow> expr \<times> blaster_state" where
  "mk_const f st =
     (case m_const2bits st f of
        Some r \<Rightarrow> (r, st)
      | None \<Rightarrow>
          (let bv_size = srt_width (get_range f []);
               ds = map (\<lambda>i. UNINTERPRETED (m_fresh_id st + i) BOOL_SORT) [0..<bv_size];
               r = mk_mkbv (map (\<lambda>d. APP d []) ds)
           in (r, st\<lparr>m_const2bits := (m_const2bits st)(f \<mapsto> r), m_keys := m_keys st @ [f], m_values := m_values st @ [r],
                     m_newbits := m_newbits st @ ds, m_fresh_id := m_fresh_id st + bv_size\<rparr>)))"

definition blast_bv_term :: "expr \<Rightarrow> expr" where
  "blast_bv_term t = mk_mkbv (map (\<lambda>i. APP (BV_OP (OP_BIT2BOOL i)) [t]) [0..<srt_width (get_sort t)])"

section \<open>Operations\<close>

definition unary_reduce :: "(expr list \<Rightarrow> expr list) \<Rightarrow> expr \<Rightarrow> expr" where
  \<comment> \<open>\<open>MK_UNARY_REDUCE\<close>\<close>
  "unary_reduce bb_op arg = mk_mkbv (bb_op (get_bits arg))"

definition bin_reduce :: "(expr list \<Rightarrow> expr list \<Rightarrow> expr list) \<Rightarrow> expr \<Rightarrow> expr \<Rightarrow> expr" where
  \<comment> \<open>\<open>MK_BIN_REDUCE\<close>\<close>
  "bin_reduce bb_op arg1 arg2 = mk_mkbv (bb_op (get_bits arg1) (get_bits arg2))"

definition bin_ac_reduce :: "(expr list \<Rightarrow> expr list \<Rightarrow> expr list) \<Rightarrow> expr list \<Rightarrow> expr" where
  \<comment> \<open>\<open>MK_BIN_AC_REDUCE\<close>, for at least one argument\<close>
  "bin_ac_reduce bb_op args = foldl (bin_reduce bb_op) (hd args) (tl args)"

definition bin_pred_reduce :: "(expr list \<Rightarrow> expr list \<Rightarrow> expr) \<Rightarrow> expr \<Rightarrow> expr \<Rightarrow> expr" where
  \<comment> \<open>\<open>MK_BIN_PRED_REDUCE\<close>\<close>
  "bin_pred_reduce bb_op arg1 arg2 = bb_op (get_bits arg1) (get_bits arg2)"

definition parametric_unary_reduce :: "(expr list \<Rightarrow> nat \<Rightarrow> expr list) \<Rightarrow> expr \<Rightarrow> nat \<Rightarrow> expr" where
  \<comment> \<open>\<open>MK_PARAMETRIC_UNARY_REDUCE\<close>\<close>
  "parametric_unary_reduce bb_op arg n = mk_mkbv (bb_op (get_bits arg) n)"

definition reduce_ite :: "expr bb_cfg \<Rightarrow> expr \<Rightarrow> expr \<Rightarrow> expr \<Rightarrow> expr" where
  "reduce_ite C arg1 arg2 arg3 = mk_mkbv (mk_multiplexer C arg1 (get_bits arg2) (get_bits arg3))"

definition reduce_concat :: "expr list \<Rightarrow> expr" where
  "reduce_concat args = mk_mkbv (concat (map get_bits (rev args)))"

definition reduce_extract :: "nat \<Rightarrow> nat \<Rightarrow> expr \<Rightarrow> expr" where
  "reduce_extract start fin arg = mk_mkbv (map (\<lambda>i. get_bits arg ! i) [start..<Suc fin])"

definition reduce_num :: "expr bb_cfg \<Rightarrow> nat \<Rightarrow> nat \<Rightarrow> expr" where
  "reduce_num C v bv_sz = mk_mkbv (num2bits C v bv_sz)"

datatype rewriter_exception = Unsupported_Operator

definition reduce_bv_op :: "expr bb_cfg \<Rightarrow> blaster_state \<Rightarrow> bv_op \<Rightarrow> expr list \<Rightarrow> rewriter_exception + expr option" where
  \<comment> \<open>the switch of \<open>reduce_app\<close> over the operators of bit-vectors; \<open>None\<close> for \<open>BR_FAILED\<close>,
    otherwise \<open>BR_DONE\<close>\<close>
  "reduce_bv_op C st opr args =
     (let a0 = args ! 0; a1 = args ! 1;
          ok = (\<lambda>r. Inr (Some r)); failed = Inr None; throw_unsupported = Inl Unsupported_Operator;
          when_mul = (\<lambda>r. if m_blast_mul st then ok r else failed);
          keep_div = (if m_blast_mul st then throw_unsupported else failed)
      in case opr of
        OP_BMUL \<Rightarrow> when_mul (bin_ac_reduce (mk_multiplier C) args)
      | OP_BSDIV \<Rightarrow> keep_div | OP_BUDIV \<Rightarrow> keep_div | OP_BSREM \<Rightarrow> keep_div | OP_BUREM \<Rightarrow> keep_div | OP_BSMOD \<Rightarrow> keep_div
      | OP_BSDIV0 \<Rightarrow> failed | OP_BUDIV0 \<Rightarrow> failed | OP_BSREM0 \<Rightarrow> failed | OP_BUREM0 \<Rightarrow> failed | OP_BSMOD0 \<Rightarrow> failed
      | OP_BSDIV_I \<Rightarrow> when_mul (bin_reduce (mk_sdiv C) a0 a1)
      | OP_BUDIV_I \<Rightarrow> when_mul (bin_reduce (mk_udiv C) a0 a1)
      | OP_BSREM_I \<Rightarrow> when_mul (bin_reduce (mk_srem C) a0 a1)
      | OP_BUREM_I \<Rightarrow> when_mul (bin_reduce (mk_urem C) a0 a1)
      | OP_BSMOD_I \<Rightarrow> when_mul (bin_reduce (mk_smod C) a0 a1)
      | OP_ULEQ \<Rightarrow> ok (bin_pred_reduce (mk_ule C) a0 a1)
      | OP_SLEQ \<Rightarrow> ok (bin_pred_reduce (mk_sle C) a0 a1)
      | OP_BOR \<Rightarrow> ok (bin_ac_reduce (mk_binary (cfg_or C)) args)
      | OP_BNOT \<Rightarrow> ok (unary_reduce (mk_not_bits C) a0)
      | OP_BXOR \<Rightarrow> ok (bin_ac_reduce (mk_binary (cfg_xor C)) args)
      | OP_CONCAT \<Rightarrow> ok (reduce_concat args)
      | OP_SIGN_EXT k \<Rightarrow> ok (parametric_unary_reduce (mk_sign_extend C) a0 k)
      | OP_EXTRACT hi lo \<Rightarrow> ok (reduce_extract lo hi a0)
      | OP_BREDOR \<Rightarrow> ok (unary_reduce (mk_redor C) a0)
      | OP_BREDAND \<Rightarrow> ok (unary_reduce (mk_redand C) a0)
      | OP_BSHL \<Rightarrow> ok (bin_reduce (mk_shl C) a0 a1)
      | OP_BLSHR \<Rightarrow> ok (bin_reduce (mk_lshr C) a0 a1)
      | OP_BASHR \<Rightarrow> ok (bin_reduce (mk_ashr C) a0 a1)
      | OP_EXT_ROTATE_LEFT \<Rightarrow> ok (bin_reduce (mk_ext_rotate_left C) a0 a1)
      | OP_EXT_ROTATE_RIGHT \<Rightarrow> ok (bin_reduce (mk_ext_rotate_right C) a0 a1)
      | OP_BUMUL_NO_OVFL \<Rightarrow> ok (bin_pred_reduce (mk_umul_no_overflow C) a0 a1)
      | OP_BSMUL_NO_OVFL \<Rightarrow> ok (bin_pred_reduce (mk_smul_no_overflow C) a0 a1)
      | OP_BSMUL_NO_UDFL \<Rightarrow> ok (bin_pred_reduce (mk_smul_no_underflow C) a0 a1)
      | OP_BIT2BOOL i \<Rightarrow> failed
      | OP_MKBV \<Rightarrow> failed
      | _ \<Rightarrow> throw_unsupported)"

definition reduce_app :: "expr bb_cfg \<Rightarrow> func_decl \<Rightarrow> expr list \<Rightarrow> blaster_state \<Rightarrow>
    rewriter_exception + expr option \<times> blaster_state" where
  "reduce_app C f args st =
     (if args = [] \<and> get_family_id f = null_family \<and> is_bv_sort (get_range f []) then
        (let (r, st1) = mk_const f st in Inr (Some r, st1))
      else if f = OP_EQ then
        Inr (if is_bv (args ! 0) then Some (bin_pred_reduce (Bit_Blaster.mk_eq C) (args ! 0) (args ! 1)) else None, st)
      else if f = OP_ITE then
        Inr (if is_bv (args ! 1) then Some (reduce_ite C (args ! 0) (args ! 1) (args ! 2)) else None, st)
      else if get_family_id f = bv_family then
        (case f of
           OP_BV_NUM v n \<Rightarrow> Inr (Some (reduce_num C v n), st)
         | OP_BADD \<Rightarrow> Inr (if m_blast_add st then Some (bin_ac_reduce (mk_adder C) args) else None, st)
         | BV_OP opr \<Rightarrow> map_sum id (\<lambda>r. (r, st)) (reduce_bv_op C st opr args)
         | _ \<Rightarrow> Inl Unsupported_Operator)
      else if m_blast_full st \<and> is_bv_sort (get_range f (map get_sort args)) then
        Inr (Some (blast_bv_term (APP f args)), st)
      else Inr (None, st))"

section \<open>Variables and quantifiers\<close>

fun var_shifter :: "nat \<Rightarrow> nat \<Rightarrow> nat \<Rightarrow> expr \<Rightarrow> expr" where
  \<comment> \<open>on terms without quantifiers\<close>
  "var_shifter bound shift1 shift2 (VAR vidx s) = VAR (if bound \<le> vidx then vidx + shift1 else vidx + shift2) s"
| "var_shifter bound shift1 shift2 (APP f args) = APP f (map (var_shifter bound shift1 shift2) args)"

definition reduce_var :: "blaster_state \<Rightarrow> nat \<Rightarrow> srt \<Rightarrow> expr option" where
  "reduce_var st idx s =
     (if m_blast_quant st then
        (if m_bindings st = [] then None
         else let shift = last (m_shifts st) in
           if length (m_bindings st) \<le> idx then (if shift = 0 then None else Some (VAR (idx + shift) s))
           else let offset = length (m_bindings st) - idx - 1;
                    result = m_bindings st ! offset;
                    shift = shift - m_shifts st ! offset
                in Some (if 0 < shift then var_shifter 0 shift 0 result else result))
      else if m_blast_full st \<and> is_bv_sort s then Some (blast_bv_term (VAR idx s)) else None)"

record quantifier =
  q_is_forall :: bool
  q_decl_sorts :: "srt list"
  q_decl_names :: "string list"
  q_expr :: expr
  q_patterns :: "expr list"
  q_no_patterns :: "expr list"

fun new_bindings :: "srt list \<Rightarrow> nat \<Rightarrow> expr list \<times> nat" where
  \<comment> \<open>over the sorts of the declarations from the last to the first, with the next index \<open>j\<close>\<close>
  "new_bindings [] j = ([], j)"
| "new_bindings (s # ss) j =
     (let (b, j1) =
            (if is_bv_sort s then (mk_mkbv (map (\<lambda>k. VAR (j + k) BOOL_SORT) [0..<srt_width s]), j + srt_width s)
             else (VAR j s, j + 1));
          (bs, j2) = new_bindings ss j1
      in (b # bs, j2))"

definition pre_visit :: "quantifier \<Rightarrow> blaster_state \<Rightarrow> blaster_state" where
  "pre_visit q st =
     (if m_blast_quant st then
        let (bs, j) = new_bindings (rev (q_decl_sorts q)) 0;
            shift = (if m_shifts st = [] then j else j + last (m_shifts st))
        in st\<lparr>m_bindings := m_bindings st @ rev bs, m_shifts := m_shifts st @ replicate (length bs) shift\<rparr>
      else st)"

definition bit_names :: "string \<Rightarrow> nat \<Rightarrow> string list" where
  "bit_names n bv_size = map (\<lambda>j. n @ ''.'' @ show_nat j) [0..<bv_size]"

definition reduce_quantifier :: "quantifier \<Rightarrow> expr \<Rightarrow> expr list \<Rightarrow> expr list \<Rightarrow> blaster_state \<Rightarrow> quantifier option \<times> blaster_state" where
  "reduce_quantifier old_q new_body new_patterns new_no_patterns st =
     (if \<not> m_blast_quant st then (None, st)
      else let curr_sz = length (m_bindings st);
               num_decls = length (q_decl_sorts old_q);
               old_sz = curr_sz - num_decls;
               ds = zip (q_decl_names old_q) (q_decl_sorts old_q)
           in (Some \<lparr>q_is_forall = q_is_forall old_q,
                     q_decl_sorts = concat (map (\<lambda>(n, s). if is_bv_sort s then replicate (srt_width s) BOOL_SORT else [s]) ds),
                     q_decl_names = concat (map (\<lambda>(n, s). if is_bv_sort s then bit_names n (srt_width s) else [n]) ds),
                     q_expr = new_body, q_patterns = new_patterns, q_no_patterns = new_no_patterns\<rparr>,
               st\<lparr>m_bindings := take old_sz (m_bindings st), m_shifts := take old_sz (m_shifts st)\<rparr>))"

section \<open>The rewriter\<close>

definition blaster_config :: "expr bb_cfg \<Rightarrow> (blaster_state, rewriter_exception) rewriter_config" where
  "blaster_config C = \<lparr>c_reduce_var = reduce_var, c_reduce_app = reduce_app C\<rparr>"

definition rewrite :: "expr bb_cfg \<Rightarrow> bool \<Rightarrow> expr \<Rightarrow> blaster_state \<Rightarrow> rewriter_exception + expr \<times> blaster_state" where
  \<comment> \<open>the flag tells whether the manager has proofs, for which the engine folds nothing\<close>
  "rewrite C = rewriter_tpl (blaster_config C)"

definition rewrite_args :: "expr bb_cfg \<Rightarrow> bool \<Rightarrow> expr list \<Rightarrow> blaster_state \<Rightarrow> rewriter_exception + expr list \<times> blaster_state" where
  "rewrite_args C = rewriter_tpl_args (blaster_config C)"

lemma blaster_config_simps [simp]:
  "c_reduce_var (blaster_config C) = reduce_var" "c_reduce_app (blaster_config C) = reduce_app C"
  by (simp_all add: blaster_config_def)

end
