(* ===== verification/Blaster_Ops.thy ===== *)
theory Blaster_Ops
  imports Blaster_Rewriter
begin

text \<open>
  The operations of the bit-blasting rewriter: its gates satisfy the laws of the circuits, the
  bits of a term have its number, and every operation on bit-vectors has the sort and, in every
  interpretation, the value of the circuit that replaces it.
\<close>

section \<open>The gates\<close>

lemma blaster_carry_sound:
  assumes "ok_bool a" "ok_bool b" "ok_bool c"
  shows "steps_to (\<lambda>I. majority (holds_in I a) (holds_in I b) (holds_in I c)) rw (blaster_carry rw a b c)"
  unfolding blaster_carry_def by (rule three_ands_sound [OF assms])

lemma blaster_cfg_eq:
  "blaster_cfg rw = (bit_blaster_cfg rw p False False)\<lparr>cfg_xor3 := \<lambda>a b c. mk_xor rw a (mk_xor rw b c),
     cfg_carry := \<lambda>a b c. fst (blaster_carry rw a b c)\<rparr>"
  by (simp add: blaster_cfg_def bit_blaster_cfg_def)

interpretation bl: gates "blaster_cfg rw" "holds_in I" ok_bool for rw I
proof -
  let ?p = "\<lparr>m_bb_ext_gates = False, m_bb_quantifiers = False\<rparr>"
  note eq = blaster_cfg_eq [of rw ?p]
  have x3: "ok_bool a \<Longrightarrow> ok_bool b \<Longrightarrow> ok_bool c \<Longrightarrow> ok_bool (mk_xor rw a (mk_xor rw b c)) \<and>
      holds_in I (mk_xor rw a (mk_xor rw b c)) = (holds_in I a \<noteq> (holds_in I b \<noteq> holds_in I c))" for a b c
    by (simp add: rw_simps)
  have ca: "ok_bool a \<Longrightarrow> ok_bool b \<Longrightarrow> ok_bool c \<Longrightarrow> ok_bool (fst (blaster_carry rw a b c)) \<and>
      holds_in I (fst (blaster_carry rw a b c)) = majority (holds_in I a) (holds_in I b) (holds_in I c)" for a b c
    using blaster_carry_sound [of a b c rw] by (simp add: steps_to_def is_meaning_def)
  show "gates (blaster_cfg rw) (holds_in I) ok_bool"
    by unfold_locales (auto simp: eq bb.gate_laws x3 ca majority_def dest: bb.is_true_law bb.is_false_law)
qed

section \<open>Terms and their bits\<close>

lemma in_bv_eq: "in_bv n x = in_bv n y \<longleftrightarrow> x mod 2 ^ n = y mod 2 ^ n"
  by (simp add: in_bv_def eq_nat_nat_iff)

lemma in_bv_mod [simp]: "in_bv n (x mod 2 ^ n) = in_bv n x"
  by (simp add: in_bv_def)

lemma VBv_in_bv: "k < 2 ^ n \<Longrightarrow> VBv n k = in_bv n (int k)"
proof -
  assume "k < 2 ^ n"
  then have "int k < 2 ^ n" by (metis of_nat_less_iff of_nat_numeral of_nat_power)
  then show ?thesis by (simp add: in_bv_def)
qed

lemma unsigned_in_less: "bit_terms n as \<Longrightarrow> unsigned_in I as < 2 ^ n"
  using bl.uv_less [of n as I] by simp

text \<open>A term is a bit-vector of the given width whose value is the given number, modulo.\<close>

definition bv_meaning :: "nat \<Rightarrow> (interp \<Rightarrow> int) \<Rightarrow> expr \<Rightarrow> bool" where
  "bv_meaning n v e \<longleftrightarrow> well_sorted e \<and> get_sort e = BV_SORT n \<and> (\<forall>I. eval I e = in_bv n (v I))"

lemma eval_mkbv: "eval I (mk_mkbv bits) = in_bv (length bits) (int (unsigned_in I bits))"
  by (simp add: mk_mkbv_def bv_apply_def unsigned_in_def holds_in_def [abs_def] comp_def)

lemma mkbv_meaning:
  assumes "bit_terms n bits" "\<And>I. int (unsigned_in I bits) = v I mod 2 ^ n"
  shows "bv_meaning n v (mk_mkbv bits)"
proof -
  have "eval I (mk_mkbv bits) = in_bv n (int (unsigned_in I bits))" for I
    using assms(1) by (simp add: eval_mkbv bit_terms_def)
  moreover have "well_sorted (mk_mkbv bits)" "get_sort (mk_mkbv bits) = BV_SORT n"
    using assms(1) by (auto simp: mk_mkbv_def bit_terms_def list_all_iff ok_bool_def is_bool_def sig_ok_def bv_sig_ok_def
        get_range_def bv_range_def bv_range_width_def is_bv_pred_def)
  ultimately show ?thesis using assms(2) by (simp add: bv_meaning_def)
qed

lemma bit2bool_term:
  assumes "well_sorted t" "get_sort t = BV_SORT n" "i < n"
  shows "ok_bool (APP (BV_OP (OP_BIT2BOOL i)) [t])"
    "holds_in I (APP (BV_OP (OP_BIT2BOOL i)) [t]) = bit (bv_nat (eval I t)) i"
proof -
  show "ok_bool (APP (BV_OP (OP_BIT2BOOL i)) [t])"
    using assms by (simp add: ok_bool_def is_bool_def sig_ok_def bv_sig_ok_def bv_args_def get_range_def bv_range_def is_bv_pred_def)
  show "holds_in I (APP (BV_OP (OP_BIT2BOOL i)) [t]) = bit (bv_nat (eval I t)) i"
    by (simp add: holds_in_def bv_apply_def bit_of_nat_iff_bit)
qed

lemma bv_value:
  assumes "well_sorted t" "get_sort t = BV_SORT n"
  shows "eval I t = VBv n (bv_nat (eval I t))" "bv_nat (eval I t) < 2 ^ n" "bv_width (eval I t) = n"
proof -
  obtain k where "eval I t = VBv n k" using eval_sort [OF assms(1), of I] assms(2) by (cases "eval I t") auto
  with eval_bv_less [OF assms(1) this] show "eval I t = VBv n (bv_nat (eval I t))" "bv_nat (eval I t) < 2 ^ n"
    "bv_width (eval I t) = n" by simp_all
qed

lemma selected_bits:
  assumes "well_sorted t" "get_sort t = BV_SORT n"
  defines "bs \<equiv> map (\<lambda>i. APP (BV_OP (OP_BIT2BOOL i)) [t]) [0..<n]"
  shows "bit_terms n bs" "unsigned_in I bs = bv_nat (eval I t)"
proof -
  show "bit_terms n bs"
    using bit2bool_term(1) [OF assms(1,2)] by (auto simp: bs_def bit_terms_def list_all_iff)
  have "map (holds_in I) bs = map (bit (bv_nat (eval I t))) [0..<n]"
    using bit2bool_term(2) [OF assms(1,2)] by (auto simp: bs_def)
  then show "unsigned_in I bs = bv_nat (eval I t)"
    using bval_bits [of "bv_nat (eval I t)" n] bv_value(2) [OF assms(1,2), of I] by (simp add: unsigned_in_def)
qed

lemma get_bits_ok:
  assumes "well_sorted t" "get_sort t = BV_SORT n"
  shows "bit_terms n (get_bits t)" "unsigned_in I (get_bits t) = bv_nat (eval I t)"
proof -
  have "bit_terms n (get_bits t) \<and> unsigned_in I (get_bits t) = bv_nat (eval I t)"
  proof (cases "is_mkbv t")
    case True
    then obtain as where t: "t = APP (BV_OP OP_MKBV) as" by (cases t) (auto simp: is_mkbv_def)
    with assms have n: "n = length as" and b: "bit_terms n as"
      by (auto simp: get_range_def bv_range_def bv_range_width_def is_bv_pred_def sig_ok_def bv_sig_ok_def
          bit_terms_def list_all_iff ok_bool_def is_bool_def)
    have "eval I t = in_bv n (int (unsigned_in I as))"
      using eval_mkbv [of I as] by (simp only: t n mk_mkbv_def)
    then have "bv_nat (eval I t) = unsigned_in I as"
      using VBv_in_bv [OF unsigned_in_less [OF b, of I]] by (metis bv_nat.simps(1))
    with b True show ?thesis by (simp add: get_bits_def t)
  next
    case False
    with selected_bits [OF assms] assms(2) show ?thesis by (simp add: get_bits_def)
  qed
  then show "bit_terms n (get_bits t)" "unsigned_in I (get_bits t) = bv_nat (eval I t)" by simp_all
qed

lemma signed_bits:
  assumes "well_sorted t" "get_sort t = BV_SORT n" "0 < n"
  shows "signed_in I (get_bits t) = bv_int (eval I t)"
proof -
  note b = get_bits_ok [OF assms(1,2)]
  obtain m where m: "n = Suc m" using assms(3) by (cases n) auto
  have "holds_in I (last (get_bits t)) \<longleftrightarrow> 2 ^ (n - 1) \<le> bv_nat (eval I t)"
    using bl.uv_msb [of n "get_bits t" I] b assms(3) by simp
  moreover have "signed_in I (get_bits t) = int (bv_nat (eval I t)) - (if holds_in I (last (get_bits t)) then 2 ^ n else 0)"
    using bl.sv_facts(6) [of n "get_bits t" I] b assms(3) by simp
  ultimately show ?thesis using bv_value(3) [OF assms(1,2), of I] m by (auto simp: bv_int_def)
qed

lemma arg_meaning:
  assumes "well_sorted t" "get_sort t = BV_SORT n"
  shows "bv_meaning n (\<lambda>I. int (bv_nat (eval I t))) t"
  using assms bv_value [OF assms] VBv_in_bv by (simp add: bv_meaning_def)

lemma bv_meaning_bits:
  assumes "bv_meaning n v e"
  shows "bit_terms n (get_bits e)" "int (unsigned_in I (get_bits e)) = v I mod 2 ^ n"
  using get_bits_ok [of e n] assms by (simp_all add: bv_meaning_def)

section \<open>Operations\<close>

lemma bv_same:
  assumes "bv_meaning n v r" "get_sort e = BV_SORT n" "\<And>I. eval I e = in_bv n (v I)"
  shows "same_term e r"
  using assms by (simp add: bv_meaning_def same_term_def)

lemma bool_same:
  assumes "ok_bool r" "get_sort e = BOOL_SORT" "\<And>I. eval I e = VBool (holds_in I r)"
  shows "same_term e r"
  using assms eval_bool [of r] ok_boolD [of r] by (auto simp: same_term_def)

lemmas range_simps = bv_range_def bv_range_width_def is_bv_pred_def

definition bv_vec :: "nat \<Rightarrow> expr \<Rightarrow> bool" where
  "bv_vec n a \<longleftrightarrow> well_sorted a \<and> get_sort a = BV_SORT n"

lemma bv_vecD: "bv_vec n a \<Longrightarrow> well_sorted a \<and> get_sort a = BV_SORT n"
  by (simp add: bv_vec_def)

lemma bv_args_vecs:
  assumes "bv_args k (map get_sort args)" "list_all well_sorted args" "args \<noteq> []"
  obtains n where "0 < n" "list_all (bv_vec n) args" "length args = k"
proof -
  note d = assms(1) [unfolded bv_args_def list_all_iff hd_map [OF assms(3)]]
  have h: "is_bv_sort (get_sort (hd args))" "0 < srt_width (get_sort (hd args))" and k: "length args = k"
    using d by (blast, blast, metis length_map)
  have e: "get_sort a = get_sort (hd args)" if "a \<in> set args" for a
    using d that imageI [OF that, of get_sort] by (metis set_map)
  from h(1) obtain n where n: "get_sort (hd args) = BV_SORT n" by (cases "get_sort (hd args)") simp_all
  have "bv_vec n a" if "a \<in> set args" for a
    unfolding bv_vec_def using e [OF that] n assms(2) that by (simp add: list_all_iff)
  then have "list_all (bv_vec n) args" by (simp add: list_all_iff)
  moreover have "0 < n" using h(2) n by simp
  ultimately show ?thesis using that k by simp
qed

lemma unary_same:
  assumes "bv_vec n a" "0 < n" "bv_range opr [BV_SORT n] = BV_SORT m"
    and "\<And>xs. bit_terms n xs \<Longrightarrow> bit_terms m (f xs)"
    and "\<And>I xs. bit_terms n xs \<Longrightarrow> int (unsigned_in I (f xs)) = F (int (unsigned_in I xs)) (signed_in I xs) mod 2 ^ m"
    and "\<And>v. bv_width v = n \<Longrightarrow> bv_apply opr [v] = in_bv m (F (int (bv_nat v)) (bv_int v))"
  shows "same_term (APP (BV_OP opr) [a]) (mk_mkbv (f (get_bits a)))"
proof (rule bv_same)
  have a: "well_sorted a" "get_sort a = BV_SORT n" using assms(1) by (simp_all add: bv_vec_def)
  note b = get_bits_ok [OF a] and s = signed_bits [OF a assms(2)]
  show "bv_meaning m (\<lambda>I. F (int (bv_nat (eval I a))) (bv_int (eval I a))) (mk_mkbv (f (get_bits a)))"
    using assms(4,5) [OF b(1)] b(2) s by (intro mkbv_meaning) simp_all
  show "get_sort (APP (BV_OP opr) [a]) = BV_SORT m" using assms(3) a(2) by (simp add: get_range_def)
  show "eval I (APP (BV_OP opr) [a]) = in_bv m (F (int (bv_nat (eval I a))) (bv_int (eval I a)))" for I
    using assms(6) [OF bv_value(3) [OF a]] by simp
qed

lemma bin_same:
  assumes "bv_vec n a" "bv_vec n b" "0 < n" "bv_range opr [BV_SORT n, BV_SORT n] = BV_SORT n"
    and "\<And>xs ys. bit_terms n xs \<Longrightarrow> bit_terms n ys \<Longrightarrow> bit_terms n (f xs ys)"
    and "\<And>I xs ys. bit_terms n xs \<Longrightarrow> bit_terms n ys \<Longrightarrow>
      int (unsigned_in I (f xs ys)) = F (unsigned_in I xs) (unsigned_in I ys) (signed_in I xs) (signed_in I ys) mod 2 ^ n"
    and "\<And>v w. bv_width v = n \<Longrightarrow> bv_apply opr [v, w] = in_bv n (F (bv_nat v) (bv_nat w) (bv_int v) (bv_int w))"
  shows "same_term (APP (BV_OP opr) [a, b]) (bin_reduce f a b)"
proof (rule bv_same)
  have a: "well_sorted a" "get_sort a = BV_SORT n" and b: "well_sorted b" "get_sort b = BV_SORT n"
    using assms(1,2) by (simp_all add: bv_vec_def)
  note ba = get_bits_ok [OF a] signed_bits [OF a assms(3)] and bb = get_bits_ok [OF b] signed_bits [OF b assms(3)]
  show "bv_meaning n (\<lambda>I. F (bv_nat (eval I a)) (bv_nat (eval I b)) (bv_int (eval I a)) (bv_int (eval I b))) (bin_reduce f a b)"
    unfolding bin_reduce_def using assms(5,6) [OF ba(1) bb(1)] ba(2,3) bb(2,3) by (intro mkbv_meaning) simp_all
  show "get_sort (APP (BV_OP opr) [a, b]) = BV_SORT n" using assms(4) a(2) b(2) by (simp add: get_range_def)
  show "eval I (APP (BV_OP opr) [a, b]) =
      in_bv n (F (bv_nat (eval I a)) (bv_nat (eval I b)) (bv_int (eval I a)) (bv_int (eval I b)))" for I
    using assms(7) [OF bv_value(3) [OF a]] by simp
qed

lemma pred_same:
  assumes "bv_vec n a" "bv_vec n b" "0 < n" "is_bv_pred opr"
    and "\<And>xs ys. bit_terms n xs \<Longrightarrow> bit_terms n ys \<Longrightarrow> ok_bool (f xs ys)"
    and "\<And>I xs ys. bit_terms n xs \<Longrightarrow> bit_terms n ys \<Longrightarrow>
      holds_in I (f xs ys) = F (unsigned_in I xs) (unsigned_in I ys) (signed_in I xs) (signed_in I ys)"
    and "\<And>v w. bv_width v = n \<Longrightarrow> bv_apply opr [v, w] = VBool (F (bv_nat v) (bv_nat w) (bv_int v) (bv_int w))"
  shows "same_term (APP (BV_OP opr) [a, b]) (bin_pred_reduce f a b)"
proof (rule bool_same)
  have a: "well_sorted a" "get_sort a = BV_SORT n" and b: "well_sorted b" "get_sort b = BV_SORT n"
    using assms(1,2) by (simp_all add: bv_vec_def)
  note ba = get_bits_ok [OF a] signed_bits [OF a assms(3)] and bb = get_bits_ok [OF b] signed_bits [OF b assms(3)]
  show "ok_bool (bin_pred_reduce f a b)" unfolding bin_pred_reduce_def by (rule assms(5) [OF ba(1) bb(1)])
  show "get_sort (APP (BV_OP opr) [a, b]) = BOOL_SORT" using assms(4) by (simp add: get_range_def bv_range_def)
  show "eval I (APP (BV_OP opr) [a, b]) = VBool (holds_in I (bin_pred_reduce f a b))" for I
    using assms(7) [OF bv_value(3) [OF a]] assms(6) [OF ba(1) bb(1)] ba(2,3) bb(2,3) by (simp add: bin_pred_reduce_def)
qed

text \<open>The chains of associative operations.\<close>

lemma bin_ac_meaning:
  assumes f: "\<And>xs ys. bit_terms n xs \<Longrightarrow> bit_terms n ys \<Longrightarrow> bit_terms n (f xs ys)"
    "\<And>I xs ys. bit_terms n xs \<Longrightarrow> bit_terms n ys \<Longrightarrow>
      int (unsigned_in I (f xs ys)) = g (int (unsigned_in I xs)) (int (unsigned_in I ys)) mod 2 ^ n"
    and g: "\<And>x y. g (x mod 2 ^ n) y mod 2 ^ n = g x y mod 2 ^ n"
    and args: "args \<noteq> []" "list_all (bv_vec n) args"
  shows "bv_meaning n (\<lambda>I. foldl g (int (bv_nat (eval I (hd args)))) (map (\<lambda>a. int (bv_nat (eval I a))) (tl args)))
    (bin_ac_reduce f args)"
proof -
  have "bv_meaning n (\<lambda>I. foldl g (v I) (map (\<lambda>a. int (bv_nat (eval I a))) bs)) (foldl (bin_reduce f) e bs)"
    if "bv_meaning n v e" "list_all (bv_vec n) bs" for v e bs
    using that
  proof (induction bs arbitrary: v e)
    case (Cons b bs)
    then have b: "well_sorted b" "get_sort b = BV_SORT n" by (simp_all add: bv_vec_def)
    note be = bv_meaning_bits [OF Cons.prems(1)] and bb = get_bits_ok [OF b]
    have "bv_meaning n (\<lambda>I. g (v I) (int (bv_nat (eval I b)))) (bin_reduce f e b)"
      unfolding bin_reduce_def using f [OF be(1) bb(1)] be(2) bb(2) g by (intro mkbv_meaning) simp_all
    from Cons.IH [OF this] Cons.prems(2) show ?case by simp
  qed simp
  from this [of "\<lambda>I. int (bv_nat (eval I (hd args)))" "hd args" "tl args"] arg_meaning [of "hd args" n] args show ?thesis
    unfolding bin_ac_reduce_def by (cases args) (simp_all add: bv_vec_def)
qed

lemma foldl_sum: "foldl (+) x xs = x + sum_list xs" for x :: int
  by (induction xs arbitrary: x) simp_all

lemma foldl_prod: "foldl (*) x xs = x * prod_list xs" for x :: int
  by (induction xs arbitrary: x) simp_all

lemma bitop_mod:
  fixes x y :: int
  shows "or (x mod 2 ^ n) y mod 2 ^ n = or x y mod 2 ^ n" "xor (x mod 2 ^ n) y mod 2 ^ n = xor x y mod 2 ^ n"
  by (simp_all flip: take_bit_eq_mod)

text \<open>The circuits of two vectors of one width.\<close>

lemmas blast_values = bl.adder_value [simplified] bl.multiplier_value [simplified] bl.udiv_value [simplified]
  bl.urem_value [simplified] bl.sdiv_value(1) [simplified] bl.sdiv_int_value [simplified] bl.srem_value(1) [simplified]
  bl.srem_int_value [simplified] bl.smod_value [simplified] bl.shl_value [simplified] bl.lshr_value [simplified]
  bl.ashr_value [simplified] bl.ule_value [simplified] bl.sle_value [simplified] bl.umul_no_overflow_value [simplified]
  bl.smul_core_value [simplified] bl.eq_value [simplified] bl.multiplexer_value [simplified]
  bl.not_bits_value [simplified] bl.num2bits_value [simplified]

lemma div_le_mod: "x < 2 ^ n \<Longrightarrow> int (x div y) mod 2 ^ n = int (x div y)" "x < 2 ^ n \<Longrightarrow> int x mod int y mod 2 ^ n = int x mod int y"
  "x < 2 ^ n \<Longrightarrow> int x div 2 ^ y mod 2 ^ n = int x div 2 ^ y" for x y n :: nat
proof -
  assume x: "x < 2 ^ n"
  have *: "z \<le> x \<Longrightarrow> int z mod 2 ^ n = int z" for z
    using x by (metis le_less_trans mod_less of_nat_mod of_nat_numeral of_nat_power)
  show "int (x div y) mod 2 ^ n = int (x div y)" "int x mod int y mod 2 ^ n = int x mod int y"
    by (simp_all only: * div_le_dividend mod_less_eq_dividend flip: zmod_int)
  have "int x div 2 ^ y = int (x div 2 ^ y)" by (simp add: zdiv_int)
  with * show "int x div 2 ^ y mod 2 ^ n = int x div 2 ^ y" by (simp only: div_le_dividend)
qed

lemma udiv_spec_int: "x < 2 ^ n \<Longrightarrow> int (gates.udiv_spec n x y) = udiv_bv (int x) (int y) mod 2 ^ n"
  using div_le_mod(1) [of x n y] by (auto simp: bl.udiv_spec_def udiv_bv_def of_nat_diff zmod_minus1 zdiv_int)

lemma arith_same:
  assumes ab: "bv_vec n a" "bv_vec n b" "0 < n"
  shows "same_term (APP (BV_OP OP_BUDIV_I) [a, b]) (bin_reduce (mk_udiv (blaster_cfg rw)) a b)"
    "same_term (APP (BV_OP OP_BUREM_I) [a, b]) (bin_reduce (mk_urem (blaster_cfg rw)) a b)"
    "same_term (APP (BV_OP OP_BSDIV_I) [a, b]) (bin_reduce (mk_sdiv (blaster_cfg rw)) a b)"
    "same_term (APP (BV_OP OP_BSREM_I) [a, b]) (bin_reduce (mk_srem (blaster_cfg rw)) a b)"
    "same_term (APP (BV_OP OP_BSMOD_I) [a, b]) (bin_reduce (mk_smod (blaster_cfg rw)) a b)"
    "same_term (APP (BV_OP OP_BSHL) [a, b]) (bin_reduce (mk_shl (blaster_cfg rw)) a b)"
    "same_term (APP (BV_OP OP_BLSHR) [a, b]) (bin_reduce (mk_lshr (blaster_cfg rw)) a b)"
    "same_term (APP (BV_OP OP_BASHR) [a, b]) (bin_reduce (mk_ashr (blaster_cfg rw)) a b)"
proof -
  note bin = bin_same [OF ab]
  note facts = range_simps blast_values udiv_spec_int sdiv_bv_def div_le_mod unsigned_in_less bv_apply_def zdiv_int zmod_int
  show "same_term (APP (BV_OP OP_BUDIV_I) [a, b]) (bin_reduce (mk_udiv (blaster_cfg rw)) a b)"
    using ab(3) by (intro bin [where F = "\<lambda>x y sx sy. udiv_bv (int x) (int y)"]) (simp_all add: facts)
  show "same_term (APP (BV_OP OP_BUREM_I) [a, b]) (bin_reduce (mk_urem (blaster_cfg rw)) a b)"
    using ab(3) by (intro bin [where F = "\<lambda>x y sx sy. int (x mod y)"]) (simp_all add: facts)
  show "same_term (APP (BV_OP OP_BSDIV_I) [a, b]) (bin_reduce (mk_sdiv (blaster_cfg rw)) a b)"
    using ab(3) by (intro bin [where F = "\<lambda>x y sx sy. sdiv_bv sx sy"]) (simp_all add: facts)
  show "same_term (APP (BV_OP OP_BSREM_I) [a, b]) (bin_reduce (mk_srem (blaster_cfg rw)) a b)"
    using ab(3) by (intro bin [where F = "\<lambda>x y sx sy. sx smod sy"]) (simp_all add: facts)
  show "same_term (APP (BV_OP OP_BSMOD_I) [a, b]) (bin_reduce (mk_smod (blaster_cfg rw)) a b)"
    using ab(3) by (intro bin [where F = "\<lambda>x y sx sy. sx mod sy"]) (simp_all add: facts)
  show "same_term (APP (BV_OP OP_BSHL) [a, b]) (bin_reduce (mk_shl (blaster_cfg rw)) a b)"
    using ab(3) by (intro bin [where F = "\<lambda>x y sx sy. int (x * 2 ^ y)"]) (simp_all add: facts)
  show "same_term (APP (BV_OP OP_BLSHR) [a, b]) (bin_reduce (mk_lshr (blaster_cfg rw)) a b)"
    using ab(3) by (intro bin [where F = "\<lambda>x y sx sy. int (x div 2 ^ y)"]) (simp_all add: facts)
  show "same_term (APP (BV_OP OP_BASHR) [a, b]) (bin_reduce (mk_ashr (blaster_cfg rw)) a b)"
    using ab(3) by (intro bin [where F = "\<lambda>x y sx sy. sx div 2 ^ y"]) (simp_all add: facts)
qed

lemma int_mult_less: "x * y < 2 ^ n \<longleftrightarrow> int x * int y < 2 ^ n" for x y n :: nat
  by (metis of_nat_less_iff of_nat_mult of_nat_numeral of_nat_power)

lemma pred_ops_same:
  assumes ab: "bv_vec n a" "bv_vec n b" "0 < n"
  shows "same_term (APP (BV_OP OP_ULEQ) [a, b]) (bin_pred_reduce (mk_ule (blaster_cfg rw)) a b)"
    "same_term (APP (BV_OP OP_SLEQ) [a, b]) (bin_pred_reduce (mk_sle (blaster_cfg rw)) a b)"
    "same_term (APP (BV_OP OP_BUMUL_NO_OVFL) [a, b]) (bin_pred_reduce (mk_umul_no_overflow (blaster_cfg rw)) a b)"
    "same_term (APP (BV_OP OP_BSMUL_NO_OVFL) [a, b]) (bin_pred_reduce (mk_smul_no_overflow (blaster_cfg rw)) a b)"
    "same_term (APP (BV_OP OP_BSMUL_NO_UDFL) [a, b]) (bin_pred_reduce (mk_smul_no_underflow (blaster_cfg rw)) a b)"
proof -
  note bin = pred_same [OF ab]
  note facts = is_bv_pred_def blast_values bv_apply_def mk_smul_no_overflow_def mk_smul_no_underflow_def int_mult_less
  show "same_term (APP (BV_OP OP_ULEQ) [a, b]) (bin_pred_reduce (mk_ule (blaster_cfg rw)) a b)"
    using ab(3) by (intro bin [where F = "\<lambda>x y sx sy. x \<le> y"]) (simp_all add: facts)
  show "same_term (APP (BV_OP OP_SLEQ) [a, b]) (bin_pred_reduce (mk_sle (blaster_cfg rw)) a b)"
    using ab(3) by (intro bin [where F = "\<lambda>x y sx sy. sx \<le> sy"]) (simp_all add: facts)
  show "same_term (APP (BV_OP OP_BUMUL_NO_OVFL) [a, b]) (bin_pred_reduce (mk_umul_no_overflow (blaster_cfg rw)) a b)"
    using ab(3) by (intro bin [where F = "\<lambda>x y sx sy. x * y < 2 ^ n"]) (simp_all add: facts)
  show "same_term (APP (BV_OP OP_BSMUL_NO_OVFL) [a, b]) (bin_pred_reduce (mk_smul_no_overflow (blaster_cfg rw)) a b)"
    using ab(3) by (intro bin [where F = "\<lambda>x y sx sy. sx * sy < 2 ^ (n - 1)"]) (simp_all add: facts)
  show "same_term (APP (BV_OP OP_BSMUL_NO_UDFL) [a, b]) (bin_pred_reduce (mk_smul_no_underflow (blaster_cfg rw)) a b)"
    using ab(3) by (intro bin [where F = "\<lambda>x y sx sy. - (2 ^ (n - 1)) \<le> sx * sy"]) (simp_all add: facts)
qed

text \<open>Rotations by a vector.\<close>

lemma ext_rotate_value:
  assumes "bit_terms n as" "bit_terms n bs" "0 < n"
  shows "bit_terms n (mk_ext_rotate_left_right (blaster_cfg rw) left as bs)"
    "unsigned_in I (mk_ext_rotate_left_right (blaster_cfg rw) left as bs) =
      rotate_nat n (if left then n - unsigned_in I bs mod n else unsigned_in I bs) (unsigned_in I as)"
proof -
  let ?out = "mk_ext_rotate_left_right (blaster_cfg rw) left as bs"
  note r = bl.ext_rotate_nth [of n as bs, simplified, OF assms(1,2)]
  have "length ?out = n" using r(1) [OF assms(3)] .
  with r(2) show "bit_terms n ?out" by (auto simp: bit_terms_def list_all_length)
  then have len: "length ?out = n" by (simp add: bit_terms_def)
  have las: "length as = n" using assms(1) by (simp add: bit_terms_def)
  let ?k = "if left then n - unsigned_in I bs mod n else unsigned_in I bs"
  have "map (holds_in I) ?out = map (\<lambda>i. bit (unsigned_in I as) ((i + ?k) mod n)) [0..<n]"
  proof (rule nth_equalityI)
    show "length (map (holds_in I) ?out) = length (map (\<lambda>i. bit (unsigned_in I as) ((i + ?k) mod n)) [0..<n])" by (simp add: len)
    fix i assume "i < length (map (holds_in I) ?out)"
    then have i: "i < n" by (simp add: len)
    have "(if left then n + i - unsigned_in I bs mod n else i + unsigned_in I bs mod n) mod n = (i + ?k) mod n"
      using i by (auto simp: mod_simps intro!: arg_cong2 [where f = "(mod)"])
    moreover have "bit (unsigned_in I as) j = holds_in I (as ! j)" if "j < n" for j
      using bl.bit_uv [of I as j] that las by simp
    ultimately show "map (holds_in I) ?out ! i = map (\<lambda>i. bit (unsigned_in I as) ((i + ?k) mod n)) [0..<n] ! i"
      using r(3) [OF i] i by (simp add: len mod_simps add.commute [of n])
  qed
  then show "unsigned_in I ?out = rotate_nat n ?k (unsigned_in I as)" unfolding unsigned_in_def [of I ?out] rotate_nat_def by (rule arg_cong)
qed

lemma rotate_nat_less: "int (rotate_nat n k x) mod 2 ^ n = int (rotate_nat n k x)"
proof -
  have "rotate_nat n k x < 2 ^ n" unfolding rotate_nat_def using bval_less [of "map (\<lambda>i. bit x ((i + k) mod n)) [0..<n]"] by simp
  then show ?thesis by (metis mod_less of_nat_mod of_nat_numeral of_nat_power)
qed

lemma rotate_same:
  assumes ab: "bv_vec n a" "bv_vec n b" "0 < n"
  shows "same_term (APP (BV_OP OP_EXT_ROTATE_LEFT) [a, b]) (bin_reduce (mk_ext_rotate_left (blaster_cfg rw)) a b)"
    "same_term (APP (BV_OP OP_EXT_ROTATE_RIGHT) [a, b]) (bin_reduce (mk_ext_rotate_right (blaster_cfg rw)) a b)"
proof -
  note facts = ab(3) range_simps ext_rotate_value rotate_nat_less bv_apply_def mk_ext_rotate_left_def mk_ext_rotate_right_def
  show "same_term (APP (BV_OP OP_EXT_ROTATE_LEFT) [a, b]) (bin_reduce (mk_ext_rotate_left (blaster_cfg rw)) a b)"
    by (intro bin_same [OF ab, where F = "\<lambda>x y sx sy. int (rotate_nat n (n - y mod n) x)"]) (simp_all add: facts)
  show "same_term (APP (BV_OP OP_EXT_ROTATE_RIGHT) [a, b]) (bin_reduce (mk_ext_rotate_right (blaster_cfg rw)) a b)"
    by (intro bin_same [OF ab, where F = "\<lambda>x y sx sy. int (rotate_nat n y x)"]) (simp_all add: facts)
qed

text \<open>The circuits of one vector.\<close>

lemma reduction_bits: "bit_terms n xs \<Longrightarrow> bit_terms (Suc 0) (mk_redor (blaster_cfg rw) xs)"
  "bit_terms n xs \<Longrightarrow> bit_terms (Suc 0) (mk_redand (blaster_cfg rw) xs)"
  by (simp_all add: mk_redor_def mk_redand_def bit_terms_def bl.gate_laws)

lemmas reduction_values = bl.reduction_values [simplified]

lemma unary_ops_same:
  assumes a: "bv_vec n a" "0 < n"
  shows "same_term (APP (BV_OP OP_BNOT) [a]) (unary_reduce (mk_not_bits (blaster_cfg rw)) a)"
    "same_term (APP (BV_OP OP_BREDOR) [a]) (unary_reduce (mk_redor (blaster_cfg rw)) a)"
    "same_term (APP (BV_OP OP_BREDAND) [a]) (unary_reduce (mk_redand (blaster_cfg rw)) a)"
    "same_term (APP (BV_OP (OP_SIGN_EXT k)) [a]) (parametric_unary_reduce (mk_sign_extend (blaster_cfg rw)) a k)"
proof -
  have not_mod: "int (2 ^ n - Suc x) = not (int x) mod 2 ^ n" if "x < 2 ^ n" for x :: nat
  proof -
    have e: "int (2 ^ n - Suc x) = 2 ^ n + not (int x)" using that by (simp add: not_int_def of_nat_diff)
    have "int (2 ^ n - Suc x) mod 2 ^ n = int (2 ^ n - Suc x)" by (intro mod_pos_pos_trivial) (simp_all add: of_nat_diff that)
    with e show ?thesis by simp
  qed
  have "int (2 ^ n - Suc 0) = 2 ^ n - 1" by (simp add: of_nat_diff)
  then have ones: "int x = 2 ^ n - 1 \<longleftrightarrow> x = 2 ^ n - Suc 0" for x by (metis of_nat_eq_iff)
  have ext: "bit_terms (n + k) (mk_sign_extend (blaster_cfg rw) xs k)"
    "int (unsigned_in I (mk_sign_extend (blaster_cfg rw) xs k)) = signed_in I xs mod 2 ^ (n + k)" if "bit_terms n xs" for I xs
    using bl.sign_extend_value [of n xs] bl.sv_facts(1) [of "n + k" "mk_sign_extend (blaster_cfg rw) xs k" I] a(2) that
    by simp_all
  note facts = range_simps blast_values reduction_bits reduction_values bv_apply_def
  show "same_term (APP (BV_OP OP_BNOT) [a]) (unary_reduce (mk_not_bits (blaster_cfg rw)) a)"
    unfolding unary_reduce_def
    by (intro unary_same [OF a, where F = "\<lambda>x sx. not x"]) (simp_all add: facts not_mod unsigned_in_less)
  show "same_term (APP (BV_OP OP_BREDOR) [a]) (unary_reduce (mk_redor (blaster_cfg rw)) a)"
    unfolding unary_reduce_def
    by (intro unary_same [OF a, where F = "\<lambda>x sx. of_bool (x \<noteq> 0)"]) (simp_all add: facts)
  show "same_term (APP (BV_OP OP_BREDAND) [a]) (unary_reduce (mk_redand (blaster_cfg rw)) a)"
    unfolding unary_reduce_def
    by (intro unary_same [OF a, where F = "\<lambda>x sx. of_bool (x = 2 ^ n - 1)"]) (simp_all add: facts ones)
  show "same_term (APP (BV_OP (OP_SIGN_EXT k)) [a]) (parametric_unary_reduce (mk_sign_extend (blaster_cfg rw)) a k)"
    unfolding parametric_unary_reduce_def
    by (intro unary_same [OF a, where F = "\<lambda>x sx. sx"]) (simp_all add: facts ext)
qed

text \<open>Chains, concatenation, extraction and numerals.\<close>

lemma first_arg: "args \<noteq> [] \<Longrightarrow> list_all (bv_vec n) args \<Longrightarrow> get_sort (hd args) = BV_SORT n \<and> bv_width (eval I (hd args)) = n"
  using bv_value(3) by (cases args) (auto simp: bv_vec_def)

lemma chain_same:
  assumes args: "args \<noteq> []" "list_all (bv_vec n) args" "0 < n"
  shows "same_term (APP (BV_OP OP_BMUL) args) (bin_ac_reduce (mk_multiplier (blaster_cfg rw)) args)"
    "same_term (APP (BV_OP OP_BOR) args) (bin_ac_reduce (mk_binary (cfg_or (blaster_cfg rw))) args)"
    "same_term (APP (BV_OP OP_BXOR) args) (bin_ac_reduce (mk_binary (cfg_xor (blaster_cfg rw))) args)"
proof -
  obtain b bs where bs: "args = b # bs" using args(1) by (cases args) auto
  have w: "get_sort b = BV_SORT n" "bv_width (eval I b) = n" for I using first_arg [OF args(1,2)] bs by simp_all
  note m = bin_ac_meaning [OF _ _ _ args(1,2)]
  note facts = range_simps bv_apply_def bs w get_range_def comp_def
  have bw: "bit_terms n xs \<Longrightarrow> bit_terms n ys \<Longrightarrow> bit_terms n (mk_binary (cfg_or (blaster_cfg rw)) xs ys)"
    "bit_terms n xs \<Longrightarrow> bit_terms n ys \<Longrightarrow> bit_terms n (mk_binary (cfg_xor (blaster_cfg rw)) xs ys)" for xs ys
    using bl.binary_value(1) [of n xs ys "cfg_or (blaster_cfg rw)" I "(\<or>)"] bl.binary_value(1) [of n xs ys "cfg_xor (blaster_cfg rw)" I "(\<noteq>)"]
    by (simp_all add: bl.gate_laws)
  have small: "int (unsigned_in I xs) mod 2 ^ n = int (unsigned_in I xs)" if "bit_terms n xs" for I xs
    using unsigned_in_less [OF that, of I] by (metis mod_less of_nat_mod of_nat_numeral of_nat_power)
  have bv: "int (unsigned_in I (mk_binary (cfg_or (blaster_cfg rw)) xs ys)) = or (int (unsigned_in I xs)) (int (unsigned_in I ys)) mod 2 ^ n"
    "int (unsigned_in I (mk_binary (cfg_xor (blaster_cfg rw)) xs ys)) = xor (int (unsigned_in I xs)) (int (unsigned_in I ys)) mod 2 ^ n"
    if "bit_terms n xs" "bit_terms n ys" for I xs ys
    using bl.bitwise_values(2,3) [of n xs ys I rw] small [OF bw(1) [OF that], of I] small [OF bw(2) [OF that], of I] that
    by (simp_all add: of_nat_or_eq of_nat_xor_eq)
  show "same_term (APP (BV_OP OP_BMUL) args) (bin_ac_reduce (mk_multiplier (blaster_cfg rw)) args)"
    by (rule bv_same [OF m [where g = "(*)"]])
      (simp_all add: facts blast_values args(3) zmod_int foldl_prod mod_mult_left_eq)
  show "same_term (APP (BV_OP OP_BOR) args) (bin_ac_reduce (mk_binary (cfg_or (blaster_cfg rw))) args)"
    by (rule bv_same [OF m [where g = "or"]]) (simp_all add: facts bw bv bitop_mod)
  show "same_term (APP (BV_OP OP_BXOR) args) (bin_ac_reduce (mk_binary (cfg_xor (blaster_cfg rw))) args)"
    by (rule bv_same [OF m [where g = "xor"]]) (simp_all add: facts bw bv bitop_mod)
qed

lemma int_sum_list: "int (sum_list xs) = sum_list (map int xs)"
  by (induction xs) simp_all

lemma add_same:
  assumes args: "args \<noteq> []" "list_all (bv_vec n) args"
  shows "same_term (APP OP_BADD args) (bin_ac_reduce (mk_adder (blaster_cfg rw)) args)"
proof -
  obtain b bs where bs: "args = b # bs" using args(1) by (cases args) auto
  have w: "get_sort b = BV_SORT n" "bv_width (eval I b) = n" for I using first_arg [OF args] bs by simp_all
  show ?thesis
    by (rule bv_same [OF bin_ac_meaning [OF _ _ _ args, where g = "(+)"]])
      (simp_all add: bs w get_range_def blast_values zmod_int foldl_sum mod_add_left_eq in_bv_def comp_def nat_mod_as_int int_sum_list)
qed

lemma bits_of_vec: "bv_vec n a \<Longrightarrow> bit_terms n (get_bits a)" "bv_vec n a \<Longrightarrow> unsigned_in I (get_bits a) = bv_nat (eval I a)"
  using get_bits_ok by (auto simp: bv_vec_def)

lemma concat_nat_snoc: "concat_nat (vs @ [v]) = concat_nat vs * 2 ^ bv_width v + bv_nat v"
  by (simp add: concat_nat_def)

lemma concat_same:
  assumes "list_all (\<lambda>a. well_sorted a \<and> is_bv_sort (get_sort a)) args"
  shows "same_term (APP (BV_OP OP_CONCAT) args) (reduce_concat args)"
proof -
  define W where "W = sum_list (map (\<lambda>a. srt_width (get_sort a)) args)"
  have "bit_terms (sum_list (map (\<lambda>a. srt_width (get_sort a)) args)) (concat (map get_bits (rev args))) \<and>
    unsigned_in I (concat (map get_bits (rev args))) = concat_nat (map (eval I) args) \<and>
    map (\<lambda>a. bv_width (eval I a)) args = map (\<lambda>a. srt_width (get_sort a)) args" for I
    using assms
  proof (induction args rule: rev_induct)
    case Nil
    then show ?case by (simp add: bit_terms_def unsigned_in_def concat_nat_def)
  next
    case (snoc a as)
    then obtain n where a: "bv_vec n a" by (auto simp: bv_vec_def is_bv_sort_iff)
    with snoc bits_of_vec [OF a] bv_value(3) [of a n I] show ?case
      by (auto simp: bit_terms_def unsigned_in_def bval_append concat_nat_snoc bv_vec_def)
  qed
  then have b: "bit_terms W (concat (map get_bits (rev args)))"
    "\<And>I. unsigned_in I (concat (map get_bits (rev args))) = concat_nat (map (eval I) args)"
    and w: "\<And>I. map (\<lambda>a. bv_width (eval I a)) args = map (\<lambda>a. srt_width (get_sort a)) args" by (simp_all add: W_def)
  have "bv_meaning W (\<lambda>I. int (concat_nat (map (eval I) args))) (reduce_concat args)"
    unfolding reduce_concat_def using b unsigned_in_less [OF b(1)]
    by (intro mkbv_meaning) (auto simp: mod_less simp flip: of_nat_mod)
  then show ?thesis
    by (rule bv_same) (simp_all add: get_range_def range_simps W_def comp_def bv_apply_def w)
qed

lemma extract_same:
  assumes "bv_vec n a" "lo \<le> hi" "hi < srt_width (get_sort a)"
  shows "same_term (APP (BV_OP (OP_EXTRACT hi lo)) [a]) (reduce_extract lo hi a)"
proof -
  note b = bits_of_vec [OF assms(1)]
  have len: "length (get_bits a) = n" and hi: "hi < n" using b(1) assms(1,3) by (simp_all add: bit_terms_def bv_vec_def)
  have out: "map (\<lambda>i. get_bits a ! i) [lo..<Suc hi] = take (hi - lo + 1) (drop lo (get_bits a))"
    using assms(2) hi by (intro nth_equalityI) (auto simp: len simp del: upt_Suc)
  have "bit_terms (hi - lo + 1) (take (hi - lo + 1) (drop lo (get_bits a)))"
    using b(1) assms(2) hi by (auto simp: bit_terms_def list_all_iff dest: in_set_takeD in_set_dropD)
  moreover have "int (unsigned_in I (take (hi - lo + 1) (drop lo (get_bits a)))) = (int (bv_nat (eval I a)) div 2 ^ lo) mod 2 ^ (hi - lo + 1)" for I
    using b(2) [of I] by (simp add: unsigned_in_def take_map [symmetric] drop_map [symmetric] bval_take bval_drop zmod_int zdiv_int)
  ultimately have "bv_meaning (hi - lo + 1) (\<lambda>I. int (bv_nat (eval I a)) div 2 ^ lo) (reduce_extract lo hi a)"
    unfolding reduce_extract_def out by (rule mkbv_meaning)
  then show ?thesis by (rule bv_same) (simp_all add: get_range_def range_simps bv_apply_def)
qed

lemma num_same:
  "same_term (APP (OP_BV_NUM v n) []) (reduce_num (blaster_cfg rw) v n)"
  unfolding reduce_num_def
  by (rule bv_same [OF mkbv_meaning [where n = n and v = "\<lambda>I. int v"]])
    (simp_all add: blast_values zmod_int get_range_def in_bv_def nat_mod_as_int)

lemma eq_same:
  assumes "bv_vec n a" "bv_vec n b"
  shows "same_term (APP OP_EQ [a, b]) (bin_pred_reduce (Bit_Blaster.mk_eq (blaster_cfg rw)) a b)"
proof (rule bool_same)
  note ba = bits_of_vec [OF assms(1)] and bb = bits_of_vec [OF assms(2)]
  show "ok_bool (bin_pred_reduce (Bit_Blaster.mk_eq (blaster_cfg rw)) a b)"
    unfolding bin_pred_reduce_def using ba(1) bb(1) by (rule blast_values)
  have "eval I a = eval I b \<longleftrightarrow> bv_nat (eval I a) = bv_nat (eval I b)" for I
    using bv_value(1) [of a n I] bv_value(1) [of b n I] assms by (metis bv_vecD)
  then show "eval I (APP OP_EQ [a, b]) = VBool (holds_in I (bin_pred_reduce (Bit_Blaster.mk_eq (blaster_cfg rw)) a b))" for I
    unfolding bin_pred_reduce_def using blast_values ba bb by simp
  show "get_sort (APP OP_EQ [a, b]) = BOOL_SORT" by (simp add: get_range_def)
qed

lemma ite_same:
  assumes "ok_bool c" "bv_vec n a" "bv_vec n b"
  shows "same_term (APP OP_ITE [c, a, b]) (reduce_ite (blaster_cfg rw) c a b)"
proof -
  note ba = bits_of_vec [OF assms(2)] and bb = bits_of_vec [OF assms(3)]
  note ab = bv_value [of a n] bv_value [of b n]
  have "bv_meaning n (\<lambda>I. int (bv_nat (if holds_in I c then eval I a else eval I b))) (reduce_ite (blaster_cfg rw) c a b)"
    unfolding reduce_ite_def
  proof (rule mkbv_meaning)
    show "bit_terms n (mk_multiplexer (blaster_cfg rw) c (get_bits a) (get_bits b))" using ba(1) bb(1) assms(1) by (simp add: blast_values)
    have "bv_nat (if holds_in I c then eval I a else eval I b) < 2 ^ n" for I
      using bv_value(2) [of a n I] bv_value(2) [of b n I] assms(2,3) by (simp add: bv_vec_def)
    then show "int (unsigned_in I (mk_multiplexer (blaster_cfg rw) c (get_bits a) (get_bits b))) =
        int (bv_nat (if holds_in I c then eval I a else eval I b)) mod 2 ^ n" for I
      using ba bb assms(1) by (simp add: blast_values mod_less flip: of_nat_mod)
  qed
  then show ?thesis
  proof (rule bv_same)
    show "get_sort (APP OP_ITE [c, a, b]) = BV_SORT n" using assms(2) by (simp add: get_range_def bv_vec_def)
    show "eval I (APP OP_ITE [c, a, b]) = in_bv n (int (bv_nat (if holds_in I c then eval I a else eval I b)))" for I
      using bv_value [of a n I] bv_value [of b n I] assms(2,3) VBv_in_bv by (simp add: holds_in_def bv_vec_def)
  qed
qed

section \<open>The dispatch\<close>

lemma arg_vecs:
  assumes "list_all well_sorted args"
  shows "bv_args (Suc 0) (map get_sort args) \<Longrightarrow> \<exists>n a. args = [a] \<and> bv_vec n a \<and> 0 < n"
    "bv_args 2 (map get_sort args) \<Longrightarrow> \<exists>n a b. args = [a, b] \<and> bv_vec n a \<and> bv_vec n b \<and> 0 < n"
    "bv_args (length args) (map get_sort args) \<Longrightarrow> args \<noteq> [] \<Longrightarrow> \<exists>n. list_all (bv_vec n) args \<and> 0 < n"
proof -
  have *: "\<exists>n. list_all (bv_vec n) args \<and> 0 < n \<and> length args = k" if "args \<noteq> []" "bv_args k (map get_sort args)" for k
    using bv_args_vecs [OF that(2) assms that(1)] by metis
  then show "bv_args (length args) (map get_sort args) \<Longrightarrow> args \<noteq> [] \<Longrightarrow> \<exists>n. list_all (bv_vec n) args \<and> 0 < n" by blast
  have ne: "bv_args (Suc k) (map get_sort args) \<Longrightarrow> args \<noteq> []" for k by (auto simp: bv_args_def)
  show "\<exists>n a. args = [a] \<and> bv_vec n a \<and> 0 < n" if b: "bv_args (Suc 0) (map get_sort args)"
    using * [OF ne [of 0] b] b by (cases args) auto
  show "\<exists>n a b. args = [a, b] \<and> bv_vec n a \<and> bv_vec n b \<and> 0 < n" if b: "bv_args 2 (map get_sort args)"
  proof -
    obtain n where n: "list_all (bv_vec n) args" "0 < n" "length args = 2"
      using * [OF ne [of 1] b] b by (auto simp: numeral_2_eq_2)
    from n(3) obtain a b where "args = [a, b]" by (auto simp: numeral_2_eq_2 length_Suc_conv)
    with n show ?thesis by auto
  qed
qed

lemmas op_same = arith_same pred_ops_same rotate_same unary_ops_same chain_same concat_same extract_same

lemma badd_vecs:
  assumes "list_all well_sorted args" "args \<noteq> []" "list_all (\<lambda>s. s = hd (map get_sort args)) (map get_sort args)"
    "is_bv_sort (hd (map get_sort args))"
  shows "\<exists>n. list_all (bv_vec n) args"
proof -
  from assms(4) obtain n where n: "hd (map get_sort args) = BV_SORT n" by (auto simp: is_bv_sort_iff)
  from assms(3) have "list_all (\<lambda>a. get_sort a = BV_SORT n) args" unfolding n by (simp add: list_all_iff)
  with assms(1) show ?thesis by (auto simp: bv_vec_def list_all_iff)
qed

lemma list_all_conj: "list_all (\<lambda>a. P a \<and> Q (f a)) xs \<longleftrightarrow> list_all P xs \<and> list_all Q (map f xs)"
  by (auto simp: list_all_iff)

lemma reduce_bv_op_same:
  assumes "well_sorted (APP (BV_OP opr) args)" "reduce_bv_op (blaster_cfg rw) st opr args = Inr (Some r)"
  shows "same_term (APP (BV_OP opr) args) r"
proof -
  have ws: "list_all well_sorted args" and sig: "bv_sig_ok opr (map get_sort args)" using assms(1) by (simp_all add: sig_ok_def)
  note v = arg_vecs [OF ws]
  show ?thesis
    using assms(2) sig ws
    by (cases opr) (auto simp: reduce_bv_op_def bv_sig_ok_def list_all_conj split: if_splits dest!: v intro!: op_same)
qed

lemma blast_bv_term_same:
  assumes "well_sorted t" "is_bv_sort (get_sort t)"
  shows "same_term t (blast_bv_term t)"
proof -
  obtain n where n: "get_sort t = BV_SORT n" using assms(2) by (auto simp: is_bv_sort_iff)
  note b = selected_bits [OF assms(1) n] and v = bv_value [OF assms(1) n]
  have "bv_meaning n (\<lambda>I. int (bv_nat (eval I t))) (blast_bv_term t)"
    unfolding blast_bv_term_def n srt_width.simps
    using b v(2) by (intro mkbv_meaning) (simp_all add: mod_less flip: of_nat_mod)
  then show ?thesis by (rule bv_same) (use n v VBv_in_bv in simp_all)
qed

definition is_bv_const :: "func_decl \<Rightarrow> expr list \<Rightarrow> bool" where
  "is_bv_const f args \<longleftrightarrow> args = [] \<and> get_family_id f = null_family \<and> is_bv_sort (get_range f [])"

lemma is_bv_const_iff: "is_bv_const f args \<longleftrightarrow> args = [] \<and> (\<exists>g n. f = UNINTERPRETED g (BV_SORT n))"
  by (cases f) (auto simp: is_bv_const_def get_range_def is_bv_sort_iff)

lemma reduce_app_const: "is_bv_const f args \<Longrightarrow> reduce_app C f args st = Inr (map_prod Some id (mk_const f st))"
  by (simp add: reduce_app_def is_bv_const_def split_def map_prod_def Let_def)

lemma reduce_app_same:
  assumes ws: "well_sorted (APP f args)" and nc: "\<not> is_bv_const f args"
    and r: "reduce_app (blaster_cfg rw) f args st = Inr (res, st')"
  shows "st' = st \<and> (case res of None \<Rightarrow> True | Some r \<Rightarrow> same_term (APP f args) r)"
proof (cases f)
  case OP_EQ
  with ws obtain a b where ab: "args = [a, b]" "well_sorted a" "well_sorted b" "get_sort a = get_sort b"
    by (auto simp: sig_ok_def numeral_2_eq_2 length_Suc_conv)
  with OP_EQ nc r eq_same [of _ a b] show ?thesis by (auto simp: reduce_app_def is_bv_const_def is_bv_def is_bv_sort_iff bv_vec_def)
next
  case OP_ITE
  with ws obtain c a b where abc: "args = [c, a, b]" "ok_bool c" "well_sorted a" "well_sorted b" "get_sort a = get_sort b"
    by (auto simp: sig_ok_def numeral_3_eq_3 length_Suc_conv ok_bool_def is_bool_def)
  with OP_ITE nc r ite_same [of c _ a b] show ?thesis by (auto simp: reduce_app_def is_bv_const_def is_bv_def is_bv_sort_iff bv_vec_def)
next
  case (BV_OP opr)
  with ws r reduce_bv_op_same [of opr args rw st] show ?thesis
    by (cases "reduce_bv_op (blaster_cfg rw) st opr args") (auto simp: reduce_app_def split: option.split)
next
  case (OP_BV_NUM v n)
  with ws r num_same [of v n rw] show ?thesis by (auto simp: reduce_app_def sig_ok_def)
next
  case OP_BADD
  with ws obtain n where n: "args \<noteq> []" "list_all (bv_vec n) args"
    using badd_vecs by (auto simp: sig_ok_def)
  with OP_BADD r add_same [OF n, of rw] show ?thesis by (auto simp: reduce_app_def)
qed (use nc r blast_bv_term_same [OF ws] in \<open>auto simp: reduce_app_def is_bv_const_def split: if_splits\<close>)

end
