(* ===== verification/Blaster_Bindings.thy ===== *)
theory Blaster_Bindings
  imports Blaster_Ops
begin

text \<open>
  Variables and quantifiers under bit-blasting: a quantified bit-vector becomes as many
  quantified booleans as it is wide. The bindings of the rewriter give each bound variable the bits
  of its own, also below inner quantifiers, and the values of the new declarations are exactly
  those that the values of the old ones are blasted to. Variables that no quantifier binds
  get an index that is too large (\<open>reduce_var_free\<close>).
\<close>

section \<open>Environments\<close>

fun val_nat :: "val \<Rightarrow> nat" where
  "val_nat (VBool b) = of_bool b"
| "val_nat (VBv n k) = k"
| "val_nat (VElem u k) = k"

definition proper_val :: "val \<Rightarrow> bool" where
  "proper_val v \<longleftrightarrow> in_sort (sort_of_val v) (val_nat v) = v"

definition with_vars :: "interp \<Rightarrow> val list \<Rightarrow> interp" where
  \<comment> \<open>the variables of the list in front of those of the interpretation, index 0 first\<close>
  "with_vars I env = I\<lparr>i_var := \<lambda>i s. if i < length env then val_nat (env ! i) else i_var I (i - length env) s\<rparr>"

fun blast_val :: "val \<Rightarrow> val list" where
  \<comment> \<open>the values of the booleans declared for one variable, in the order of the declarations\<close>
  "blast_val (VBv n k) = rev (map (\<lambda>i. VBool (bit k i)) [0..<n])"
| "blast_val v = [v]"

definition env_of :: "val list \<Rightarrow> val list" where
  \<comment> \<open>the last declared value has the index 0\<close>
  "env_of vs = rev vs"

definition blast_env :: "val list \<Rightarrow> val list" where
  "blast_env vs = env_of (concat (map blast_val vs))"

definition num_new :: "srt \<Rightarrow> nat" where
  "num_new s = (if is_bv_sort s then srt_width s else 1)"

lemma length_blast_val: "length (blast_val v) = num_new (sort_of_val v)"
  by (cases v) (simp_all add: num_new_def)

lemma eval_with_vars: "proper_val (env ! i) \<Longrightarrow> i < length env \<Longrightarrow> s = sort_of_val (env ! i) \<Longrightarrow> eval (with_vars I env) (VAR i s) = env ! i"
  by (simp add: with_vars_def proper_val_def)

lemma blast_env_Nil [simp]: "blast_env [] = []"
  by (simp add: blast_env_def env_of_def)

lemma blast_env_snoc: "blast_env (vs @ [v]) = rev (blast_val v) @ blast_env vs"
  by (simp add: blast_env_def env_of_def)

lemma blast_env_append: "blast_env (us @ vs) = blast_env vs @ blast_env us"
  by (simp add: blast_env_def env_of_def)

lemma length_blast_env: "length (blast_env vs) = sum_list (map (num_new \<circ> sort_of_val) vs)"
  by (induction vs rule: rev_induct) (simp_all add: blast_env_snoc length_blast_val)

section \<open>Bindings\<close>

definition bind :: "srt \<Rightarrow> nat \<Rightarrow> expr" where
  "bind s j = (if is_bv_sort s then mk_mkbv (map (\<lambda>k. VAR (j + k) BOOL_SORT) [0..<srt_width s]) else VAR j s)"

lemma new_bindings_eq:
  "new_bindings ss j = (map (\<lambda>i. bind (ss ! i) (j + sum_list (map num_new (take i ss)))) [0..<length ss], j + sum_list (map num_new ss))"
proof (induction ss arbitrary: j)
  case (Cons s ss)
  show ?case
    by (simp add: Cons.IH bind_def num_new_def upt_conv_Cons map_Suc_upt [symmetric] comp_def add.assoc del: upt_Suc)
qed simp

lemma shift_bind: "var_shifter 0 sh 0 (bind s j) = bind s (j + sh)"
  by (simp add: bind_def mk_mkbv_def ac_simps)

text \<open>The state below quantifiers that declare the given sorts, from the outermost on.\<close>

definition bindings_inv :: "srt list \<Rightarrow> blaster_state \<Rightarrow> bool" where
  "bindings_inv ss st \<longleftrightarrow> m_blast_quant st \<and> length (m_bindings st) = length ss \<and> length (m_shifts st) = length ss \<and>
     (ss \<noteq> [] \<longrightarrow> last (m_shifts st) = sum_list (map num_new ss)) \<and>
     (\<forall>p < length ss. m_shifts st ! p \<le> last (m_shifts st) \<and>
        (\<exists>j. m_bindings st ! p = bind (ss ! p) j \<and>
           j + (last (m_shifts st) - m_shifts st ! p) = sum_list (map num_new (drop (Suc p) ss))))"

lemma pre_visit_inv:
  assumes "bindings_inv ss st" "ts = q_decl_sorts q"
  shows "bindings_inv (ss @ ts) (pre_visit q st)"
proof (cases "ts = []")
  case True
  then have "pre_visit q st = st" using assms(2) by (simp add: pre_visit_def)
  with True assms(1) show ?thesis by simp
next
  case False
  let ?J = "sum_list (map num_new ts)" and ?S = "sum_list (map num_new ss)"
  let ?st' = "pre_visit q st"
  note I = assms(1) [unfolded bindings_inv_def]
  define bs where "bs = rev (map (\<lambda>i. bind (rev ts ! i) (sum_list (map num_new (take i (rev ts))))) [0..<length ts])"
  have sum: "sum_list (map num_new (rev ts)) = ?J" by (induction ts) simp_all
  have shift: "(if m_shifts st = [] then ?J else ?J + last (m_shifts st)) = ?S + ?J" using I by (cases "ss = []") auto
  have st': "?st' = st\<lparr>m_bindings := m_bindings st @ bs, m_shifts := m_shifts st @ replicate (length ts) (?S + ?J)\<rparr>"
    using I shift by (simp add: pre_visit_def assms(2) [symmetric] new_bindings_eq sum bs_def)
  have len: "length bs = length ts" by (simp add: bs_def)
  have new: "bs ! p = bind (ts ! p) (sum_list (map num_new (drop (Suc p) ts)))" if "p < length ts" for p
  proof -
    let ?i = "length ts - Suc p"
    have i: "?i < length ts" "length ts - ?i = Suc p" "length ts - Suc ?i = p" using that by auto
    have "bs ! p = bind (rev ts ! ?i) (sum_list (map num_new (take ?i (rev ts))))"
      using that i(1) by (simp add: bs_def rev_nth)
    also have "take ?i (rev ts) = rev (drop (Suc p) ts)" by (simp add: take_rev i(2))
    finally show ?thesis using i by (simp add: rev_nth rev_map [symmetric] sum_list_rev)
  qed
  have "\<exists>j. m_bindings ?st' ! p = bind ((ss @ ts) ! p) j \<and>
      j + (?S + ?J - m_shifts ?st' ! p) = sum_list (map num_new (drop (Suc p) (ss @ ts))) \<and> m_shifts ?st' ! p \<le> ?S + ?J"
    if p: "p < length (ss @ ts)" for p
  proof (cases "p < length ss")
    case True
    with I obtain j where j: "m_shifts st ! p \<le> ?S" "m_bindings st ! p = bind (ss ! p) j"
        "j + (?S - m_shifts st ! p) = sum_list (map num_new (drop (Suc p) ss))" by fastforce
    have "m_bindings ?st' ! p = bind ((ss @ ts) ! p) j" "m_shifts ?st' ! p = m_shifts st ! p"
      using True I j(2) by (simp_all add: st' nth_append)
    moreover have "drop (Suc p) (ss @ ts) = drop (Suc p) ss @ ts" using True by simp
    ultimately show ?thesis using j(1,3) by (intro exI [of _ j]) simp
  next
    case F: False
    then show ?thesis using p I new [of "p - length ss"] len
      by (intro exI [of _ "sum_list (map num_new (drop (Suc (p - length ss)) ts))"]) (simp add: st' nth_append Suc_diff_le)
  qed
  then show ?thesis using False I len unfolding bindings_inv_def by (auto simp: st' last_append last_replicate)
qed

section \<open>Variables\<close>

lemma bval_proper: "proper_val (VBv n k) \<Longrightarrow> bval (map (bit k) [0..<n]) = k"
  by (simp add: proper_val_def bval_bits)

lemma eval_bind:
  assumes "proper_val v" "env = xs @ rev (blast_val v) @ ys" "j = length xs"
  shows "eval (with_vars I env) (bind (sort_of_val v) j) = v"
proof (cases v)
  case (VBv n k)
  have nth: "env ! (j + i) = VBool (bit k i)" if "i < n" for i
    using that by (simp add: assms(2,3) VBv nth_append)
  have "holds_in (with_vars I env) (VAR (j + i) BOOL_SORT) = bit k i" if "i < n" for i
    using that nth [OF that] by (simp add: holds_in_def with_vars_def assms(2,3) VBv)
  then have "map (holds_in (with_vars I env)) (map (\<lambda>i. VAR (j + i) BOOL_SORT) [0..<n]) = map (bit k) [0..<n]"
    by (simp add: comp_def)
  then have "unsigned_in (with_vars I env) (map (\<lambda>i. VAR (j + i) BOOL_SORT) [0..<n]) = k"
    using bval_proper [of n k] assms(1) VBv by (simp only: unsigned_in_def)
  then have "eval (with_vars I env) (bind (sort_of_val v) j) = in_bv n (int k)" by (simp add: VBv bind_def eval_mkbv)
  also have "\<dots> = v" using assms(1) by (simp add: VBv proper_val_def in_bv_def nat_mod_as_int zmod_int)
  finally show ?thesis .
qed (use assms in \<open>auto simp: bind_def with_vars_def nth_append proper_val_def\<close>)

lemma blast_env_split:
  assumes "p < length vs"
  shows "blast_env vs = blast_env (drop (Suc p) vs) @ rev (blast_val (vs ! p)) @ blast_env (take p vs)"
proof -
  have "vs = (take p vs @ [vs ! p]) @ drop (Suc p) vs" using id_take_nth_drop [OF assms] by simp
  then have "blast_env vs = blast_env ((take p vs @ [vs ! p]) @ drop (Suc p) vs)" by (rule arg_cong)
  also have "\<dots> = blast_env (drop (Suc p) vs) @ rev (blast_val (vs ! p)) @ blast_env (take p vs)"
    by (simp only: blast_env_append [of "take p vs @ [vs ! p]"] blast_env_snoc)
  finally show ?thesis .
qed

lemma reduce_var_bind:
  assumes "bindings_inv ss st" "i < length ss"
  shows "reduce_var st i s = Some (bind (rev ss ! i) (sum_list (map num_new (drop (length ss - i) ss))))"
proof -
  let ?p = "length ss - i - 1"
  have p: "?p < length ss" "Suc ?p = length ss - i" "rev ss ! i = ss ! ?p" using assms(2) by (auto simp: rev_nth)
  from assms(1) p(1) obtain j where j: "m_bindings st ! ?p = bind (ss ! ?p) j"
    "j + (last (m_shifts st) - m_shifts st ! ?p) = sum_list (map num_new (drop (Suc ?p) ss))"
    unfolding bindings_inv_def by blast
  have "m_blast_quant st" "length (m_bindings st) = length ss" "m_bindings st \<noteq> []"
    using assms by (auto simp: bindings_inv_def)
  then have "reduce_var st i s = Some (bind (ss ! ?p) (j + (last (m_shifts st) - m_shifts st ! ?p)))"
    using assms(2) j(1) by (simp add: reduce_var_def Let_def shift_bind)
  then show ?thesis using j(2) p(2,3) by simp
qed

lemma reduce_var_bound:
  assumes "bindings_inv (map sort_of_val vs) st" "list_all proper_val vs" "i < length vs"
  obtains r where "reduce_var st i s = Some r" "well_sorted r" "get_sort r = sort_of_val (env_of vs ! i)"
    "\<And>I. eval (with_vars I (blast_env vs)) r = env_of vs ! i"
proof
  let ?p = "length vs - i - 1"
  let ?v = "vs ! ?p" and ?j = "length (blast_env (drop (Suc ?p) vs))"
  have p: "?p < length vs" "Suc ?p = length vs - i" using assms(3) by auto
  have v: "env_of vs ! i = ?v" "rev (map sort_of_val vs) ! i = sort_of_val ?v" using assms(3) by (simp_all add: env_of_def rev_nth)
  have "sum_list (map num_new (drop (length vs - i) (map sort_of_val vs))) = ?j"
    using p(2) by (simp add: length_blast_env drop_map comp_def)
  then show "reduce_var st i s = Some (bind (sort_of_val ?v) ?j)"
    using reduce_var_bind [OF assms(1), of i s] assms(3) v(2) by simp
  have "proper_val ?v" using assms(2) p(1) by (simp add: list_all_length)
  then show "eval (with_vars I (blast_env vs)) (bind (sort_of_val ?v) ?j) = env_of vs ! i" for I
    unfolding v(1) by (rule eval_bind [OF _ blast_env_split [OF p(1)] refl])
  show "well_sorted (bind (sort_of_val ?v) ?j)" "get_sort (bind (sort_of_val ?v) ?j) = sort_of_val (env_of vs ! i)"
    unfolding v(1) by (cases ?v; auto simp: bind_def mk_mkbv_def list_all_iff sig_ok_def bv_sig_ok_def get_range_def range_simps)+
qed

text \<open>
  A variable that no quantifier binds is moved by the number of new variables on top of its old
  index, which still counts the old bound variables: what it is rewritten to denotes another
  variable of the context, later by the number of bound variables.
\<close>

lemma reduce_var_free:
  assumes "bindings_inv (map sort_of_val vs) st" "blast_env vs \<noteq> []" "length vs \<le> i"
  shows "\<exists>r. reduce_var st i s = Some r \<and> eval (with_vars I (blast_env vs)) r = eval I (VAR i s) \<and>
    eval (with_vars I (env_of vs)) (VAR i s) = eval I (VAR (i - length vs) s)"
proof -
  let ?n = "length (blast_env vs)"
  have "vs \<noteq> []" using assms(2) by auto
  then have "last (m_shifts st) = ?n" "m_bindings st \<noteq> []" "length (m_bindings st) = length vs" "m_blast_quant st"
    using assms(1) by (auto simp: bindings_inv_def length_blast_env)
  then have "reduce_var st i s = Some (VAR (i + ?n) s)"
    using assms(2,3) by (simp add: reduce_var_def Let_def)
  with assms(3) show ?thesis by (simp add: with_vars_def env_of_def)
qed

section \<open>Values of declarations\<close>

definition decl_vals :: "srt list \<Rightarrow> val list \<Rightarrow> bool" where
  "decl_vals ss vs \<longleftrightarrow> map sort_of_val vs = ss \<and> list_all proper_val vs"

definition blast_sorts :: "srt list \<Rightarrow> srt list" where
  "blast_sorts ss = concat (map (\<lambda>s. if is_bv_sort s then replicate (srt_width s) BOOL_SORT else [s]) ss)"

lemma decl_vals_Cons: "decl_vals (s # ss) vs \<longleftrightarrow> (\<exists>w ws. vs = w # ws \<and> sort_of_val w = s \<and> proper_val w \<and> decl_vals ss ws)"
  by (cases vs) (auto simp: decl_vals_def)

lemma decl_vals_append: "decl_vals (ss @ ts) ws \<longleftrightarrow> (\<exists>us vs. ws = us @ vs \<and> decl_vals ss us \<and> decl_vals ts vs)"
  by (fastforce simp: decl_vals_def map_eq_append_conv)

lemma proper_VBool [simp]: "proper_val (VBool b)"
  by (simp add: proper_val_def)

lemma decl_vals_bools: "decl_vals (replicate n BOOL_SORT) ws \<longleftrightarrow> (\<exists>bs. length bs = n \<and> ws = map VBool bs)"
proof
  assume a: "decl_vals (replicate n BOOL_SORT) ws"
  have "w = VBool (truth w)" if "w \<in> set ws" for w
  proof -
    have "sort_of_val w \<in> set (replicate n BOOL_SORT)" using a that by (metis decl_vals_def image_eqI set_map)
    then show ?thesis by (cases w) auto
  qed
  then have "ws = map VBool (map truth ws)" by (simp add: list_eq_iff_nth_eq)
  moreover have "length ws = n" using a by (metis decl_vals_def length_map length_replicate)
  ultimately show "\<exists>bs. length bs = n \<and> ws = map VBool bs" by (intro exI [of _ "map truth ws"]) simp
qed (auto simp: decl_vals_def list_all_iff map_replicate_const [symmetric] comp_def)

lemma blast_val_onto:
  assumes "decl_vals (blast_sorts [s]) ws"
  shows "\<exists>v. sort_of_val v = s \<and> proper_val v \<and> blast_val v = ws"
proof (cases "is_bv_sort s")
  case True
  then obtain n where s: "s = BV_SORT n" by (auto simp: is_bv_sort_iff)
  with assms obtain bs where bs: "length bs = n" "ws = map VBool bs" by (auto simp: blast_sorts_def decl_vals_bools)
  have b: "bit (bval (rev bs)) i = rev bs ! i" if "i < n" for i
    using that bs(1) by (simp add: bit_bval)
  have "map (\<lambda>i. VBool (bit (bval (rev bs)) i)) [0..<n] = rev ws"
    using b bs by (intro nth_equalityI) (simp_all add: rev_map [symmetric] rev_nth)
  moreover have "bval (rev bs) < 2 ^ n" using bval_less [of "rev bs"] bs(1) by simp
  ultimately show ?thesis
    by (intro exI [of _ "VBv n (bval (rev bs))"]) (simp add: s proper_val_def)
next
  case False
  with assms obtain w where w: "ws = [w]" "sort_of_val w = s" "proper_val w" by (auto simp: blast_sorts_def decl_vals_def)
  with False have "blast_val w = ws" by (cases w) auto
  with w show ?thesis by blast
qed

lemma blast_val_sorts: "proper_val v \<Longrightarrow> decl_vals (blast_sorts [sort_of_val v]) (blast_val v)"
  by (cases v) (auto simp: blast_sorts_def decl_vals_def list_all_iff map_replicate_const comp_def rev_map)

lemma blast_sorts_Cons: "blast_sorts (s # ss) = blast_sorts [s] @ blast_sorts ss"
  by (simp add: blast_sorts_def)

text \<open>The values of the new declarations are those that the values of the old ones are blasted to.\<close>

lemma decl_vals_blast: "decl_vals (blast_sorts ss) ws \<longleftrightarrow> (\<exists>vs. decl_vals ss vs \<and> ws = concat (map blast_val vs))"
proof (induction ss arbitrary: ws)
  case Nil
  then show ?case by (auto simp: decl_vals_def blast_sorts_def)
next
  case (Cons s ss)
  show ?case
    unfolding blast_sorts_Cons [of s ss] decl_vals_append Cons.IH decl_vals_Cons
    using blast_val_onto [of s] blast_val_sorts by fastforce
qed

end
