(* ===== verification/Blaster_Sound.thy ===== *)
theory Blaster_Sound
  imports Blaster_Bindings
begin

text \<open>
  The bit-blasting rewriter as a whole. Its state only grows by constants, which are the steps
  of the relation \<open>blasts\<close>; the states it can be in are \<open>reachable\<close>, with an invariant
  by rule induction. A rewritten term has in every interpretation the value of the original one
  when its constants are read off their bits, and assertions are satisfiable exactly if the
  rewritten ones are.
\<close>

section \<open>States\<close>

inductive blasts :: "blaster_state \<Rightarrow> blaster_state \<Rightarrow> bool" where
  blasts_refl: "blasts st st"
| blasts_step: "blasts st st1 \<Longrightarrow> is_bv_const f [] \<Longrightarrow> blasts st (snd (mk_const f st1))"

lemma blasts_trans: "blasts st1 st2 \<Longrightarrow> blasts st0 st1 \<Longrightarrow> blasts st0 st2"
  by (induction rule: blasts.induct) (auto intro: blasts_step)

lemma reduce_app_blasts:
  "reduce_app C f args st = Inr (res, st') \<Longrightarrow> blasts st st'"
proof (cases "is_bv_const f args")
  case True
  assume "reduce_app C f args st = Inr (res, st')"
  with reduce_app_const [OF True, of C st] True have "st' = snd (mk_const f st)" "is_bv_const f []"
    by (auto simp: is_bv_const_def map_prod_def split_def)
  then show ?thesis using blasts_step [OF blasts_refl] by simp
next
  case False
  assume "reduce_app C f args st = Inr (res, st')"
  with False have "st' = st"
    by (cases f; cases "reduce_bv_op C st (case f of BV_OP opr \<Rightarrow> opr) args") (auto simp: reduce_app_def is_bv_const_def split: if_splits)
  then show ?thesis by (simp add: blasts_refl)
qed

lemma rewrite_blasts:
  "rewrite C pg e st = Inr (r, st') \<Longrightarrow> blasts st st'"
  "rewrite_args C pg es st = Inr (rs, st') \<Longrightarrow> blasts st st'"
  unfolding rewrite_def rewrite_args_def
  by (rule rewriter_keeps [where R = blasts]; auto intro: blasts_refl blasts_trans reduce_app_blasts)+

subsection \<open>Invariant\<close>

definition bit_name :: "nat \<Rightarrow> func_decl" where
  "bit_name k = UNINTERPRETED k BOOL_SORT"

fun bit_decl :: "expr \<Rightarrow> func_decl" where
  "bit_decl (APP d as) = d"
| "bit_decl (VAR i s) = OP_TRUE"

definition bit_decls :: "expr \<Rightarrow> func_decl list" where
  "bit_decls r = map bit_decl (get_args r)"

definition bits_of_const :: "func_decl \<Rightarrow> expr \<Rightarrow> bool" where
  \<comment> \<open>a constant is translated to as many boolean constants as it is wide\<close>
  "bits_of_const f r \<longleftrightarrow> (\<exists>g n ks. f = UNINTERPRETED g (BV_SORT n) \<and> length ks = n \<and>
     r = mk_mkbv (map (\<lambda>k. APP (bit_name k) []) ks))"

definition table_inv :: "blaster_state \<Rightarrow> bool" where
  "table_inv st \<longleftrightarrow> distinct (m_keys st) \<and> list_all2 bits_of_const (m_keys st) (m_values st) \<and>
     m_const2bits st = map_of (zip (m_keys st) (m_values st))"

definition newbits_inv :: "nat \<Rightarrow> blaster_state \<Rightarrow> bool" where
  "newbits_inv lo st \<longleftrightarrow> lo \<le> m_fresh_id st \<and> distinct (m_newbits st) \<and>
     m_newbits st = concat (map bit_decls (m_values st)) \<and> set (m_newbits st) \<subseteq> bit_name ` {lo..<m_fresh_id st}"

definition scopes_inv :: "blaster_state \<Rightarrow> bool" where
  "scopes_inv st \<longleftrightarrow> sorted (m_keyval_lim st) \<and> list_all (\<lambda>l. l \<le> length (m_keys st)) (m_keyval_lim st) \<and>
     m_newbits_lim st = map (\<lambda>l. length (concat (map bit_decls (take l (m_values st))))) (m_keyval_lim st)"

definition blaster_inv :: "nat \<Rightarrow> blaster_state \<Rightarrow> bool" where
  "blaster_inv lo st \<longleftrightarrow> table_inv st \<and> newbits_inv lo st \<and> scopes_inv st"

lemmas inv_defs = blaster_inv_def table_inv_def newbits_inv_def scopes_inv_def

lemma bit_name_eq [simp]: "bit_name k = bit_name l \<longleftrightarrow> k = l"
  by (simp add: bit_name_def)

lemma bit_decls_mkbv [simp]: "bit_decls (mk_mkbv (map (\<lambda>k. APP (bit_name k) []) ks)) = map bit_name ks"
  by (simp add: bit_decls_def mk_mkbv_def)

lemma table_inv_dom: "table_inv st \<Longrightarrow> dom (m_const2bits st) = set (m_keys st)"
  using dom_map_of_zip [of "m_keys st" "m_values st"] by (simp add: table_inv_def list_all2_conv_all_nth)

lemma map_of_zip_snoc:
  "length ks = length vs \<Longrightarrow> k \<notin> set ks \<Longrightarrow> map_of (zip (ks @ [k]) (vs @ [v])) = (map_of (zip ks vs))(k \<mapsto> v)"
  by (induction ks vs rule: list_induct2) auto

lemma mk_const_old: "m_const2bits st f = Some r \<Longrightarrow> mk_const f st = (r, st)"
  by (simp add: mk_const_def)

lemma mk_const_new:
  assumes "m_const2bits st (UNINTERPRETED g (BV_SORT n)) = None"
  defines "r \<equiv> mk_mkbv (map (\<lambda>k. APP (bit_name k) []) [m_fresh_id st..<m_fresh_id st + n])"
  shows "mk_const (UNINTERPRETED g (BV_SORT n)) st = (r, st\<lparr>m_const2bits := (m_const2bits st)(UNINTERPRETED g (BV_SORT n) \<mapsto> r),
    m_keys := m_keys st @ [UNINTERPRETED g (BV_SORT n)], m_values := m_values st @ [r],
    m_newbits := m_newbits st @ map bit_name [m_fresh_id st..<m_fresh_id st + n], m_fresh_id := m_fresh_id st + n\<rparr>)"
proof -
  have "map (\<lambda>i. UNINTERPRETED (m_fresh_id st + i) BOOL_SORT) [0..<n] = map bit_name [m_fresh_id st..<m_fresh_id st + n]"
    "map (\<lambda>i. APP (UNINTERPRETED (m_fresh_id st + i) BOOL_SORT) []) [0..<n] =
      map (\<lambda>k. APP (bit_name k) []) [m_fresh_id st..<m_fresh_id st + n]"
    by (intro nth_equalityI; simp add: bit_name_def)+
  then show ?thesis
    using assms(1) by (simp add: mk_const_def get_range_def Let_def r_def comp_def)
qed

lemma mk_const_inv:
  assumes "blaster_inv lo st" "is_bv_const f []"
  shows "blaster_inv lo (snd (mk_const f st))"
proof -
  obtain g n where f: "f = UNINTERPRETED g (BV_SORT n)" using assms(2) by (auto simp: is_bv_const_iff)
  show ?thesis
  proof (cases "m_const2bits st f")
    case (Some r)
    with assms(1) show ?thesis by (simp add: mk_const_old)
  next
    case None
    let ?r = "mk_mkbv (map (\<lambda>k. APP (bit_name k) []) [m_fresh_id st..<m_fresh_id st + n])"
    let ?st' = "snd (mk_const f st)"
    note new = mk_const_new [OF None [unfolded f], folded f]
    have len: "length (m_keys st) = length (m_values st)" using assms(1) by (auto simp: inv_defs list_all2_lengthD)
    have nf: "f \<notin> set (m_keys st)" using table_inv_dom [of st] assms(1) None by (auto simp: blaster_inv_def)
    have "bits_of_const f ?r" unfolding bits_of_const_def f by (intro exI conjI) (rule refl, simp_all)
    with nf len assms(1) None have "table_inv ?st'"
      using map_of_zip_snoc [OF len nf, of ?r] by (simp add: new inv_defs list_all2_appendI)
    moreover have "newbits_inv lo ?st'"
    proof -
      have N: "lo \<le> m_fresh_id st" "distinct (m_newbits st)" "m_newbits st = concat (map bit_decls (m_values st))"
        and sub: "set (m_newbits st) \<subseteq> bit_name ` {lo..<m_fresh_id st}"
        using assms(1) unfolding inv_defs by blast+
      have "set (m_newbits st) \<inter> bit_name ` {m_fresh_id st..<m_fresh_id st + n} = {}" using sub by auto
      moreover have "set (m_newbits st) \<subseteq> bit_name ` {lo..<m_fresh_id st + n}" using sub by (rule order_trans) auto
      moreover have "concat (map bit_decls (m_values st @ [?r])) = m_newbits st @ map bit_name [m_fresh_id st..<m_fresh_id st + n]"
        by (simp add: N(3))
      ultimately show ?thesis
        using N(1,2) by (auto simp: new newbits_inv_def distinct_map inj_on_def simp del: concat_append map_append)
    qed
    moreover have "scopes_inv ?st'"
      using assms(1) len by (auto simp: new inv_defs list_all_iff)
    ultimately show ?thesis using assms(1) by (simp add: blaster_inv_def)
  qed
qed

lemma start_rewrite_inv [simp]: "blaster_inv lo (start_rewrite st) = blaster_inv lo st"
  by (simp add: inv_defs start_rewrite_def)

lemma updt_params_inv [simp]: "blaster_inv lo (updt_blaster_params p st) = blaster_inv lo st"
  by (simp add: inv_defs updt_blaster_params_def)

lemma push_inv:
  assumes "blaster_inv lo st"
  shows "blaster_inv lo (push st)"
proof -
  have "table_inv (push st) = table_inv st" "newbits_inv lo (push st) = newbits_inv lo st"
    by (simp_all add: table_inv_def newbits_inv_def push_def)
  moreover have "scopes_inv (push st)"
    using assms
    by (auto simp: blaster_inv_def table_inv_def scopes_inv_def newbits_inv_def push_def sorted_append list_all_iff list_all2_conv_all_nth)
  ultimately show ?thesis using assms by (simp add: blaster_inv_def)
qed

lemma remove_keys: "foldl (\<lambda>m f. m(f := None)) m ks f = (if f \<in> set ks then None else m f)"
  by (induction ks arbitrary: m) auto

lemma pop_table:
  assumes "table_inv st"
  shows "foldl (\<lambda>m f. m(f := None)) (m_const2bits st) (rev (drop l (m_keys st))) = map_of (zip (take l (m_keys st)) (take l (m_values st)))"
proof
  fix f
  have z: "zip (m_keys st) (m_values st) = zip (take l (m_keys st)) (take l (m_values st)) @ zip (drop l (m_keys st)) (drop l (m_values st))"
    using assms by (metis append_take_drop_id list_all2_lengthD length_take table_inv_def zip_append)
  have d: "set (take l (m_keys st)) \<inter> set (drop l (m_keys st)) = {}"
    using assms by (simp add: table_inv_def set_take_disj_set_drop_if_distinct)
  show "foldl (\<lambda>m f. m(f := None)) (m_const2bits st) (rev (drop l (m_keys st))) f = map_of (zip (take l (m_keys st)) (take l (m_values st))) f"
  proof (cases "f \<in> set (drop l (m_keys st))")
    case True
    then have "f \<notin> set (take l (m_keys st))" using d by blast
    then have "map_of (zip (take l (m_keys st)) (take l (m_values st))) f = None"
      by (auto simp: map_of_eq_None_iff dest: set_zip_leftD)
    with True show ?thesis by (simp add: remove_keys)
  next
    case False
    then have "map_of (zip (drop l (m_keys st)) (drop l (m_values st))) f = None"
      by (auto simp: map_of_eq_None_iff dest: set_zip_leftD)
    with False assms show ?thesis by (simp add: remove_keys table_inv_def z map_add_def split: option.split)
  qed
qed

lemma pop_eq:
  assumes "blaster_inv lo st" "0 < k" "k \<le> get_num_scopes st"
  defines "s \<equiv> get_num_scopes st - k"
  defines "l \<equiv> m_keyval_lim st ! s"
  shows "pop k st = st\<lparr>m_const2bits := map_of (zip (take l (m_keys st)) (take l (m_values st))),
      m_keys := take l (m_keys st), m_values := take l (m_values st), m_keyval_lim := take s (m_keyval_lim st),
      m_newbits := concat (map bit_decls (take l (m_values st))), m_newbits_lim := take s (m_newbits_lim st)\<rparr>"
    "l \<le> length (m_keys st)" "list_all (\<lambda>l'. l' \<le> l) (take s (m_keyval_lim st))"
proof -
  have s: "s < length (m_keyval_lim st)" using assms(2,3) by (simp add: s_def get_num_scopes_def)
  then show "l \<le> length (m_keys st)" using assms(1) by (simp add: inv_defs l_def list_all_length)
  show "list_all (\<lambda>l'. l' \<le> l) (take s (m_keyval_lim st))"
    using s assms(1) by (auto simp: inv_defs l_def list_all_length sorted_iff_nth_mono)
  have lim: "m_newbits_lim st ! s = length (concat (map bit_decls (take l (m_values st))))"
    using s assms(1) by (simp add: inv_defs l_def)
  have "concat (map bit_decls (m_values st)) = concat (map bit_decls (take l (m_values st))) @ concat (map bit_decls (drop l (m_values st)))"
    by (metis append_take_drop_id concat_append map_append)
  then have "take (m_newbits_lim st ! s) (m_newbits st) = concat (map bit_decls (take l (m_values st)))"
    using assms(1) lim by (simp add: inv_defs)
  then show "pop k st = st\<lparr>m_const2bits := map_of (zip (take l (m_keys st)) (take l (m_values st))),
      m_keys := take l (m_keys st), m_values := take l (m_values st), m_keyval_lim := take s (m_keyval_lim st),
      m_newbits := concat (map bit_decls (take l (m_values st))), m_newbits_lim := take s (m_newbits_lim st)\<rparr>"
    using assms(1,2) pop_table [of st l] by (simp add: pop_def Let_def blaster_inv_def l_def s_def get_num_scopes_def)
qed

lemma pop_inv:
  assumes "blaster_inv lo st" "k \<le> get_num_scopes st"
  shows "blaster_inv lo (pop k st)"
proof (cases "k = 0")
  case True
  with assms(1) show ?thesis by (simp add: pop_def)
next
  case False
  define s where "s = get_num_scopes st - k"
  define l where "l = m_keyval_lim st ! s"
  note e = pop_eq [OF assms(1) _ assms(2), folded s_def, folded l_def]
  have p: "0 < k" using False by simp
  have T: "table_inv st" and N: "newbits_inv lo st" and S: "scopes_inv st" using assms(1) by (simp_all add: blaster_inv_def)
  have "table_inv (pop k st)" using T by (simp add: e(1) [OF p] table_inv_def list_all2_takeI)
  moreover have "newbits_inv lo (pop k st)"
  proof -
    have c: "m_newbits st = concat (map bit_decls (take l (m_values st))) @ concat (map bit_decls (drop l (m_values st)))"
      using N by (metis newbits_inv_def append_take_drop_id concat_append map_append)
    have "distinct (m_newbits st)" "set (m_newbits st) \<subseteq> bit_name ` {lo..<m_fresh_id st}" "lo \<le> m_fresh_id st"
      using N unfolding newbits_inv_def by blast+
    then show ?thesis unfolding c by (simp add: e(1) [OF p] newbits_inv_def)
  qed
  moreover have "scopes_inv (pop k st)"
    using S e(2,3) [OF p] T
    by (auto simp: e(1) [OF p] scopes_inv_def take_map sorted_wrt_take min_def list_all_iff)
  ultimately show ?thesis by (simp add: blaster_inv_def)
qed

inductive reachable :: "nat \<Rightarrow> blaster_state \<Rightarrow> bool" for lo where
  reach_init: "reachable lo (blaster_rewriter_cfg p lo)"
| reach_const: "reachable lo st \<Longrightarrow> is_bv_const f [] \<Longrightarrow> reachable lo (snd (mk_const f st))"
| reach_push: "reachable lo st \<Longrightarrow> reachable lo (push st)"
| reach_pop: "reachable lo st \<Longrightarrow> k \<le> get_num_scopes st \<Longrightarrow> reachable lo (pop k st)"
| reach_start: "reachable lo st \<Longrightarrow> reachable lo (start_rewrite st)"
| reach_params: "reachable lo st \<Longrightarrow> reachable lo (updt_blaster_params p st)"

lemma reachable_inv: "reachable lo st \<Longrightarrow> blaster_inv lo st"
proof (induction rule: reachable.induct)
  case (reach_init p)
  then show ?case by (simp add: inv_defs blaster_rewriter_cfg_def updt_blaster_params_def)
qed (simp_all add: mk_const_inv push_inv pop_inv)

lemma blasts_inv: "blasts st st' \<Longrightarrow> blaster_inv lo st \<Longrightarrow> blaster_inv lo st'"
  by (induction rule: blasts.induct) (auto intro: mk_const_inv)

lemma blasts_grows:
  "blasts st st' \<Longrightarrow> \<exists>m ks vs nb fid. st' = st\<lparr>m_const2bits := m, m_keys := m_keys st @ ks, m_values := m_values st @ vs,
     m_newbits := nb, m_fresh_id := fid\<rparr> \<and> m_fresh_id st \<le> fid"
proof (induction rule: blasts.induct)
  case (blasts_refl st)
  show ?case
    by (rule exI [of _ "m_const2bits st"], rule exI [of _ "[]"], rule exI [of _ "[]"], rule exI [of _ "m_newbits st"],
        rule exI [of _ "m_fresh_id st"]) simp
next
  case (blasts_step st st1 f)
  then obtain m ks vs nb fid where 1: "st1 = st\<lparr>m_const2bits := m, m_keys := m_keys st @ ks, m_values := m_values st @ vs,
     m_newbits := nb, m_fresh_id := fid\<rparr>" "m_fresh_id st \<le> fid" by blast
  show ?case
  proof (cases "m f")
    case None
    obtain r n ds where "snd (mk_const f st1) = st1\<lparr>m_const2bits := m(f \<mapsto> r), m_keys := m_keys st1 @ [f], m_values := m_values st1 @ [r],
        m_newbits := nb @ ds, m_fresh_id := fid + n\<rparr>"
      using None 1(1) by (simp add: mk_const_def Let_def)
    with 1 show ?thesis by (intro exI [of _ "ks @ [f]"] exI [of _ "vs @ [r]"] exI conjI) (simp, simp)
  next
    case (Some r)
    then have "snd (mk_const f st1) = st1" by (simp add: mk_const_old 1(1))
    with blasts_step.IH show ?thesis by simp
  qed
qed

section \<open>Values\<close>

text \<open>The interpretation of the original constants that an interpretation of the bits gives.\<close>

definition decode :: "(func_decl \<rightharpoonup> expr) \<Rightarrow> interp \<Rightarrow> interp" where
  "decode m I = I\<lparr>i_fun := \<lambda>g s vs.
     case if vs = [] then m (UNINTERPRETED g s) else None of None \<Rightarrow> i_fun I g s vs | Some r \<Rightarrow> bv_nat (eval I r)\<rparr>"

definition table_ok :: "(func_decl \<rightharpoonup> expr) \<Rightarrow> bool" where
  "table_ok m \<longleftrightarrow> (\<forall>f r. m f = Some r \<longrightarrow> (\<exists>g n. f = UNINTERPRETED g (BV_SORT n) \<and> bv_vec n r))"

lemma bits_of_const_vec: "bits_of_const f r \<Longrightarrow> \<exists>g n. f = UNINTERPRETED g (BV_SORT n) \<and> bv_vec n r"
  by (auto simp: bits_of_const_def bv_vec_def mk_mkbv_def bit_name_def list_all_iff sig_ok_def bv_sig_ok_def get_range_def range_simps)

lemma table_inv_ok: "table_inv st \<Longrightarrow> table_ok (m_const2bits st)"
  unfolding table_ok_def table_inv_def
  by (auto simp: list_all2_iff dest!: map_of_SomeD bits_of_const_vec)

lemma decode_const:
  assumes "table_ok m" "m f = Some r"
  shows "eval (decode m I) (APP f []) = eval I r"
proof -
  obtain g n where f: "f = UNINTERPRETED g (BV_SORT n)" "bv_vec n r" using assms unfolding table_ok_def by blast
  with assms(2) bv_value [of r n I] show ?thesis by (auto simp: decode_def bv_vec_def)
qed

lemma decode_app:
  assumes "table_ok m" "\<not> is_bv_const f args"
  shows "apply_decl (decode m I) f (map v args) = apply_decl I f (map v args)"
proof (cases f)
  case (UNINTERPRETED g s)
  with assms show ?thesis
    by (cases "m f") (auto simp: decode_def table_ok_def is_bv_const_iff)
qed simp_all

lemma with_vars_fun [simp]: "i_fun (with_vars I env) = i_fun I"
  by (simp add: with_vars_def)

lemma with_vars_app [simp]: "apply_decl (with_vars I env) f vs = apply_decl I f vs"
  by (cases f) (simp_all add: with_vars_def)

lemma with_vars_var_cong: "i_var I = i_var J \<Longrightarrow> eval (with_vars I env) (VAR i s) = eval (with_vars J env) (VAR i s)"
  by (simp add: with_vars_def)

lemma decode_i_var [simp]: "i_var (decode m I) = i_var I"
  by (simp add: decode_def)

lemma mk_const_le: "m_const2bits st \<subseteq>\<^sub>m m_const2bits (snd (mk_const f st))"
  by (auto simp: mk_const_def Let_def map_le_def split: option.split)

lemma blasts_le: "blasts st st' \<Longrightarrow> m_const2bits st \<subseteq>\<^sub>m m_const2bits st'"
  by (induction rule: blasts.induct) (auto intro: map_le_trans mk_const_le)

lemma mk_const_result: "m_const2bits (snd (mk_const f st)) f = Some (fst (mk_const f st))"
  by (auto simp: mk_const_def Let_def split: option.split)

text \<open>
  What a term is rewritten to, in the state after it and below quantifiers whose variables have
  the values \<open>vs\<close>; without quantifiers \<open>vs\<close> is empty. The value stays that of the term when
  further constants are translated later, although not all constants of the term need to be
  in the table: those of a branch that is folded away are not.
\<close>

definition rewritten :: "val list \<Rightarrow> blaster_state \<Rightarrow> expr \<Rightarrow> expr \<Rightarrow> bool" where
  "rewritten vs st e r \<longleftrightarrow> well_sorted r \<and> get_sort r = get_sort e \<and>
     (\<forall>m I. table_ok m \<longrightarrow> m_const2bits st \<subseteq>\<^sub>m m \<longrightarrow>
        eval (with_vars I (blast_env vs)) r = eval (with_vars (decode m I) (env_of vs)) e)"

lemma rewrittenD:
  assumes "rewritten vs st e r"
  shows "well_sorted r" "get_sort r = get_sort e"
    "table_ok m \<Longrightarrow> m_const2bits st \<subseteq>\<^sub>m m \<Longrightarrow> eval (with_vars I (blast_env vs)) r = eval (with_vars (decode m I) (env_of vs)) e"
  using assms by (simp_all add: rewritten_def)

fun in_scope :: "srt list \<Rightarrow> expr \<Rightarrow> bool" where
  "in_scope ss (VAR i s) = (i < length ss \<and> s = rev ss ! i)"
| "in_scope ss (APP f args) = list_all (in_scope ss) args"

definition scope_inv :: "val list \<Rightarrow> blaster_state \<Rightarrow> expr list \<Rightarrow> bool" where
  "scope_inv vs st es \<longleftrightarrow> m_bindings st = [] \<and> vs = [] \<or>
     bindings_inv (map sort_of_val vs) st \<and> list_all proper_val vs \<and> list_all (in_scope (map sort_of_val vs)) es"

lemma with_vars_Nil [simp]: "with_vars I [] = I" "env_of [] = []"
  by (simp_all add: with_vars_def env_of_def)

lemma blasts_bindings:
  "blasts st st' \<Longrightarrow> m_bindings st' = m_bindings st \<and> m_shifts st' = m_shifts st \<and> m_blast_quant st' = m_blast_quant st"
  using blasts_grows [of st st'] by auto

lemma blasts_scope: "blasts st st' \<Longrightarrow> scope_inv vs st es \<Longrightarrow> scope_inv vs st' es"
  using blasts_bindings [of st st'] by (simp add: scope_inv_def bindings_inv_def)

lemma scope_inv_simps:
  "scope_inv vs st [APP f args] = scope_inv vs st args" "scope_inv vs st (e # es) \<longleftrightarrow> scope_inv vs st [e] \<and> scope_inv vs st es"
  by (auto simp: scope_inv_def)

lemma rewritten_now: "rewritten [] st e r \<Longrightarrow> blaster_inv lo st \<Longrightarrow> eval I r = eval (decode (m_const2bits st) I) e"
  using rewrittenD(3) [of "[]" st e r "m_const2bits st" I] by (simp add: blaster_inv_def table_inv_ok blast_env_def)

lemma rewritten_mono: "rewritten vs st e r \<Longrightarrow> blasts st st' \<Longrightarrow> rewritten vs st' e r"
  using map_le_trans blasts_le unfolding rewritten_def by blast

lemma rewritten_const:
  assumes "blaster_inv lo st" "is_bv_const f []"
  shows "rewritten vs (snd (mk_const f st)) (APP f []) (fst (mk_const f st))"
proof -
  let ?st' = "snd (mk_const f st)" and ?r = "fst (mk_const f st)"
  have T: "table_inv ?st'" using mk_const_inv [OF assms] by (simp add: blaster_inv_def)
  note m = mk_const_result [of f st]
  have b: "bits_of_const f ?r" using T m by (auto simp: table_inv_def list_all2_iff dest!: map_of_SomeD)
  then have "eval (with_vars I env) ?r = eval I ?r" for I env
    by (auto simp: bits_of_const_def mk_mkbv_def comp_def)
  moreover have "eval (decode m' I) (APP f []) = eval I ?r" if "table_ok m'" "m_const2bits ?st' \<subseteq>\<^sub>m m'" for m' I
  proof (rule decode_const [OF that(1)])
    show "m' f = Some ?r" using m that(2) by (auto simp: map_le_def dom_def)
  qed
  moreover obtain g n where "f = UNINTERPRETED g (BV_SORT n)" "bv_vec n ?r" using bits_of_const_vec b by blast
  ultimately show ?thesis by (auto simp: rewritten_def bv_vec_def get_range_def)
qed

lemma rewritten_var:
  assumes "scope_inv vs st [VAR i s]"
  shows "rewritten vs st (VAR i s) (case reduce_var st i s of None \<Rightarrow> VAR i s | Some r \<Rightarrow> r)"
proof (cases "m_bindings st = [] \<and> vs = []")
  case True
  have v: "rewritten [] st (VAR i s) (VAR i s)" by (simp add: rewritten_def)
  have "same_term (VAR i s) (blast_bv_term (VAR i s))" if "is_bv_sort s" using blast_bv_term_same [of "VAR i s"] that by simp
  with True v show ?thesis by (auto simp: reduce_var_def rewritten_def same_term_def)
next
  case False
  with assms have b: "bindings_inv (map sort_of_val vs) st" "list_all proper_val vs" "i < length vs" and s: "s = sort_of_val (env_of vs ! i)"
    by (auto simp: scope_inv_def env_of_def rev_map [symmetric] rev_nth)
  obtain r where r: "reduce_var st i s = Some r" "well_sorted r" "get_sort r = s" "\<And>I. eval (with_vars I (blast_env vs)) r = env_of vs ! i"
    using reduce_var_bound [OF b, of s] s by metis
  have "proper_val (env_of vs ! i)" using b(2,3) by (simp add: env_of_def rev_nth list_all_length)
  then have "eval (with_vars J (env_of vs)) (VAR i s) = env_of vs ! i" for J
    using b(3) s by (intro eval_with_vars) (simp_all add: env_of_def)
  with r show ?thesis by (simp add: rewritten_def)
qed

lemma rewritten_app:
  assumes "list_all2 (rewritten vs st) args new_args" "well_sorted (APP f args)" "\<not> is_bv_const f args"
  shows "rewritten vs st (APP f args) (APP f new_args)"
proof -
  have sorts: "map get_sort new_args = map get_sort args" and ws: "list_all well_sorted new_args"
    using assms(1) by (auto simp: list_all2_conv_all_nth rewritten_def list_all_length intro!: nth_equalityI)
  have "eval (with_vars I (blast_env vs)) (APP f new_args) = eval (with_vars (decode m I) (env_of vs)) (APP f args)"
    if m: "table_ok m" "m_const2bits st \<subseteq>\<^sub>m m" for m I
  proof -
    have "map (eval (with_vars I (blast_env vs))) new_args = map (eval (with_vars (decode m I) (env_of vs))) args"
      using assms(1) m by (auto simp: list_all2_conv_all_nth rewritten_def intro!: nth_equalityI)
    with decode_app [OF m(1) assms(3), of I] show ?thesis by (simp only: eval.simps with_vars_app)
  qed
  moreover have "well_sorted (APP f new_args)" "get_sort (APP f new_args) = get_sort (APP f args)"
    using assms(2) ws sorts by (simp_all only: well_sorted.simps get_sort.simps)
  ultimately show ?thesis unfolding rewritten_def by blast
qed

text \<open>A branch that is left over when the condition has become a constant.\<close>

lemma rewritten_fold:
  assumes "rewritten vs st c r" "r = m_true \<and> b = t \<or> r = m_false \<and> b = e" "rewritten vs st b r'" "well_sorted (APP OP_ITE [c, t, e])"
  shows "rewritten vs st (APP OP_ITE [c, t, e]) r'"
proof -
  have "eval (with_vars (decode m I) (env_of vs)) (APP OP_ITE [c, t, e]) = eval (with_vars (decode m I) (env_of vs)) b"
    if m: "table_ok m" "m_const2bits st \<subseteq>\<^sub>m m" for m I
    using rewrittenD(3) [OF assms(1) m, of I, symmetric] assms(2) by (auto simp: m_true_def m_false_def)
  moreover have "get_sort (APP OP_ITE [c, t, e]) = get_sort b" using assms(2,4) by (auto simp: get_range_def sig_ok_def)
  ultimately show ?thesis using assms(3) unfolding rewritten_def by simp
qed

lemma rewritten_same: "rewritten vs st e r \<Longrightarrow> same_term r r' \<Longrightarrow> rewritten vs st e r'"
  by (simp add: rewritten_def same_term_def)

lemma reduce_app_rewritten:
  assumes "list_all2 (rewritten vs st) args new_args" "well_sorted (APP f args)" "blaster_inv lo st"
    "reduce_app (blaster_cfg rw) f new_args st = Inr (res, st')"
  shows "rewritten vs st' (APP f args) (case res of None \<Rightarrow> APP f new_args | Some r \<Rightarrow> r)"
proof (cases "is_bv_const f args")
  case True
  then have a: "args = []" "new_args = []" using assms(1) by (auto simp: is_bv_const_def)
  with True assms(4) reduce_app_const [of f "[]" "blaster_cfg rw" st] have "res = Some (fst (mk_const f st))" "st' = snd (mk_const f st)"
    by (simp_all add: map_prod_def split_def)
  with rewritten_const [OF assms(3)] True a show ?thesis by simp
next
  case False
  note app = rewritten_app [OF assms(1,2) False]
  have "\<not> is_bv_const f new_args" using False list_all2_lengthD [OF assms(1)] by (auto simp: is_bv_const_def)
  moreover have "well_sorted (APP f new_args)" using app by (simp add: rewritten_def)
  ultimately show ?thesis using reduce_app_same [OF _ _ assms(4)] app rewritten_same by (cases res) auto
qed

lemma rewrite_rewritten:
  "rewrite (blaster_cfg rw) pg e st = Inr (r, st') \<Longrightarrow> well_sorted e \<Longrightarrow> blaster_inv lo st \<Longrightarrow> scope_inv vs st [e] \<Longrightarrow>
     rewritten vs st' e r"
  "rewrite_args (blaster_cfg rw) pg es st = Inr (rs, st') \<Longrightarrow> list_all well_sorted es \<Longrightarrow> blaster_inv lo st \<Longrightarrow> scope_inv vs st es \<Longrightarrow>
     list_all2 (rewritten vs st') es rs"
  unfolding rewrite_def rewrite_args_def
proof (induction e st and es st arbitrary: r st' and rs st' rule: rewriter_induct [where K = "blaster_config (blaster_cfg rw)" and pg = pg])
  case (Var i s st)
  then have "r = (case reduce_var st i s of None \<Rightarrow> VAR i s | Some r \<Rightarrow> r)" "st' = st" by auto
  with Var(4) rewritten_var [of vs st i s] show ?case by simp
next
  case (Fold c t e st r0 b st1)
  have b: "blasts st st1" "blasts st1 st'"
    using rewrite_blasts(1) [unfolded rewrite_def] Fold(2,4,7) by (auto simp: rewriter_tpl_app)
  have sc: "scope_inv vs st [c]" "scope_inv vs st1 [b]" and w: "well_sorted c" "well_sorted b"
    using Fold(3,8,10) blasts_scope [OF b(1)] by (auto simp: scope_inv_simps(1) scope_inv_simps(2) [of vs _ _ "_ # _"])
  have "rewritten vs st1 c r0" using Fold(5) [OF Fold(2) w(1) Fold(9) sc(1)] .
  moreover have "rewritten vs st' b r"
    using Fold(6) [OF _ w(2) blasts_inv [OF b(1) Fold(9)] sc(2)] Fold(4,7) by (simp add: rewriter_tpl_app)
  ultimately show ?case using rewritten_fold [OF rewritten_mono [OF _ b(2)] Fold(3) _ Fold(8)] by blast
next
  case (App f args st)
  then obtain new_args st1 res where *: "rewriter_tpl_args (blaster_config (blaster_cfg rw)) pg args st = Inr (new_args, st1)"
    "reduce_app (blaster_cfg rw) f new_args st1 = Inr (res, st')" "r = (case res of None \<Rightarrow> APP f new_args | Some r \<Rightarrow> r)"
    by (auto simp: rewriter_tpl_app process_app_Inr)
  have "list_all2 (rewritten vs st1) args new_args" using App(2) [OF *(1)] App(4-6) by (simp add: scope_inv_simps(1))
  then show ?case
    using reduce_app_rewritten [OF _ App(4)] *(2,3) blasts_inv [OF rewrite_blasts(2) [unfolded rewrite_args_def, OF *(1)] App(5)] by simp
next
  case (Cons a as st)
  then obtain r0 st1 rs' where *: "rewriter_tpl (blaster_config (blaster_cfg rw)) pg a st = Inr (r0, st1)"
    "rewriter_tpl_args (blaster_config (blaster_cfg rw)) pg as st1 = Inr (rs', st')" "rs = r0 # rs'"
    unfolding rewriter_tpl_args_Cons_Inr by blast
  note b = rewrite_blasts(1) [unfolded rewrite_def, OF *(1)] rewrite_blasts(2) [unfolded rewrite_args_def, OF *(2)]
  have sc: "scope_inv vs st [a]" "scope_inv vs st1 as"
    using Cons(6) blasts_scope [OF b(1)] by (simp_all add: scope_inv_simps(2) [of vs _ a as])
  have "rewritten vs st1 a r0" using Cons(1) [OF *(1)] Cons(4,5) sc by simp
  then have "rewritten vs st' a r0" using rewritten_mono b(2) by blast
  moreover have "list_all2 (rewritten vs st') as rs'" using Cons(2) [OF *(1) *(2)] Cons(4) blasts_inv [OF b(1) Cons(5)] sc by simp
  ultimately show ?case by (simp add: *(3))
qed simp

lemma rewrite_inv: "blaster_inv lo st \<Longrightarrow> rewrite C pg e st = Inr (r, st') \<Longrightarrow> blaster_inv lo st'"
  using blasts_inv rewrite_blasts(1) by blast

section \<open>Models\<close>

text \<open>The other direction: the bits get the values that an interpretation has for the constants.\<close>

definition bit_table :: "blaster_state \<Rightarrow> interp \<Rightarrow> (func_decl \<times> bool) list" where
  "bit_table st I = concat (map (\<lambda>(f, r). zip (bit_decls r) (map (bit (bv_nat (eval I (APP f [])))) [0..<length (bit_decls r)]))
     (zip (m_keys st) (m_values st)))"

definition encode :: "blaster_state \<Rightarrow> interp \<Rightarrow> interp" where
  "encode st I = I\<lparr>i_fun := \<lambda>g s vs.
     case if vs = [] then map_of (bit_table st I) (UNINTERPRETED g s) else None of None \<Rightarrow> i_fun I g s vs | Some b \<Rightarrow> of_bool b\<rparr>"

fun names_below :: "nat \<Rightarrow> expr \<Rightarrow> bool" where
  "names_below lo (VAR i s) = True"
| "names_below lo (APP f args) = (list_all (names_below lo) args \<and> (case f of UNINTERPRETED g s \<Rightarrow> g < lo | _ \<Rightarrow> True))"

lemma bit_table_names:
  assumes "blaster_inv lo st"
  shows "map fst (bit_table st I) = m_newbits st"
proof -
  have "map (\<lambda>(f, r). bit_decls r) (zip ks vs) = map bit_decls vs" if "length ks = length vs" for ks :: "func_decl list" and vs
    using that by (induction ks vs rule: list_induct2) simp_all
  moreover have "length (m_keys st) = length (m_values st)" using assms by (simp add: inv_defs list_all2_conv_all_nth)
  ultimately show ?thesis
    using assms by (simp add: bit_table_def inv_defs map_concat comp_def split_def)
qed

lemma bit_table_lookup:
  assumes "blaster_inv lo st"
  shows "map_of (bit_table st I) d = Some b \<longleftrightarrow> (d, b) \<in> set (bit_table st I)" "map_of (bit_table st I) d = None \<longleftrightarrow> d \<notin> set (m_newbits st)"
proof -
  have "distinct (m_newbits st)" using assms unfolding inv_defs by blast
  then show "map_of (bit_table st I) d = Some b \<longleftrightarrow> (d, b) \<in> set (bit_table st I)"
    by (intro map_of_eq_Some_iff) (simp add: bit_table_names [OF assms])
  show "map_of (bit_table st I) d = None \<longleftrightarrow> d \<notin> set (m_newbits st)"
    using bit_table_names [OF assms, of I] by (metis map_of_eq_None_iff set_map)
qed

lemma encode_const:
  assumes inv: "blaster_inv lo st" and "m_const2bits st f = Some r"
  shows "eval (encode st I) r = eval I (APP f [])"
proof -
  have T: "table_inv st" using inv by (simp add: blaster_inv_def)
  with assms(2) have mem: "(f, r) \<in> set (zip (m_keys st) (m_values st))" by (auto simp: table_inv_def dest: map_of_SomeD)
  with T have "bits_of_const f r" by (auto simp: table_inv_def list_all2_iff)
  then obtain g n ks where f: "f = UNINTERPRETED g (BV_SORT n)" and n: "length ks = n"
    and r: "r = mk_mkbv (map (\<lambda>k. APP (bit_name k) []) ks)" by (auto simp: bits_of_const_def)
  let ?v = "bv_nat (eval I (APP f []))"
  have "(bit_name (ks ! j), bit ?v j) \<in> set (bit_table st I)" if "j < n" for j
  proof -
    have "(bit_name (ks ! j), bit ?v j) \<in> set (zip (bit_decls r) (map (bit ?v) [0..<length (bit_decls r)]))"
      using that n by (auto simp: r set_zip intro!: exI [of _ j])
    then show ?thesis using mem unfolding bit_table_def by force
  qed
  then have "map_of (bit_table st I) (bit_name (ks ! j)) = Some (bit ?v j)" if "j < n" for j
    using that bit_table_lookup(1) [OF inv, of I] by simp
  then have "holds_in (encode st I) (APP (bit_name (ks ! j)) []) = bit ?v j" if "j < n" for j
    using that by (simp add: holds_in_def encode_def bit_name_def)
  then have "map (holds_in (encode st I)) (map (\<lambda>k. APP (bit_name k) []) ks) = map (bit ?v) [0..<n]"
    by (intro nth_equalityI) (simp_all add: n)
  then have "eval (encode st I) r = in_bv n (int (?v mod 2 ^ n))"
    unfolding r eval_mkbv unsigned_in_def by (simp add: n bval_bits)
  also have "\<dots> = eval I (APP f [])" by (simp add: f in_bv_def zmod_int nat_mod_as_int)
  finally show ?thesis .
qed

lemma encode_app:
  assumes "blaster_inv lo st" "\<And>g s. f = UNINTERPRETED g s \<Longrightarrow> g < lo"
  shows "apply_decl (encode st I) f vs = apply_decl I f vs"
proof (cases f)
  case (UNINTERPRETED g s)
  have "set (m_newbits st) \<subseteq> bit_name ` {lo..<m_fresh_id st}" using assms(1) unfolding inv_defs by blast
  with assms(2) UNINTERPRETED have "f \<notin> set (m_newbits st)" by (auto simp: bit_name_def)
  then show ?thesis using bit_table_lookup(2) [OF assms(1), of I f] UNINTERPRETED by (simp add: encode_def)
qed simp_all

lemma decode_other:
  assumes "args = [] \<Longrightarrow> m f = None"
  shows "apply_decl (decode m I) f (map v args) = apply_decl I f (map v args)"
  using assms by (cases f) (auto simp: decode_def)

lemma decode_encode:
  "blaster_inv lo st \<Longrightarrow> names_below lo e \<Longrightarrow> eval (decode (m_const2bits st) (encode st I)) e = eval I e"
proof (induction e)
  case (VAR i s)
  show ?case by (simp add: decode_def encode_def)
next
  case (APP f args)
  have ok: "table_ok (m_const2bits st)" using APP.prems(1) by (simp add: blaster_inv_def table_inv_ok)
  show ?case
  proof (cases "args = [] \<and> f \<in> dom (m_const2bits st)")
    case True
    then obtain r where r: "m_const2bits st f = Some r" and a: "args = []" by auto
    show ?thesis unfolding a using decode_const [OF ok r] encode_const [OF APP.prems(1) r] by metis
  next
    case False
    then have n: "args = [] \<Longrightarrow> m_const2bits st f = None" by auto
    have v: "map (eval (decode (m_const2bits st) (encode st I))) args = map (eval I) args"
      using APP by (auto simp: list_all_iff)
    have "\<And>g s. f = UNINTERPRETED g s \<Longrightarrow> g < lo" using APP.prems(2) by auto
    then show ?thesis
      using decode_other [of args "m_const2bits st" f "encode st I"] n encode_app [OF APP.prems(1), of f I] v by (simp only: eval.simps)
  qed
qed

section \<open>Scopes and errors\<close>

lemma pop_blasts_push:
  assumes "blaster_inv lo st" "blasts (push st) st'"
  shows "pop 1 st' = st\<lparr>m_fresh_id := m_fresh_id st'\<rparr> \<and> m_fresh_id st \<le> m_fresh_id st'"
proof -
  obtain m ks vs nb fid where st': "st' = (push st)\<lparr>m_const2bits := m, m_keys := m_keys st @ ks, m_values := m_values st @ vs,
     m_newbits := nb, m_fresh_id := fid\<rparr>" "m_fresh_id st \<le> fid" using blasts_grows [OF assms(2)] by (auto simp: push_def)
  have len: "length (m_keys st) = length (m_values st)" using assms(1) by (simp add: inv_defs list_all2_conv_all_nth)
  have "blaster_inv lo st'" using blasts_inv [OF assms(2) push_inv [OF assms(1)]] .
  note p = pop_eq(1) [OF this, of 1]
  have "map_of (zip (m_keys st) (m_values st)) = m_const2bits st" "concat (map bit_decls (m_values st)) = m_newbits st"
    "length (m_newbits_lim st) = length (m_keyval_lim st)"
    using assms(1) by (simp_all add: inv_defs)
  then show ?thesis using st' len p by (simp add: push_def get_num_scopes_def nth_append)
qed

definition unsupported_op :: "bool \<Rightarrow> func_decl \<Rightarrow> bool" where
  \<comment> \<open>the operators the rewriter refuses; the simplifier is to remove them before\<close>
  "unsupported_op blast_mul f \<longleftrightarrow> f \<in> set ([OP_CARRY, OP_XOR3] @ map BV_OP [OP_BIT0, OP_BIT1, OP_BNEG, OP_BSUB, OP_UGEQ, OP_SGEQ,
     OP_ULT, OP_SLT, OP_UGT, OP_SGT, OP_BAND, OP_BNAND, OP_BNOR, OP_BXNOR, OP_BCOMP]) \<or>
   (case f of BV_OP (OP_ZERO_EXT k) \<Rightarrow> True | BV_OP (OP_REPEAT k) \<Rightarrow> True | BV_OP (OP_ROTATE_LEFT k) \<Rightarrow> True
      | BV_OP (OP_ROTATE_RIGHT k) \<Rightarrow> True | _ \<Rightarrow> False) \<or>
   blast_mul \<and> f \<in> set (map BV_OP [OP_BSDIV, OP_BUDIV, OP_BSREM, OP_BUREM, OP_BSMOD])"

fun unsupported :: "bool \<Rightarrow> expr \<Rightarrow> bool" where
  "unsupported blast_mul (VAR i s) = False"
| "unsupported blast_mul (APP f args) = (unsupported_op blast_mul f \<or> list_ex (unsupported blast_mul) args)"

lemma unsupported_operators: "unsupported b e \<longleftrightarrow> list_ex (unsupported_op b) (operators e)"
  by (induction e) (auto simp: list_ex_iff)

lemma reduce_app_unsupported: "isl (reduce_app C f args st) \<longleftrightarrow> unsupported_op (m_blast_mul st) f"
proof (cases f)
  case (BV_OP opr)
  then show ?thesis by (cases opr) (simp_all add: reduce_app_def unsupported_op_def reduce_bv_op_def Let_def)
next
  case (UNINTERPRETED g s)
  then show ?thesis by (auto simp: reduce_app_def unsupported_op_def split: prod.split)
qed (auto simp: reduce_app_def unsupported_op_def)

lemma blasts_flags: "blasts st st' \<Longrightarrow> m_blast_mul st' = m_blast_mul st"
  using blasts_grows [of st st'] by auto

lemma reduce_app_flags: "reduce_app C f args st = Inr (x, st') \<Longrightarrow> m_blast_mul st' = m_blast_mul st"
  using reduce_app_blasts blasts_flags by blast

definition reached_ops :: "expr bb_cfg \<Rightarrow> bool \<Rightarrow> expr \<Rightarrow> blaster_state \<Rightarrow> func_decl list" where
  \<comment> \<open>the operators \<open>reduce_app\<close> is asked about, up to the first it fails on\<close>
  "reached_ops C = reached (blaster_config C)"

lemma rewrite_reached: "isl (rewrite C pg e st) \<longleftrightarrow> list_ex (unsupported_op (m_blast_mul st)) (reached_ops C pg e st)"
  unfolding rewrite_def reached_ops_def
  by (rule rewriter_fails(1)) (simp_all add: reduce_app_flags reduce_app_unsupported)

lemma rewrite_args_reached:
  "isl (rewrite_args C pg es st) \<longleftrightarrow> list_ex (unsupported_op (m_blast_mul st)) (reached_args (blaster_config C) pg es st)"
  unfolding rewrite_args_def
  by (rule rewriter_fails(2)) (simp_all add: reduce_app_flags reduce_app_unsupported)

lemma rewrite_proofs: "isl (rewrite C True e st) \<longleftrightarrow> unsupported (m_blast_mul st) e"
  unfolding rewrite_def unsupported_operators
  by (rule rewriter_fails_proofs(1)) (simp_all add: reduce_app_flags reduce_app_unsupported)

lemma rewrite_returns:
  "\<not> unsupported (m_blast_mul st) e \<Longrightarrow> \<exists>r st'. rewrite C pg e st = Inr (r, st')"
  "\<not> list_ex (unsupported (m_blast_mul st)) es \<Longrightarrow> \<exists>rs st'. rewrite_args C pg es st = Inr (rs, st')"
  using rewrite_reached [of C pg e st] reached_operators(1) [of "blaster_config C" pg e st]
    rewrite_args_reached [of C pg es st] reached_operators(2) [of "blaster_config C" pg es st]
  by (cases "rewrite C pg e st"; cases "rewrite_args C pg es st"; fastforce simp: unsupported_operators list_ex_iff reached_ops_def)+

section \<open>The rewriter\<close>

lemma reachable_blasts: "blasts st st' \<Longrightarrow> reachable lo st \<Longrightarrow> reachable lo st'"
  by (induction rule: blasts.induct) (auto intro: reach_const)

lemma reachable_bindings: "reachable lo st \<Longrightarrow> m_bindings st = [] \<and> m_shifts st = []"
proof (induction rule: reachable.induct)
  case (reach_const st f)
  then show ?case using blasts_grows [OF blasts_step [OF blasts_refl reach_const(2)], of st] by auto
qed (simp_all add: blaster_rewriter_cfg_def updt_blaster_params_def push_def pop_def start_rewrite_def Let_def)

lemma reachable_rewritten:
  assumes "reachable lo st" "list_all well_sorted es" "rewrite_args (blaster ids lt) pg es st = Inr (rs, st')"
  shows "list_all2 (rewritten [] st') es rs" "blaster_inv lo st'" "reachable lo st'"
proof -
  obtain rw where rw: "blaster ids lt = blaster_cfg rw" by (simp add: blaster_def)
  note inv = reachable_inv [OF assms(1)]
  have "scope_inv [] st es" using reachable_bindings [OF assms(1)] by (simp add: scope_inv_def)
  then show "list_all2 (rewritten [] st') es rs" by (rule rewrite_rewritten(2) [OF assms(3) [unfolded rw] assms(2) inv])
  show "blaster_inv lo st'" using blasts_inv [OF rewrite_blasts(2) [OF assms(3)] inv] .
  show "reachable lo st'" using reachable_blasts [OF rewrite_blasts(2) [OF assms(3)] assms(1)] .
qed

lemma rewrite_value_raw:
  assumes "reachable lo st" "list_all well_sorted es" "rewrite_args (blaster ids lt) pg es st = Inr (rs, st')"
  shows "map (eval I) rs = map (eval (decode (m_const2bits st') I)) es"
  using reachable_rewritten(1) [OF assms] rewritten_now [OF _ reachable_rewritten(2) [OF assms]]
  by (auto simp: list_all2_conv_all_nth intro!: nth_equalityI)

lemma list_all_map_holds: "list_all (holds_in I) es \<longleftrightarrow> list_all truth (map (eval I) es)"
  by (simp add: list_all_iff holds_in_def)

text \<open>An example: two constants of three bits, an equation between them and a disequality.\<close>

definition demo_const :: "nat \<Rightarrow> expr" where
  "demo_const g = APP (UNINTERPRETED g (BV_SORT 3)) []"

definition demo_assertions :: "expr list" where
  "demo_assertions = [APP OP_EQ [APP OP_BADD [demo_const 0, demo_const 1], APP (OP_BV_NUM 5 3) []],
     APP OP_NOT [APP (BV_OP OP_ULEQ) [demo_const 0, demo_const 1]]]"

definition demo_state :: blaster_state where
  "demo_state = blaster_rewriter_cfg default_blaster_params 2"

lemma demo_facts [simp]:
  "list_all well_sorted demo_assertions" "list_all (names_below 2) demo_assertions"
  "\<not> list_ex (unsupported b) demo_assertions" "reachable 2 demo_state"
  by (simp_all add: demo_assertions_def demo_const_def demo_state_def reach_init sig_ok_def bv_sig_ok_def bv_args_def get_range_def
      range_simps unsupported_op_def)

lemma demo_rewrites: "\<exists>rs st'. rewrite_args (blaster ids lt) pg demo_assertions st = Inr (rs, st')"
  using rewrite_returns(2) demo_facts(3) by blast

text \<open>
  C34. Terms keep their sorts: from every state the rewriter can be in, well-sorted terms are
  rewritten to well-sorted terms of the same sorts, and the state is again one it can be in.
\<close>

theorem rewrite_well_sorted:
  assumes "reachable lo st" "list_all well_sorted es" "rewrite_args (blaster ids lt) pg es st = Inr (rs, st')"
  shows "list_all well_sorted rs \<and> map get_sort rs = map get_sort es \<and> reachable lo st'"
proof -
  note r = reachable_rewritten [OF assms]
  have "list_all well_sorted rs" "map get_sort rs = map get_sort es"
    using r(1) by (auto simp: list_all2_conv_all_nth rewritten_def list_all_length intro!: nth_equalityI)
  with r(3) show ?thesis by simp
qed

theorem rewrite_well_sorted_witness:
  "\<exists>rs st'. rewrite_args (blaster (\<lambda>e. 0) (\<lambda>a b. False)) False demo_assertions demo_state = Inr (rs, st') \<and>
     list_all well_sorted rs \<and> map get_sort rs = [BOOL_SORT, BOOL_SORT]"
proof -
  obtain rs st' where r: "rewrite_args (blaster (\<lambda>e. 0) (\<lambda>a b. False)) False demo_assertions demo_state = Inr (rs, st')"
    using demo_rewrites by blast
  have "map get_sort demo_assertions = [BOOL_SORT, BOOL_SORT]" by (simp add: demo_assertions_def get_range_def)
  with r rewrite_well_sorted [OF demo_facts(4,1) r] show ?thesis by auto
qed

text \<open>
  C33. The rewritten terms mean what the original ones do: in every interpretation of the bits, a
  rewritten term has the value of the original one with the constants read off the bits they
  are translated to.
\<close>

theorem rewrite_value:
  assumes "reachable lo st" "list_all well_sorted es" "rewrite_args (blaster ids lt) pg es st = Inr (rs, st')"
  shows "map (eval I) rs = map (eval (decode (m_const2bits st') I)) es"
  using rewrite_value_raw [OF assms] .

theorem rewrite_value_witness:
  "\<exists>rs st'. rewrite_args (blaster (\<lambda>e. 0) (\<lambda>a b. False)) False demo_assertions demo_state = Inr (rs, st') \<and>
     (\<forall>I. map (eval I) rs = map (eval (decode (m_const2bits st') I)) demo_assertions)"
  using demo_rewrites [of "\<lambda>e. 0" "\<lambda>a b. False" False demo_state] rewrite_value [of 2 demo_state demo_assertions]
  by (metis demo_facts(1,4))

text \<open>
  C30. Bit-blasting keeps satisfiability: assertions whose names are not among those of the fresh
  bits have a common model exactly if the rewritten ones have one.
\<close>

theorem rewrite_equisatisfiable:
  assumes "reachable lo st" "list_all well_sorted es" "list_all (names_below lo) es"
    and "rewrite_args (blaster ids lt) pg es st = Inr (rs, st')"
  shows "(\<exists>I. list_all (holds_in I) rs) \<longleftrightarrow> (\<exists>I. list_all (holds_in I) es)"
proof
  note r = reachable_rewritten [OF assms(1,2,4)]
  have rs: "list_all (holds_in I) rs \<longleftrightarrow> list_all (holds_in (decode (m_const2bits st') I)) es" for I
    unfolding list_all_map_holds [of I rs] list_all_map_holds [of _ es] using rewrite_value_raw [OF assms(1,2,4)] by simp
  show "\<exists>I. list_all (holds_in I) rs \<Longrightarrow> \<exists>I. list_all (holds_in I) es" using rs by blast
  assume "\<exists>I. list_all (holds_in I) es"
  then obtain I where I: "list_all (holds_in I) es" by blast
  have "eval (decode (m_const2bits st') (encode st' I)) e = eval I e" if "e \<in> set es" for e
    using decode_encode [OF r(2), of e I] that assms(3) by (simp add: list_all_iff)
  with I have "list_all (holds_in (encode st' I)) rs" unfolding rs by (simp add: list_all_iff holds_in_def)
  then show "\<exists>I. list_all (holds_in I) rs" by blast
qed

theorem rewrite_equisatisfiable_witness:
  "\<exists>rs st'. rewrite_args (blaster (\<lambda>e. 0) (\<lambda>a b. False)) False demo_assertions demo_state = Inr (rs, st') \<and>
     ((\<exists>I. list_all (holds_in I) rs) \<longleftrightarrow> (\<exists>I. list_all (holds_in I) demo_assertions))"
  using demo_rewrites [of "\<lambda>e. 0" "\<lambda>a b. False" False demo_state] rewrite_equisatisfiable [of 2 demo_state demo_assertions]
  by (metis demo_facts(1,2,4))

text \<open>
  C35. Popping a scope undoes the rewriting done in it: the translation of the constants, the bits
  and the scopes are those of the time of the push, only the names of the bits stay used.
\<close>

theorem pop_undoes_rewrite:
  assumes "reachable lo st" "rewrite_args (blaster ids lt) pg es (push st) = Inr (rs, st')"
  shows "pop 1 st' = st\<lparr>m_fresh_id := m_fresh_id st'\<rparr> \<and> m_fresh_id st \<le> m_fresh_id st'"
  using pop_blasts_push [OF reachable_inv [OF assms(1)] rewrite_blasts(2) [OF assms(2)]] .

theorem pop_undoes_rewrite_witness:
  "\<exists>rs st'. rewrite_args (blaster (\<lambda>e. 0) (\<lambda>a b. False)) False demo_assertions (push demo_state) = Inr (rs, st') \<and>
     m_const2bits (pop 1 st') = Map.empty \<and> get_num_scopes (pop 1 st') = 0"
proof -
  obtain rs st' where r: "rewrite_args (blaster (\<lambda>e. 0) (\<lambda>a b. False)) False demo_assertions (push demo_state) = Inr (rs, st')"
    using demo_rewrites by blast
  have "m_const2bits demo_state = Map.empty" "get_num_scopes demo_state = 0"
    by (simp_all add: demo_state_def blaster_rewriter_cfg_def updt_blaster_params_def get_num_scopes_def)
  with r pop_undoes_rewrite [OF demo_facts(4) r] show ?thesis by (simp add: get_num_scopes_def)
qed

text \<open>
  C36. When the rewriter fails: the only exception is that for an unsupported operator. It is thrown
  exactly when \<open>reduce_app\<close> is asked about an operator it does not support, among them the
  divisions when multiplication is blasted. With proofs these are all operators of the term.
  Without proofs they are operators of the term too, but the branch of an if-then-else that a
  condition rewritten to a constant leaves out is not visited: only the condition and the other
  branch decide. In all other cases the rewriter returns.
\<close>

theorem rewrite_fails_iff:
  "(rewrite C pg e st = Inl Unsupported_Operator \<longleftrightarrow> list_ex (unsupported_op (m_blast_mul st)) (reached_ops C pg e st)) \<and>
   ((\<exists>r st'. rewrite C pg e st = Inr (r, st')) \<longleftrightarrow> \<not> list_ex (unsupported_op (m_blast_mul st)) (reached_ops C pg e st)) \<and>
   (rewrite C True e st = Inl Unsupported_Operator \<longleftrightarrow> list_ex (unsupported_op (m_blast_mul st)) (operators e)) \<and>
   set (reached_ops C pg e st) \<subseteq> set (operators e) \<and>
   (\<forall>c st1 t u. rewrite C False c st = Inr (m_true, st1) \<longrightarrow>
      (rewrite C False (APP OP_ITE [c, t, u]) st = Inl Unsupported_Operator \<longleftrightarrow> rewrite C False t st1 = Inl Unsupported_Operator)) \<and>
   (\<forall>c st1 t u. rewrite C False c st = Inr (m_false, st1) \<longrightarrow>
      (rewrite C False (APP OP_ITE [c, t, u]) st = Inl Unsupported_Operator \<longleftrightarrow> rewrite C False u st1 = Inl Unsupported_Operator))"
proof -
  have isl: "x = Inl Unsupported_Operator \<longleftrightarrow> isl x" "(\<exists>r st'. x = Inr (r, st')) \<longleftrightarrow> \<not> isl x"
    for x :: "rewriter_exception + expr \<times> blaster_state"
    by (cases x; simp; metis rewriter_exception.exhaust)+
  have fold: "rewrite C False (APP OP_ITE [c, t, u]) st = rewrite C False (if r = m_true then t else u) st1"
    if "rewrite C False c st = Inr (r, st1)" "r = m_true \<or> r = m_false" for c r t u st1
    using that by (auto simp: rewrite_def rewriter_tpl_app folded_def constant_fold_def Ast.is_true_def Ast.is_false_def m_true_def m_false_def)
  show ?thesis
    unfolding isl rewrite_reached [symmetric] rewrite_proofs unsupported_operators [symmetric]
  proof (intro conjI allI impI)
    show "set (reached_ops C pg e st) \<subseteq> set (operators e)" unfolding reached_ops_def by (rule reached_operators(1))
  qed (use fold in \<open>simp_all add: m_true_def m_false_def\<close>)
qed

theorem rewrite_fails_iff_witness:
  "\<exists>r st'. rewrite (blaster (\<lambda>e. 0) (\<lambda>a b. False)) False
      (APP OP_ITE [m_true, demo_const 0, APP (BV_OP OP_BNEG) [demo_const 1]]) demo_state = Inr (r, st')"
proof -
  let ?C = "blaster (\<lambda>e. 0) (\<lambda>a b. False)" and ?b = "APP (BV_OP OP_BNEG) [demo_const 1]"
  have t: "rewrite ?C False m_true demo_state = Inr (m_true, demo_state)"
    by (simp add: rewrite_def rewriter_tpl_app folded_def process_app_def m_true_def reduce_app_def get_range_def)
  have "\<not> unsupported (m_blast_mul demo_state) (demo_const 0)" by (simp add: demo_const_def unsupported_op_def)
  then have "rewrite ?C False (demo_const 0) demo_state \<noteq> Inl Unsupported_Operator" using rewrite_returns(1) by (metis sum.distinct(1))
  with t rewrite_fails_iff [of ?C False "APP OP_ITE [m_true, demo_const 0, ?b]" demo_state] show ?thesis by blast
qed

end
