(* ===== verification/Blaster_Quant.thy ===== *)
theory Blaster_Quant
  imports Blaster_Sound
begin

text \<open>
  Rewriting a quantifier: \<open>pre_visit\<close> on the way down, the rewriter on the body and
  \<open>reduce_quantifier\<close> on the way up give a quantifier over booleans that holds exactly if the
  original one does.
\<close>

definition quant_holds :: "interp \<Rightarrow> val list \<Rightarrow> quantifier \<Rightarrow> bool" where
  \<comment> \<open>below quantifiers whose variables have the values \<open>us\<close>, in the order of their declarations\<close>
  "quant_holds I us q = (let P = (\<lambda>vs. holds_in (with_vars I (env_of (us @ vs))) (q_expr q)) in
     if q_is_forall q then \<forall>vs. decl_vals (q_decl_sorts q) vs \<longrightarrow> P vs
     else \<exists>vs. decl_vals (q_decl_sorts q) vs \<and> P vs)"

lemma map_snd_zip_eq: "length xs = length ys \<Longrightarrow> map (\<lambda>(x, y). f y) (zip xs ys) = map f ys"
  by (induction xs ys rule: list_induct2) simp_all

lemma reduce_quantifier_eq:
  assumes "m_blast_quant st" "length (q_decl_names q) = length (q_decl_sorts q)"
  obtains q' where "reduce_quantifier q body ps nps st = (Some q', st\<lparr>m_bindings := take (length (m_bindings st) - length (q_decl_sorts q)) (m_bindings st),
      m_shifts := take (length (m_bindings st) - length (q_decl_sorts q)) (m_shifts st)\<rparr>)"
    "q_is_forall q' = q_is_forall q" "q_decl_sorts q' = blast_sorts (q_decl_sorts q)" "q_expr q' = body"
  by (rule that [of "the (fst (reduce_quantifier q body ps nps st))"])
    (simp_all add: reduce_quantifier_def blast_sorts_def Let_def assms(1) map_snd_zip_eq [OF assms(2)])

lemma pre_visits_inv:
  assumes "m_bindings st = []" "m_shifts st = []" "m_blast_quant st"
  shows "bindings_inv (concat (map q_decl_sorts qs)) (fold pre_visit qs st)"
proof (induction qs rule: rev_induct)
  case Nil
  with assms show ?case by (simp add: bindings_inv_def)
next
  case (snoc q qs)
  from pre_visit_inv [OF this refl] show ?case by simp
qed

lemma pre_visit_grows:
  assumes "m_blast_quant st" "length (m_shifts st) = length (m_bindings st)"
  shows "\<exists>bs ks. pre_visit q st = st\<lparr>m_bindings := m_bindings st @ bs, m_shifts := m_shifts st @ ks\<rparr> \<and>
    length bs = length (q_decl_sorts q) \<and> length ks = length (q_decl_sorts q)"
proof -
  obtain bs j where nb: "new_bindings (rev (q_decl_sorts q)) 0 = (bs, j)" by (cases "new_bindings (rev (q_decl_sorts q)) 0")
  then have "length bs = length (q_decl_sorts q)" using new_bindings_eq [of "rev (q_decl_sorts q)" 0] by auto
  then show ?thesis
    by (intro exI [of _ "rev bs"] exI [of _ "replicate (length bs) (if m_shifts st = [] then j else j + last (m_shifts st))"])
      (simp add: pre_visit_def nb assms(1))
qed

lemma pre_visit_blaster_inv [simp]: "blaster_inv lo (pre_visit q st) = blaster_inv lo st"
  by (cases "new_bindings (rev (q_decl_sorts q)) 0") (simp add: inv_defs pre_visit_def)

lemma pre_visits_blaster_inv: "blaster_inv lo (fold pre_visit qs st) = blaster_inv lo st"
  by (induction qs arbitrary: st) simp_all

lemma quant_holds_blast:
  assumes "q_is_forall q' = q_is_forall q" "q_decl_sorts q' = blast_sorts (q_decl_sorts q)" "decl_vals ss us"
    and "\<And>vs. decl_vals (q_decl_sorts q) vs \<Longrightarrow>
      holds_in (with_vars I (blast_env (us @ vs))) (q_expr q') = holds_in (with_vars J (env_of (us @ vs))) (q_expr q)"
  shows "quant_holds I (concat (map blast_val us)) q' = quant_holds J us q"
proof -
  have e: "env_of (concat (map blast_val us) @ concat (map blast_val vs)) = blast_env (us @ vs)" for vs
    by (simp add: blast_env_def)
  have "(\<forall>ws. decl_vals (q_decl_sorts q') ws \<longrightarrow> holds_in (with_vars I (env_of (concat (map blast_val us) @ ws))) (q_expr q')) \<longleftrightarrow>
      (\<forall>vs. decl_vals (q_decl_sorts q) vs \<longrightarrow> holds_in (with_vars J (env_of (us @ vs))) (q_expr q))"
    unfolding assms(2) decl_vals_blast by (auto simp: e assms(4))
  moreover have "(\<exists>ws. decl_vals (q_decl_sorts q') ws \<and> holds_in (with_vars I (env_of (concat (map blast_val us) @ ws))) (q_expr q')) \<longleftrightarrow>
      (\<exists>vs. decl_vals (q_decl_sorts q) vs \<and> holds_in (with_vars J (env_of (us @ vs))) (q_expr q))"
    unfolding assms(2) decl_vals_blast by (auto simp: e assms(4))
  ultimately show ?thesis by (simp only: quant_holds_def Let_def assms(1))
qed

text \<open>
  C39. A quantifier is blasted correctly below any others: visiting it, rewriting its body and
  rebuilding it restores the bindings, and the new quantifier over booleans holds exactly if
  the original one holds for the constants read off their bits.
\<close>

theorem quantifier_blasted:
  assumes "reachable lo st" "m_blast_quant st" and st1: "st1 = fold pre_visit qs st"
    and us: "decl_vals (concat (map q_decl_sorts qs)) us"
    and q: "well_sorted (q_expr q)" "in_scope (concat (map q_decl_sorts (qs @ [q]))) (q_expr q)"
      "length (q_decl_names q) = length (q_decl_sorts q)"
    and r: "rewrite (blaster ids lt) pg (q_expr q) (pre_visit q st1) = Inr (body, st2)"
  shows "\<exists>q'. reduce_quantifier q body ps nps st2 = (Some q', st2\<lparr>m_bindings := m_bindings st1, m_shifts := m_shifts st1\<rparr>) \<and>
    (\<forall>I. quant_holds I (concat (map blast_val us)) q' = quant_holds (decode (m_const2bits st2) I) us q)"
proof -
  obtain rw where rw: "blaster ids lt = blaster_cfg rw" by (simp add: blaster_def)
  have b1: "bindings_inv (concat (map q_decl_sorts qs)) st1"
    unfolding st1 using reachable_bindings [OF assms(1)] assms(2) by (intro pre_visits_inv) simp_all
  have b2: "bindings_inv (concat (map q_decl_sorts (qs @ [q]))) (pre_visit q st1)" using pre_visit_inv [OF b1 refl] by simp
  have inv: "blaster_inv lo (pre_visit q st1)" using reachable_inv [OF assms(1)] by (simp add: st1 pre_visits_blaster_inv)
  obtain bs ks where pv: "pre_visit q st1 = st1\<lparr>m_bindings := m_bindings st1 @ bs, m_shifts := m_shifts st1 @ ks\<rparr>"
    "length bs = length (q_decl_sorts q)" "length ks = length (q_decl_sorts q)"
    using pre_visit_grows [of st1 q] b1 by (auto simp: bindings_inv_def)
  note bl = blasts_bindings [OF rewrite_blasts(1) [OF r]]
  have "m_blast_quant st2" using bl b2 by (simp add: bindings_inv_def)
  from reduce_quantifier_eq [OF this q(3), of body ps nps]
  obtain q' where q': "reduce_quantifier q body ps nps st2 = (Some q', st2\<lparr>m_bindings := take (length (m_bindings st2) - length (q_decl_sorts q)) (m_bindings st2),
      m_shifts := take (length (m_bindings st2) - length (q_decl_sorts q)) (m_shifts st2)\<rparr>)"
    "q_is_forall q' = q_is_forall q" "q_decl_sorts q' = blast_sorts (q_decl_sorts q)" "q_expr q' = body" .
  have "length (m_shifts st1) = length (m_bindings st1)" using b1 by (simp add: bindings_inv_def)
  then have "reduce_quantifier q body ps nps st2 = (Some q', st2\<lparr>m_bindings := m_bindings st1, m_shifts := m_shifts st1\<rparr>)"
    using q'(1) bl pv by simp
  moreover have "quant_holds I (concat (map blast_val us)) q' = quant_holds (decode (m_const2bits st2) I) us q" for I
  proof (rule quant_holds_blast [OF q'(2,3) us])
    fix vs assume vs: "decl_vals (q_decl_sorts q) vs"
    have "map sort_of_val (us @ vs) = concat (map q_decl_sorts (qs @ [q]))" "list_all proper_val (us @ vs)"
      using us vs by (simp_all add: decl_vals_def)
    with b2 q(2) have "scope_inv (us @ vs) (pre_visit q st1) [q_expr q]" by (simp add: scope_inv_def)
    from rewrite_rewritten(1) [OF r [unfolded rw] q(1) inv this] have "rewritten (us @ vs) st2 (q_expr q) body" .
    moreover have "table_ok (m_const2bits st2)" using rewrite_inv [OF inv r] by (simp add: blaster_inv_def table_inv_ok)
    ultimately have "eval (with_vars I (blast_env (us @ vs))) body = eval (with_vars (decode (m_const2bits st2) I) (env_of (us @ vs))) (q_expr q)"
      using rewrittenD(3) by simp
    then show "holds_in (with_vars I (blast_env (us @ vs))) (q_expr q') = holds_in (with_vars (decode (m_const2bits st2) I) (env_of (us @ vs))) (q_expr q)"
      by (simp add: holds_in_def q'(4))
  qed
  ultimately show ?thesis by blast
qed

definition demo_quant :: quantifier where
  "demo_quant = \<lparr>q_is_forall = True, q_decl_sorts = [BV_SORT 3], q_decl_names = [''x''],
     q_expr = APP (BV_OP OP_ULEQ) [VAR 1 (BV_SORT 3), VAR 0 (BV_SORT 3)], q_patterns = [], q_no_patterns = []\<rparr>"

theorem quantifier_blasted_witness:
  "\<exists>body st2 q' st3. rewrite (blaster (\<lambda>e. 0) (\<lambda>a b. False)) False (q_expr demo_quant)
       (pre_visit demo_quant (fold pre_visit [demo_quant] (blaster_rewriter_cfg (default_blaster_params\<lparr>p_blast_quant := True\<rparr>) 2))) = Inr (body, st2) \<and>
     reduce_quantifier demo_quant body [] [] st2 = (Some q', st3) \<and>
     (\<forall>I. quant_holds I (blast_val (VBv 3 5)) q' = quant_holds (decode (m_const2bits st2) I) [VBv 3 5] demo_quant)"
proof -
  let ?st = "blaster_rewriter_cfg (default_blaster_params\<lparr>p_blast_quant := True\<rparr>) 2"
  let ?C = "blaster (\<lambda>e. 0) (\<lambda>a b. False)" and ?st1 = "fold pre_visit [demo_quant] ?st"
  have "\<not> unsupported b (q_expr demo_quant)" for b by (simp add: demo_quant_def unsupported_op_def)
  then obtain body st2 where r: "rewrite ?C False (q_expr demo_quant) (pre_visit demo_quant ?st1) = Inr (body, st2)"
    using rewrite_returns(1) by blast
  have "m_blast_quant ?st" by (simp add: blaster_rewriter_cfg_def updt_blaster_params_def default_blaster_params_def)
  moreover have "decl_vals (concat (map q_decl_sorts [demo_quant])) [VBv 3 5]" "length (q_decl_names demo_quant) = length (q_decl_sorts demo_quant)"
    by (simp_all add: demo_quant_def decl_vals_def proper_val_def)
  moreover have "well_sorted (q_expr demo_quant)" "in_scope (concat (map q_decl_sorts ([demo_quant] @ [demo_quant]))) (q_expr demo_quant)"
    by (simp_all add: demo_quant_def sig_ok_def bv_sig_ok_def bv_args_def)
  ultimately show ?thesis
    using quantifier_blasted [OF reach_init _ refl _ _ _ _ r, where us = "[VBv 3 5]" and ps = "[]" and nps = "[]"] r by fastforce
qed

text \<open>
  C40. A variable that no quantifier binds is misplaced below blasted quantifiers: it is rewritten to
  a term that denotes variable \<open>i\<close> of the context, where the original one denotes variable
  \<open>i - length vs\<close>, counted without the bound variables.
\<close>

theorem free_variable_misplaced:
  assumes "reachable lo st" "m_blast_quant st" "decl_vals (concat (map q_decl_sorts qs)) vs" "blast_env vs \<noteq> []" "length vs \<le> i"
  shows "\<exists>r. reduce_var (fold pre_visit qs st) i s = Some r \<and> eval (with_vars I (blast_env vs)) r = eval I (VAR i s) \<and>
    eval (with_vars I (env_of vs)) (VAR i s) = eval I (VAR (i - length vs) s)"
proof -
  have "bindings_inv (map sort_of_val vs) (fold pre_visit qs st)"
    using pre_visits_inv [of st qs] reachable_bindings [OF assms(1)] assms(2,3) by (simp add: decl_vals_def)
  from reduce_var_free [OF this assms(4,5)] show ?thesis .
qed

theorem free_variable_misplaced_witness:
  "\<exists>r. reduce_var (fold pre_visit [demo_quant] (blaster_rewriter_cfg (default_blaster_params\<lparr>p_blast_quant := True\<rparr>) 2)) 1 BOOL_SORT = Some r \<and>
     (\<exists>I. eval (with_vars I (blast_env [VBv 3 5])) r \<noteq> eval (with_vars I (env_of [VBv 3 5])) (VAR 1 BOOL_SORT))"
proof -
  let ?I = "\<lparr>i_fun = \<lambda>g s vs. 0, i_var = \<lambda>i s. i\<rparr>"
  have "m_blast_quant (blaster_rewriter_cfg (default_blaster_params\<lparr>p_blast_quant := True\<rparr>) 2)"
    by (simp add: blaster_rewriter_cfg_def updt_blaster_params_def default_blaster_params_def)
  moreover have "decl_vals (concat (map q_decl_sorts [demo_quant])) [VBv 3 5]" "blast_env [VBv 3 5] \<noteq> []" "length [VBv 3 5] \<le> 1"
    by (simp_all add: demo_quant_def decl_vals_def proper_val_def blast_env_def env_of_def)
  ultimately obtain r where r: "reduce_var (fold pre_visit [demo_quant] (blaster_rewriter_cfg (default_blaster_params\<lparr>p_blast_quant := True\<rparr>) 2)) 1 BOOL_SORT = Some r"
      "eval (with_vars ?I (blast_env [VBv 3 5])) r = eval ?I (VAR 1 BOOL_SORT)"
      "eval (with_vars ?I (env_of [VBv 3 5])) (VAR 1 BOOL_SORT) = eval ?I (VAR (1 - length [VBv 3 5]) BOOL_SORT)"
    using free_variable_misplaced [OF reach_init] by blast
  have "eval ?I (VAR 1 BOOL_SORT) \<noteq> eval ?I (VAR (1 - length [VBv 3 5]) BOOL_SORT)" by simp
  with r show ?thesis by metis
qed

end
