(* ===== verification/Model_Converter.thy ===== *)
theory Model_Converter
  imports Blaster_Sound
begin

text \<open>
  The models of the solver and the model converter of bit_blaster_model_converter.cpp, which
  turns a model of the bits into one of the bit-vectors. The constants of a model are a finite
  map, since the order in which the code visits them does not matter. The converter visits
  the table of the bit-blaster in the order of its hash table, here that of the list it is
  given.
\<close>

section \<open>Models\<close>

record model =
  md_interp :: "func_decl \<rightharpoonup> expr"
  md_finterp :: "nat \<Rightarrow> srt \<Rightarrow> val list \<Rightarrow> nat"
  md_usorts :: "nat \<Rightarrow> expr list"

definition mk_model :: model where
  "mk_model = \<lparr>md_interp = Map.empty, md_finterp = (\<lambda>g s vs. 0), md_usorts = (\<lambda>u. [])\<rparr>"

definition get_const_interp :: "model \<Rightarrow> func_decl \<Rightarrow> expr option" where
  "get_const_interp md d = md_interp md d"

definition register_decl :: "func_decl \<Rightarrow> expr \<Rightarrow> model \<Rightarrow> model" where
  \<comment> \<open>for a constant\<close>
  "register_decl d v md = md\<lparr>md_interp := (md_interp md)(d \<mapsto> v)\<rparr>"

section \<open>The converter\<close>

record bit_blaster_model_converter =
  mc_to_bool :: bool
  m_vars :: "func_decl list"
  m_bits :: "expr list"
  mc_newbits :: "func_decl list"

definition mk_bit_blaster_model_converter :: "(func_decl \<times> expr) list \<Rightarrow> func_decl list \<Rightarrow> bit_blaster_model_converter option" where
  "mk_bit_blaster_model_converter const2bits newbits =
     (if const2bits = [] then None
      else Some \<lparr>mc_to_bool = True, m_vars = map fst const2bits, m_bits = map snd const2bits, mc_newbits = newbits\<rparr>)"

definition mk_bv1_blaster_model_converter :: "(func_decl \<times> expr) list \<Rightarrow> func_decl list \<Rightarrow> bit_blaster_model_converter option" where
  "mk_bv1_blaster_model_converter const2bits newbits =
     (if const2bits = [] then None
      else Some \<lparr>mc_to_bool = False, m_vars = map fst const2bits, m_bits = map snd const2bits, mc_newbits = newbits\<rparr>)"

definition collect_bits :: "bit_blaster_model_converter \<Rightarrow> func_decl set" where
  "collect_bits mc = set (concat (map bit_decls (m_bits mc)))"

definition copy_non_bits :: "func_decl set \<Rightarrow> model \<Rightarrow> model \<Rightarrow> model" where
  "copy_non_bits bits old_model new_model = new_model
     \<lparr>md_interp := md_interp new_model ++ (\<lambda>f. if f \<in> bits then None else md_interp old_model f),
      md_finterp := md_finterp old_model, md_usorts := md_usorts old_model\<rparr>"

fun is_zero :: "expr \<Rightarrow> bool" where
  "is_zero (APP (OP_BV_NUM v n) args) = (v = 0)"
| "is_zero _ = False"

definition bits_value :: "bool \<Rightarrow> model \<Rightarrow> expr \<Rightarrow> nat" where
  \<comment> \<open>from the last argument to the first for booleans, which come with the least significant one
    first, and the other way round for bit-vectors of one bit\<close>
  "bits_value to_bool old_model bs =
     (if to_bool then
        foldr (\<lambda>b v. v * 2 + (case get_const_interp old_model (bit_decl b) of
            None \<Rightarrow> 0 | Some bit_val \<Rightarrow> if Ast.is_true bit_val then 1 else 0)) (get_args bs) 0
      else
        foldl (\<lambda>v b. v * 2 + (case get_const_interp old_model (bit_decl b) of
            None \<Rightarrow> 0 | Some bit_val \<Rightarrow> if is_zero bit_val then 0 else 1)) 0 (get_args bs))"

definition mk_bvs :: "bit_blaster_model_converter \<Rightarrow> model \<Rightarrow> model \<Rightarrow> model" where
  "mk_bvs mc old_model new_model =
     fold (\<lambda>(v, bs) md. register_decl v (case get_const_interp old_model v of
         Some new_val \<Rightarrow> new_val
       | None \<Rightarrow> APP (OP_BV_NUM (bits_value (mc_to_bool mc) old_model bs) (length (get_args bs))) []) md)
       (zip (m_vars mc) (m_bits mc)) new_model"

definition mk_bv :: "bit_blaster_model_converter \<Rightarrow> expr \<Rightarrow> model \<Rightarrow> expr" where
  "mk_bv mc bs old_model =
     (let args = map (\<lambda>b. case get_const_interp old_model (bit_decl b) of Some bit_val \<Rightarrow> bit_val | None \<Rightarrow> b) (get_args bs)
      in APP (BV_OP (if mc_to_bool mc then OP_MKBV else OP_CONCAT)) args)"

definition convert_model :: "bit_blaster_model_converter \<Rightarrow> model \<Rightarrow> model" where
  "convert_model mc md = mk_bvs mc md (copy_non_bits (collect_bits mc) md mk_model)"

definition convert_formula :: "bit_blaster_model_converter \<Rightarrow> expr \<Rightarrow> expr \<times> bit_blaster_model_converter" where
  "convert_formula mc fml =
     (if m_vars mc = [] then (fml, mc)
      else (m_mk_and (fml # map (\<lambda>(v, bs). m_mk_eq (APP v []) bs) (zip (m_vars mc) (m_bits mc))),
            mc\<lparr>m_vars := [], m_bits := []\<rparr>))"

section \<open>Interpretations of models\<close>

text \<open>
  A model with completion: what it does not assign is false or zero. Its constants have
  values of their sorts.
\<close>

definition interp_of :: "model \<Rightarrow> (nat \<Rightarrow> srt \<Rightarrow> nat) \<Rightarrow> interp" where
  "interp_of md vars = \<lparr>i_fun = \<lambda>g s vs. if vs = [] then (case md_interp md (UNINTERPRETED g s) of None \<Rightarrow> 0
       | Some v \<Rightarrow> val_nat (eval \<lparr>i_fun = \<lambda>g s vs. 0, i_var = \<lambda>i s. 0\<rparr> v)) else md_finterp md g s vs, i_var = vars\<rparr>"

definition model_ok :: "model \<Rightarrow> bool" where
  "model_ok md \<longleftrightarrow> (\<forall>d v. md_interp md d = Some v \<longrightarrow> is_value v \<and> well_sorted v \<and> get_sort v = get_range d [])"

definition converter_for :: "bool \<Rightarrow> (func_decl \<times> expr) list \<Rightarrow> bit_blaster_model_converter \<Rightarrow> bool" where
  "converter_for to_bool kvs mc \<longleftrightarrow> mc_to_bool mc = to_bool \<and> m_vars mc = map fst kvs \<and> m_bits mc = map snd kvs"

definition converter_of :: "blaster_state \<Rightarrow> bit_blaster_model_converter \<Rightarrow> bool" where
  \<comment> \<open>the converter has the whole table of the state\<close>
  "converter_of st mc \<longleftrightarrow> (\<exists>kvs. distinct (map fst kvs) \<and> map_of kvs = m_const2bits st \<and> converter_for True kvs mc)"

lemma bool_value:
  assumes "is_value v" "well_sorted v" "get_sort v = BOOL_SORT"
  shows "v = m_true \<or> v = m_false"
proof (cases v)
  case (APP f args)
  with assms show ?thesis
    by (cases f) (auto simp: basic_is_value_def get_range_def sig_ok_def m_true_def m_false_def)
qed (use assms in simp)

lemma foldr_bval: "foldr (\<lambda>b v. v * 2 + (if P b then 1 else 0)) bs 0 = bval (map P bs)" for P :: "'a \<Rightarrow> bool"
  by (induction bs) (auto simp: mult.commute)

lemma fold_register:
  "distinct (map fst kvs) \<Longrightarrow> md_interp (fold (\<lambda>(v, bs) md. register_decl v (h v bs) md) kvs md) =
     (\<lambda>f. case map_of kvs f of None \<Rightarrow> md_interp md f | Some bs \<Rightarrow> Some (h f bs))"
proof (induction kvs arbitrary: md)
  case (Cons kv kvs)
  obtain v bs where kv: "kv = (v, bs)" by (cases kv)
  then have "map_of kvs v = None" using Cons.prems by (simp add: map_of_eq_None_iff)
  with Cons show ?case by (auto simp: kv register_decl_def fun_eq_iff split: option.split)
qed simp

lemma fold_register_rest:
  "md_finterp (fold (\<lambda>(v, bs) md. register_decl v (h v bs) md) kvs md) = md_finterp md"
  by (induction kvs arbitrary: md) (auto simp: register_decl_def)

lemma convert_model_interp:
  assumes "converter_for to_bool kvs mc" "distinct (map fst kvs)"
  shows "md_interp (convert_model mc md) f = (case map_of kvs f of
      None \<Rightarrow> if f \<in> collect_bits mc then None else md_interp md f
    | Some bs \<Rightarrow> Some (case md_interp md f of Some v \<Rightarrow> v | None \<Rightarrow> APP (OP_BV_NUM (bits_value to_bool md bs) (length (get_args bs))) []))"
    "md_finterp (convert_model mc md) = md_finterp md"
proof -
  have z: "zip (m_vars mc) (m_bits mc) = kvs" "mc_to_bool mc = to_bool" using assms(1) by (simp_all add: converter_for_def zip_map_fst_snd)
  show "md_interp (convert_model mc md) f = (case map_of kvs f of
      None \<Rightarrow> if f \<in> collect_bits mc then None else md_interp md f
    | Some bs \<Rightarrow> Some (case md_interp md f of Some v \<Rightarrow> v | None \<Rightarrow> APP (OP_BV_NUM (bits_value to_bool md bs) (length (get_args bs))) []))"
    unfolding convert_model_def mk_bvs_def z(1) fold_register [OF assms(2)]
    by (auto simp: z(2) copy_non_bits_def mk_model_def get_const_interp_def map_add_def split: option.split)
  show "md_finterp (convert_model mc md) = md_finterp md"
    unfolding convert_model_def mk_bvs_def fold_register_rest by (simp add: copy_non_bits_def)
qed

text \<open>
  For any table whose entries have the value that the converter computes, the converted model
  has for every term over the original names the value that the table means by the model of
  the bits.
\<close>

lemma convert_table_value:
  assumes mc: "converter_for to_bool kvs mc" "distinct (map fst kvs)" and ok: "table_ok (map_of kvs)"
    and bits: "\<And>f r. map_of kvs f = Some r \<Longrightarrow> eval (interp_of md vars) r = VBv (length (get_args r)) (bits_value to_bool md r mod 2 ^ length (get_args r)) \<and>
        get_range f [] = BV_SORT (length (get_args r))"
    and names: "\<And>g s. UNINTERPRETED g s \<in> collect_bits mc \<Longrightarrow> lo \<le> g"
    and unassigned: "\<And>f. f \<in> dom (map_of kvs) \<Longrightarrow> md_interp md f = None"
  shows "names_below lo e \<Longrightarrow> eval (interp_of (convert_model mc md) vars) e = eval (decode (map_of kvs) (interp_of md vars)) e"
proof (induction e)
  case (VAR i s)
  show ?case by (simp add: interp_of_def)
next
  case (APP f args)
  let ?I = "interp_of md vars" and ?J = "interp_of (convert_model mc md) vars"
  note ci = convert_model_interp [OF mc]
  have args: "map (eval ?J) args = map (eval (decode (map_of kvs) ?I)) args" using APP by (auto simp: list_all_iff)
  show ?case
  proof (cases "args = [] \<and> f \<in> dom (map_of kvs)")
    case True
    then obtain r where r: "map_of kvs f = Some r" and a: "args = []" by auto
    obtain g n where f: "f = UNINTERPRETED g (BV_SORT n)" using ok r unfolding table_ok_def by blast
    have n: "length (get_args r) = n" using bits [OF r] by (simp add: f get_range_def)
    have "md_interp (convert_model mc md) f = Some (APP (OP_BV_NUM (bits_value to_bool md r) n) [])"
      using unassigned [of f] r by (simp add: ci n domI)
    then have "eval ?J (APP f []) = VBv n (bits_value to_bool md r mod 2 ^ n)" by (simp add: f interp_of_def)
    also have "\<dots> = eval (decode (map_of kvs) ?I) (APP f [])" using decode_const [OF ok r, of ?I] bits [OF r] by (simp add: n)
    finally show ?thesis by (simp add: a)
  next
    case False
    have "apply_decl ?J f vs = apply_decl (decode (map_of kvs) ?I) f vs" if "vs = map (eval ?J) args" for vs
    proof (cases f)
      case (UNINTERPRETED g s)
      have nb: "f \<notin> collect_bits mc" using APP.prems names [of g s] UNINTERPRETED by auto
      show ?thesis
      proof (cases "vs = []")
        case True
        with that False have "map_of kvs f = None" by auto
        with nb True show ?thesis by (simp add: UNINTERPRETED interp_of_def decode_def ci(1))
      next
        case False
        then show ?thesis by (simp add: UNINTERPRETED interp_of_def decode_def ci(2))
      qed
    qed simp_all
    then show ?thesis using args by (simp only: eval.simps)
  qed
qed

lemma bit_value:
  assumes "model_ok md"
  shows "holds_in (interp_of md vars) (APP (bit_name k) []) \<longleftrightarrow> md_interp md (bit_name k) = Some m_true"
proof (cases "md_interp md (bit_name k)")
  case None
  then show ?thesis by (simp add: holds_in_def interp_of_def bit_name_def)
next
  case (Some v)
  with assms have "is_value v" "well_sorted v" "get_sort v = BOOL_SORT" by (auto simp: model_ok_def bit_name_def get_range_def)
  from bool_value [OF this] Some show ?thesis
    by (auto simp: holds_in_def interp_of_def bit_name_def m_true_def m_false_def)
qed

lemma bits_value_eval:
  assumes "model_ok md" "bits_of_const f r"
  shows "eval (interp_of md vars) r = VBv (length (get_args r)) (bits_value True md r mod 2 ^ length (get_args r))"
proof -
  obtain ks where r: "r = mk_mkbv (map (\<lambda>k. APP (bit_name k) []) ks)" using assms(2) by (auto simp: bits_of_const_def)
  have "bits_value True md r = bval (map (\<lambda>k. md_interp md (bit_name k) = Some m_true) ks)"
  proof -
    have "(case md_interp md d of None \<Rightarrow> 0 | Some v \<Rightarrow> if Ast.is_true v then 1 else 0) = (if md_interp md d = Some m_true then 1 else 0 :: nat)" for d
      by (auto simp: Ast.is_true_def split: option.split)
    then have "bits_value True md r = foldr (\<lambda>b v. v * 2 + (if md_interp md (bit_decl b) = Some m_true then 1 else 0)) (get_args r) 0"
      by (simp add: bits_value_def get_const_interp_def)
    then show ?thesis by (simp only: foldr_bval) (simp add: r mk_mkbv_def comp_def)
  qed
  moreover have "unsigned_in (interp_of md vars) (map (\<lambda>k. APP (bit_name k) []) ks) = bval (map (\<lambda>k. md_interp md (bit_name k) = Some m_true) ks)"
    by (simp add: unsigned_in_def comp_def bit_value [OF assms(1)])
  moreover have "get_args r = map (\<lambda>k. APP (bit_name k) []) ks" by (simp add: r mk_mkbv_def)
  ultimately show ?thesis unfolding r eval_mkbv by (simp add: in_bv_def nat_mod_as_int zmod_int)
qed

lemma convert_model_value:
  assumes inv: "blaster_inv lo st" and mc: "converter_of st mc" and md: "model_ok md"
    and unassigned: "\<And>f. f \<in> dom (m_const2bits st) \<Longrightarrow> md_interp md f = None" and e: "names_below lo e"
  shows "eval (interp_of (convert_model mc md) vars) e = eval (decode (m_const2bits st) (interp_of md vars)) e"
proof -
  obtain kvs where k: "distinct (map fst kvs)" "map_of kvs = m_const2bits st" "converter_for True kvs mc"
    using mc by (auto simp: converter_of_def)
  have T: "table_inv st" using inv by (simp add: blaster_inv_def)
  have b: "bits_of_const f r" if "m_const2bits st f = Some r" for f r
    using T that by (auto simp: table_inv_def list_all2_iff dest!: map_of_SomeD)
  have names: "lo \<le> g" if "UNINTERPRETED g s \<in> collect_bits mc" for g s
  proof -
    have "set (m_bits mc) = ran (m_const2bits st)" using k by (auto simp: converter_for_def ran_distinct [OF k(1), symmetric])
    also have "\<dots> \<subseteq> set (m_values st)" using T by (auto simp: table_inv_def ran_def dest: map_of_SomeD set_zip_rightD)
    finally have "collect_bits mc \<subseteq> set (concat (map bit_decls (m_values st)))" by (auto simp: collect_bits_def)
    also have "\<dots> = set (m_newbits st)" using inv unfolding inv_defs by simp
    finally have "collect_bits mc \<subseteq> bit_name ` {lo..<m_fresh_id st}" using inv unfolding inv_defs by blast
    with that show ?thesis by (auto simp: bit_name_def)
  qed
  have "eval (interp_of md vars) r = VBv (length (get_args r)) (bits_value True md r mod 2 ^ length (get_args r)) \<and>
      get_range f [] = BV_SORT (length (get_args r))" if "m_const2bits st f = Some r" for f r
    using bits_value_eval [OF md b [OF that]] b [OF that] by (auto simp: bits_of_const_def mk_mkbv_def get_range_def)
  with convert_table_value [OF k(3,1) _ _ names _ e, of md vars] unassigned table_inv_ok [OF T] show ?thesis by (simp add: k(2))
qed

end
