(* ===== verification/Goal.thy ===== *)
theory Goal
  imports Model_Converter
begin

text \<open>
  The goals of goal.cpp: a list of formulas, read as a conjunction, with their dependencies.
  Proofs are left out: where the code takes another way when they are produced, \<open>slow_process\<close>,
  the model has the flag and both ways. A dependency is the set of its leaves. The model
  converters of a goal are a list, applied from the last to the first.
\<close>

section \<open>Goals\<close>

datatype precision = PRECISE | UNDER | OVER | UNDER_OVER

type_synonym expr_dependency = "nat set"

record goal =
  m_mc :: "bit_blaster_model_converter list"
  m_forms :: "expr list"
  m_dependencies :: "expr_dependency list"
  m_depth :: nat
  m_models_enabled :: bool
  m_proofs_enabled :: bool
  m_core_enabled :: bool
  m_inconsistent :: bool
  m_precision :: precision

definition mk_union :: "precision \<Rightarrow> precision \<Rightarrow> precision" where
  "mk_union p1 p2 = (if p1 = PRECISE then p2 else if p2 = PRECISE then p1 else if p1 \<noteq> p2 then UNDER_OVER else p1)"

definition mk_goal :: "bool \<Rightarrow> bool \<Rightarrow> bool \<Rightarrow> goal" where
  "mk_goal proofs_enabled models_enabled core_enabled =
     \<lparr>m_mc = [], m_forms = [], m_dependencies = [], m_depth = 0, m_models_enabled = models_enabled,
      m_proofs_enabled = proofs_enabled, m_core_enabled = core_enabled, m_inconsistent = False, m_precision = PRECISE\<rparr>"

definition goal_copy_config :: "goal \<Rightarrow> goal" where
  \<comment> \<open>the constructor that does not copy the assertions\<close>
  "goal_copy_config src = src\<lparr>m_forms := [], m_dependencies := [], m_inconsistent := False\<rparr>"

definition copy_to :: "goal \<Rightarrow> goal \<Rightarrow> goal" where
  "copy_to src target = target\<lparr>m_forms := m_forms src, m_dependencies := m_dependencies src,
     m_depth := max (m_depth src) (m_depth target), m_inconsistent := m_inconsistent src,
     m_precision := mk_union (m_precision src) (m_precision target), m_mc := m_mc src\<rparr>"

definition size_goal :: "goal \<Rightarrow> nat" where
  "size_goal g = length (m_forms g)"

definition form :: "goal \<Rightarrow> nat \<Rightarrow> expr" where
  "form g i = m_forms g ! i"

definition dep :: "goal \<Rightarrow> nat \<Rightarrow> expr_dependency" where
  "dep g i = (if m_core_enabled g then m_dependencies g ! i else {})"

definition goal_copy :: "goal \<Rightarrow> goal" where
  "goal_copy src = copy_to src (mk_goal (m_proofs_enabled src) (m_models_enabled src) (m_core_enabled src))"

definition set_depth :: "nat \<Rightarrow> goal \<Rightarrow> goal" where
  \<comment> \<open>a field of 26 bits\<close>
  "set_depth d g = g\<lparr>m_depth := d mod 2 ^ 26\<rparr>"

definition inc_depth :: "goal \<Rightarrow> goal" where
  "inc_depth g = set_depth (Suc (m_depth g)) g"

definition set_prec :: "precision \<Rightarrow> goal \<Rightarrow> goal" where
  "set_prec d g = g\<lparr>m_precision := d\<rparr>"

definition updt_prec :: "precision \<Rightarrow> goal \<Rightarrow> goal" where
  "updt_prec d g = set_prec (mk_union (m_precision g) d) g"

definition add_mc :: "bit_blaster_model_converter option \<Rightarrow> goal \<Rightarrow> goal" where
  \<comment> \<open>\<open>concat\<close>, where the empty pointer is neutral\<close>
  "add_mc mc g = (case mc of None \<Rightarrow> g | Some c \<Rightarrow> g\<lparr>m_mc := m_mc g @ [c]\<rparr>)"

section \<open>Asserting formulas\<close>

definition push_back :: "expr \<Rightarrow> expr_dependency \<Rightarrow> goal \<Rightarrow> goal" where
  "push_back f d g =
     (if Ast.is_true f then g
      else if Ast.is_false f then
        g\<lparr>m_forms := [m_false], m_dependencies := (if m_core_enabled g then [d] else []), m_inconsistent := True\<rparr>
      else g\<lparr>m_forms := m_forms g @ [f],
             m_dependencies := (if m_core_enabled g then m_dependencies g @ [d] else m_dependencies g)\<rparr>)"

fun e_weight :: "expr \<Rightarrow> nat" where
  \<comment> \<open>for the end of the loops below\<close>
  "e_weight (VAR i s) = 1"
| "e_weight (APP f args) = 1 + sum_list (map e_weight args) + (if f = OP_NOT then 0 else 3 * length args)"

lemma e_weight_pos: "0 < e_weight e"
  by (cases e) simp_all

lemma weight_not: "is_not e \<Longrightarrow> e_weight (get_arg e 0) < e_weight e"
  by (cases e) (auto simp: is_not_def get_arg_def length_Suc_conv)

lemma weight_args: "is_and e \<or> is_or e \<Longrightarrow> sum_list (map e_weight (get_args e)) + 3 * length (get_args e) < e_weight e"
  by (cases e) (auto simp: is_and_def is_or_def)

function quick_loop :: "(expr \<times> bool) list \<Rightarrow> expr_dependency \<Rightarrow> bool \<Rightarrow> expr \<Rightarrow> goal \<Rightarrow> expr \<times> goal" where
  \<comment> \<open>the stack with its top first\<close>
  "quick_loop [] d save_first f g = (f, g)"
| "quick_loop ((cur, pol) # todo) d save_first f g =
     (if m_inconsistent g then (f, g)
      else if pol \<and> is_and cur then quick_loop (map (\<lambda>a. (a, True)) (get_args cur) @ todo) d save_first f g
      else if \<not> pol \<and> is_or cur then quick_loop (map (\<lambda>a. (a, False)) (get_args cur) @ todo) d save_first f g
      else if is_not cur then quick_loop ((get_arg cur 0, \<not> pol) # todo) d save_first f g
      else let cur = (if pol then cur else m_mk_not cur) in
        if save_first then quick_loop todo d False cur g
        else quick_loop todo d save_first f (push_back cur d g))"
  by pat_completeness auto

termination quick_loop
proof (relation "measure (\<lambda>(todo, d, sf, f, g). sum_list (map (e_weight \<circ> fst) todo))")
  show "wf (measure (\<lambda>(todo, d, sf, f, g). sum_list (map (e_weight \<circ> fst) todo)))" by simp
qed (use weight_args weight_not e_weight_pos in \<open>auto simp: comp_def add_strict_right_mono intro: add_lessD1\<close>)

definition quick_process :: "bool \<Rightarrow> expr \<Rightarrow> expr_dependency \<Rightarrow> goal \<Rightarrow> expr \<times> goal" where
  "quick_process save_first f d g =
     (if \<not> is_and f \<and> \<not> (is_not f \<and> is_or (get_arg f 0)) then (f, if save_first then g else push_back f d g)
      else quick_loop [(f, True)] d save_first f g)"

definition neg_child :: "expr \<Rightarrow> expr" where
  \<comment> \<open>the child of \<open>process_not_or\<close>\<close>
  "neg_child child = (if is_not child then get_arg child 0 else m_mk_not child)"

lemma weight_neg_children: "sum_list (map (e_weight \<circ> neg_child) cs) \<le> sum_list (map e_weight cs) + 3 * length cs"
proof (induction cs)
  case (Cons c cs)
  have "e_weight (neg_child c) \<le> e_weight c + 3" using weight_not [of c] by (auto simp: neg_child_def m_mk_not_def)
  with Cons show ?case by simp
qed simp

function slow_process :: "bool \<Rightarrow> expr \<Rightarrow> expr_dependency \<Rightarrow> goal \<times> expr option \<Rightarrow> goal \<times> expr option"
  and process_children :: "bool \<Rightarrow> expr list \<Rightarrow> expr_dependency \<Rightarrow> goal \<times> expr option \<Rightarrow> goal \<times> expr option" where
  \<comment> \<open>the goal with \<open>out_f\<close>; \<open>process_children\<close> is the loop of \<open>process_and\<close> and \<open>process_not_or\<close>\<close>
  "slow_process save_first f d (g, out_f) =
     (if is_and f then process_children save_first (get_args f) d (g, out_f)
      else if is_not f \<and> is_or (get_arg f 0) then process_children save_first (map neg_child (get_args (get_arg f 0))) d (g, out_f)
      else if save_first then (g, Some f)
      else (push_back f d g, out_f))"
| "process_children save_first [] d (g, out_f) = (g, out_f)"
| "process_children save_first (f # fs) d (g, out_f) =
     (if m_inconsistent g then (g, out_f)
      else process_children False fs d (slow_process save_first f d (g, out_f)))"
  by pat_completeness auto

termination slow_process
proof (relation "measure (\<lambda>x. case x of Inl (sf, f, d, s) \<Rightarrow> 2 * e_weight f | Inr (sf, fs, d, s) \<Rightarrow> 2 * sum_list (map e_weight fs) + 1)")
  show "wf (measure (\<lambda>x. case x of Inl (sf, f, d, s) \<Rightarrow> 2 * e_weight f | Inr (sf, fs, d, s) \<Rightarrow> 2 * sum_list (map e_weight fs) + 1))" by simp
next
  fix f assume "is_and f"
  with weight_args [of f] have "sum_list (map e_weight (get_args f)) < e_weight f" by simp
  then show "(Inr (sf, get_args f, d, g, out_f), Inl (sf, f, d, g, out_f))
    \<in> measure (\<lambda>x. case x of Inl (sf, f, d, s) \<Rightarrow> 2 * e_weight f | Inr (sf, fs, d, s) \<Rightarrow> 2 * sum_list (map e_weight fs) + 1)" for sf d g out_f
    by simp
next
  fix f assume "is_not f \<and> is_or (get_arg f 0)"
  with weight_neg_children [of "get_args (get_arg f 0)"] weight_not [of f] weight_args [of "get_arg f 0"]
  have "sum_list (map e_weight (map neg_child (get_args (get_arg f 0)))) < e_weight f" by (simp add: comp_def)
  then show "(Inr (sf, map neg_child (get_args (get_arg f 0)), d, g, out_f), Inl (sf, f, d, g, out_f))
    \<in> measure (\<lambda>x. case x of Inl (sf, f, d, s) \<Rightarrow> 2 * e_weight f | Inr (sf, fs, d, s) \<Rightarrow> 2 * sum_list (map e_weight fs) + 1)" for sf d g out_f
    by simp
qed (use e_weight_pos in \<open>auto simp: less_Suc_eq_le Suc_le_eq\<close>)

definition assert_expr :: "expr \<Rightarrow> bool \<Rightarrow> expr_dependency \<Rightarrow> goal \<Rightarrow> goal" where
  \<comment> \<open>with the information whether there is a proof\<close>
  "assert_expr f pr d g =
     (if m_inconsistent g then g
      else if pr then fst (slow_process False f d (g, None))
      else snd (quick_process False f d g))"

definition set_form :: "nat \<Rightarrow> expr \<Rightarrow> expr_dependency \<Rightarrow> goal \<Rightarrow> goal" where
  "set_form i f d g = g\<lparr>m_forms := (m_forms g)[i := f],
     m_dependencies := (if m_core_enabled g then (m_dependencies g)[i := d] else m_dependencies g)\<rparr>"

definition update_form :: "nat \<Rightarrow> expr \<Rightarrow> bool \<Rightarrow> expr_dependency \<Rightarrow> goal \<Rightarrow> goal option" where
  \<comment> \<open>\<open>goal::update\<close>; \<open>None\<close> when \<open>out_f\<close> is used unset, which a conjunction without leaves in front does
    when proofs are enabled\<close>
  "update_form i f pr d g =
     (if m_inconsistent g then Some g
      else if m_proofs_enabled g then
        (if \<not> pr then Some g
         else let (g1, out) = slow_process True f d (g, None) in
           if m_inconsistent g1 then Some g1
           else case out of
             None \<Rightarrow> None
           | Some out_f \<Rightarrow> Some (if Ast.is_false out_f then push_back out_f d g1 else set_form i out_f d g1))
      else let (fr, g1) = quick_process True f d g in
        Some (if m_inconsistent g1 then g1
              else if Ast.is_false fr then push_back f d g1
              else set_form i fr d g1))"

definition reset_core :: "goal \<Rightarrow> goal" where
  "reset_core g = g\<lparr>m_forms := [], m_dependencies := []\<rparr>"

definition reset_all :: "goal \<Rightarrow> goal" where
  "reset_all g = (reset_core g)\<lparr>m_depth := 0, m_inconsistent := False, m_precision := PRECISE\<rparr>"

definition reset :: "goal \<Rightarrow> goal" where
  "reset g = (reset_core g)\<lparr>m_inconsistent := False\<rparr>"

section \<open>Compaction\<close>

definition shrink :: "nat \<Rightarrow> goal \<Rightarrow> goal" where
  "shrink j g = g\<lparr>m_forms := take j (m_forms g),
     m_dependencies := (if m_core_enabled g then take j (m_dependencies g) else m_dependencies g)\<rparr>"

definition keep_form :: "nat \<Rightarrow> nat \<Rightarrow> goal \<Rightarrow> goal" where
  \<comment> \<open>formula \<open>i\<close> to the place \<open>j\<close>, in both loops\<close>
  "keep_form i j g = (if i = j then g else set_form j (form g i) (dep g i) g)"

definition elim_true_step :: "nat \<Rightarrow> nat \<times> goal \<Rightarrow> nat \<times> goal" where
  "elim_true_step i = (\<lambda>(j, g). if Ast.is_true (form g i) then (j, g) else (Suc j, keep_form i j g))"

definition elim_true :: "goal \<Rightarrow> goal" where
  "elim_true g = (let (j, g1) = fold elim_true_step [0..<size_goal g] (0, g) in shrink j g1)"

definition get_idx :: "goal \<Rightarrow> expr \<Rightarrow> nat" where
  "get_idx g f = (case find (\<lambda>j. form g j = f) [0..<size_goal g] of Some j \<Rightarrow> j | None \<Rightarrow> 2 ^ 32 - 1)"

definition get_not_idx :: "goal \<Rightarrow> expr \<Rightarrow> nat" where
  "get_not_idx g f = (case find (\<lambda>j. is_not (form g j) \<and> get_arg (form g j) 0 = f) [0..<size_goal g] of
     Some j \<Rightarrow> j | None \<Rightarrow> 2 ^ 32 - 1)"

fun redundancies_loop :: "nat list \<Rightarrow> expr set \<Rightarrow> expr set \<Rightarrow> nat \<Rightarrow> goal \<Rightarrow> goal" where
  "redundancies_loop [] neg_lits pos_lits j g = shrink j g"
| "redundancies_loop (i # is) neg_lits pos_lits j g =
     (let f = form g i; atom = get_arg f 0 in
      if Ast.is_true f then redundancies_loop is neg_lits pos_lits j g
      else if is_not f then
        if atom \<in> neg_lits then redundancies_loop is neg_lits pos_lits j g
        else if atom \<in> pos_lits then push_back m_false (dep g (get_idx g atom) \<union> dep g i) g
        else redundancies_loop is (insert atom neg_lits) pos_lits (Suc j) (keep_form i j g)
      else
        if f \<in> pos_lits then redundancies_loop is neg_lits pos_lits j g
        else if f \<in> neg_lits then push_back m_false (dep g (get_not_idx g f) \<union> dep g i) g
        else redundancies_loop is neg_lits (insert f pos_lits) (Suc j) (keep_form i j g))"

definition elim_redundancies :: "goal \<Rightarrow> goal" where
  "elim_redundancies g = (if m_inconsistent g then g else redundancies_loop [0..<size_goal g] {} {} 0 g)"

section \<open>Tests\<close>

definition is_well_formed :: "goal \<Rightarrow> bool" where
  "is_well_formed g = list_all well_sorted (m_forms g)"

definition sat_preserved :: "goal \<Rightarrow> bool" where
  "sat_preserved g \<longleftrightarrow> m_precision g = PRECISE \<or> m_precision g = UNDER"

definition unsat_preserved :: "goal \<Rightarrow> bool" where
  "unsat_preserved g \<longleftrightarrow> m_precision g = PRECISE \<or> m_precision g = OVER"

definition is_decided_sat :: "goal \<Rightarrow> bool" where
  "is_decided_sat g \<longleftrightarrow> size_goal g = 0 \<and> sat_preserved g"

definition is_decided_unsat :: "goal \<Rightarrow> bool" where
  "is_decided_unsat g \<longleftrightarrow> m_inconsistent g \<and> unsat_preserved g"

definition is_decided :: "goal \<Rightarrow> bool" where
  "is_decided g \<longleftrightarrow> is_decided_sat g \<or> is_decided_unsat g"

definition mark_unique :: "expr \<Rightarrow> nat \<times> expr set \<Rightarrow> nat \<times> expr set" where
  "mark_unique f = (\<lambda>(num, visited). if f \<in> visited then (num, visited) else (Suc num, insert f visited))"

fun is_equal_loop :: "expr list \<Rightarrow> expr set \<Rightarrow> nat \<Rightarrow> nat \<times> expr set \<Rightarrow> bool" where
  "is_equal_loop [] visited1 num1 s = (num1 = fst s)"
| "is_equal_loop (f2 # fs) visited1 num1 s =
     (if f2 \<in> snd s then is_equal_loop fs visited1 num1 s
      else if f2 \<notin> visited1 then False
      else is_equal_loop fs visited1 num1 (mark_unique f2 s))"

definition is_equal_goal :: "goal \<Rightarrow> goal \<Rightarrow> bool" where
  "is_equal_goal s1 s2 =
     (if size_goal s1 \<noteq> size_goal s2 then False
      else let (num1, visited1) = fold mark_unique (m_forms s1) (0, {})
           in is_equal_loop (m_forms s2) visited1 num1 (0, {}))"

definition is_literal :: "expr \<Rightarrow> bool" where
  "is_literal f0 = (let f = (if is_not f0 then get_arg f0 0 else f0) in
     case f of VAR i s \<Rightarrow> False
     | APP d args \<Rightarrow> \<not> (get_family_id d = basic_family \<and> list_ex is_bool args))"

fun is_cnf_loop :: "expr list \<Rightarrow> bool" where
  "is_cnf_loop [] = True"
| "is_cnf_loop (f # fs) =
     (if is_or f then list_all is_literal (get_args f)
      else if \<not> is_literal f then False
      else is_cnf_loop fs)"

definition is_cnf :: "goal \<Rightarrow> bool" where
  "is_cnf g = is_cnf_loop (m_forms g)"

end
