(* ===== verification/Goal_Sound.thy ===== *)
theory Goal_Sound
  imports Goal
begin

text \<open>
  What the operations of a goal keep: the conjunction of its formulas. Asserting a formula
  appends the leaves of the conjunctions it is made of, updating replaces one formula by them,
  and the compactions drop formulas without changing the conjunction.
\<close>

section \<open>Meaning and invariant\<close>

definition goal_holds :: "interp \<Rightarrow> goal \<Rightarrow> bool" where
  "goal_holds I g = list_all (holds_in I) (m_forms g)"

definition goal_inv :: "goal \<Rightarrow> bool" where
  "goal_inv g \<longleftrightarrow> (m_inconsistent g \<longrightarrow> m_forms g = [m_false]) \<and> (m_core_enabled g \<longrightarrow> length (m_dependencies g) = length (m_forms g))"

lemma holds_const [simp]: "holds_in I m_true" "\<not> holds_in I m_false"
  by (simp_all add: holds_in_def m_true_def m_false_def)

lemma holds_and: "is_and e \<Longrightarrow> holds_in I e \<longleftrightarrow> list_all (holds_in I) (get_args e)"
  by (cases e) (auto simp: is_and_def holds_in_def list_all_iff)

lemma holds_or: "is_or e \<Longrightarrow> holds_in I e \<longleftrightarrow> list_ex (holds_in I) (get_args e)"
  by (cases e) (auto simp: is_or_def holds_in_def list_ex_iff)

lemma holds_not: "is_not e \<Longrightarrow> holds_in I e \<longleftrightarrow> \<not> holds_in I (get_arg e 0)" "holds_in I (m_mk_not e) \<longleftrightarrow> \<not> holds_in I e"
  by (cases e) (auto simp: is_not_def get_arg_def holds_in_def m_mk_not_def)

lemma inconsistent_unsat: "goal_inv g \<Longrightarrow> m_inconsistent g \<Longrightarrow> \<not> goal_holds I g"
  by (simp add: goal_inv_def goal_holds_def)

lemma push_back_holds: "goal_holds I (push_back f d g) \<longleftrightarrow> goal_holds I g \<and> holds_in I f"
  by (auto simp: push_back_def goal_holds_def Ast.is_true_def Ast.is_false_def)

lemma push_back_inv: "goal_inv g \<Longrightarrow> \<not> m_inconsistent g \<Longrightarrow> goal_inv (push_back f d g)"
  by (simp add: push_back_def goal_inv_def)

lemma push_false: "m_inconsistent (push_back m_false d g)"
  by (simp add: push_back_def Ast.is_true_def Ast.is_false_def m_true_def m_false_def)

section \<open>Asserting\<close>

text \<open>The leaves of a formula are pushed one after the other, until the goal is inconsistent.\<close>

fun push_all :: "expr_dependency \<Rightarrow> expr list \<Rightarrow> goal \<Rightarrow> goal" where
  "push_all d [] g = g"
| "push_all d (f # fs) g = (if m_inconsistent g then g else push_all d fs (push_back f d g))"

lemma push_all_stop [simp]: "m_inconsistent g \<Longrightarrow> push_all d fs g = g"
  by (cases fs) simp_all

lemma push_all_append: "push_all d (xs @ ys) g = push_all d ys (push_all d xs g)"
  by (induction xs arbitrary: g) simp_all

lemma push_all_holds: "goal_inv g \<Longrightarrow> goal_inv (push_all d fs g) \<and> (goal_holds I (push_all d fs g) \<longleftrightarrow> goal_holds I g \<and> list_all (holds_in I) fs)"
proof (induction fs arbitrary: g)
  case (Cons f fs)
  show ?case
  proof (cases "m_inconsistent g")
    case True
    with Cons.prems inconsistent_unsat show ?thesis by simp
  next
    case False
    with Cons.IH [of "push_back f d g"] Cons.prems push_back_inv push_back_holds show ?thesis by auto
  qed
qed simp

lemma push_back_forms:
  assumes "\<not> m_inconsistent (push_back f d g)"
  obtains L :: "expr list" and ds where "push_back f d g = g\<lparr>m_forms := m_forms g @ L, m_dependencies := m_dependencies g @ ds\<rparr>"
    "\<And>I. list_all (holds_in I) L \<longleftrightarrow> holds_in I f"
proof (cases "Ast.is_true f")
  case True
  then show ?thesis by (intro that [where L = "[]" and ds = "[]"]) (simp_all add: push_back_def Ast.is_true_def)
next
  case False
  with assms show ?thesis
    by (intro that [where L = "[f]" and ds = "if m_core_enabled g then [d] else []"]) (auto simp: push_back_def split: if_splits)
qed

lemma push_all_forms:
  "\<not> m_inconsistent (push_all d fs g) \<Longrightarrow> \<exists>L ds. push_all d fs g = g\<lparr>m_forms := m_forms g @ L, m_dependencies := m_dependencies g @ ds\<rparr> \<and>
     (\<forall>I. list_all (holds_in I) L \<longleftrightarrow> list_all (holds_in I) fs)"
proof (induction fs arbitrary: g)
  case Nil
  show ?case by (rule exI [of _ "[]"], rule exI [of _ "[]"]) simp
next
  case (Cons f fs)
  then have ni: "\<not> m_inconsistent g" "\<not> m_inconsistent (push_all d fs (push_back f d g))" by (auto split: if_splits)
  from Cons.IH [OF ni(2)] obtain L ds where l: "push_all d fs (push_back f d g) =
      (push_back f d g)\<lparr>m_forms := m_forms (push_back f d g) @ L, m_dependencies := m_dependencies (push_back f d g) @ ds\<rparr>"
      "\<forall>I. list_all (holds_in I) L \<longleftrightarrow> list_all (holds_in I) fs" by blast
  have "\<not> m_inconsistent (push_back f d g)" using ni(2) by (metis push_all_stop)
  then obtain L' ds' where p: "push_back f d g = g\<lparr>m_forms := m_forms g @ L', m_dependencies := m_dependencies g @ ds'\<rparr>"
      "\<And>I. list_all (holds_in I) L' \<longleftrightarrow> holds_in I f"
    by (rule push_back_forms) blast
  show ?case by (rule exI [of _ "L' @ L"], rule exI [of _ "ds' @ ds"]) (simp add: ni(1) l p(2), simp add: p(1))
qed

function leaves :: "(expr \<times> bool) list \<Rightarrow> expr list" where
  "leaves [] = []"
| "leaves ((cur, pol) # todo) =
     (if pol \<and> is_and cur then leaves (map (\<lambda>a. (a, True)) (get_args cur) @ todo)
      else if \<not> pol \<and> is_or cur then leaves (map (\<lambda>a. (a, False)) (get_args cur) @ todo)
      else if is_not cur then leaves ((get_arg cur 0, \<not> pol) # todo)
      else (if pol then cur else m_mk_not cur) # leaves todo)"
  by pat_completeness auto

termination leaves
proof (relation "measure (\<lambda>todo. sum_list (map (e_weight \<circ> fst) todo))")
  show "wf (measure (\<lambda>todo. sum_list (map (e_weight \<circ> fst) todo)))" by simp
qed (use weight_args weight_not e_weight_pos in \<open>auto simp: comp_def add_strict_right_mono intro: add_lessD1\<close>)

lemma leaf_cases:
  obtains "pol" "is_and cur" "leaves ((cur, pol) # todo) = leaves (map (\<lambda>a. (a, True)) (get_args cur) @ todo)"
  | "\<not> pol" "is_or cur" "leaves ((cur, pol) # todo) = leaves (map (\<lambda>a. (a, False)) (get_args cur) @ todo)"
  | "\<not> (pol \<and> is_and cur)" "\<not> (\<not> pol \<and> is_or cur)" "is_not cur" "leaves ((cur, pol) # todo) = leaves ((get_arg cur 0, \<not> pol) # todo)"
  | "\<not> (pol \<and> is_and cur)" "\<not> (\<not> pol \<and> is_or cur)" "\<not> is_not cur"
    "leaves ((cur, pol) # todo) = (if pol then cur else m_mk_not cur) # leaves todo"
proof -
  note l = leaves.simps(2) [of cur pol todo]
  consider "pol \<and> is_and cur" | "\<not> pol \<and> is_or cur" | "\<not> (pol \<and> is_and cur)" "\<not> (\<not> pol \<and> is_or cur)" "is_not cur"
    | "\<not> (pol \<and> is_and cur)" "\<not> (\<not> pol \<and> is_or cur)" "\<not> is_not cur" by blast
  then show thesis
  proof cases
    case 1
    with l show ?thesis using that(1) by presburger
  next
    case 2
    with l show ?thesis using that(2) by presburger
  next
    case 3
    with l show ?thesis using that(3) by presburger
  next
    case 4
    with l show ?thesis using that(4) by presburger
  qed
qed

lemma leaves_holds: "list_all (holds_in I) (leaves todo) \<longleftrightarrow> list_all (\<lambda>(e, pol). holds_in I e = pol) todo"
proof (induction todo rule: leaves.induct)
  case (2 cur pol todo)
  show ?case
  proof (cases rule: leaf_cases [of pol cur todo])
    case 1
    with 2(1) show ?thesis by (simp add: holds_and list_all_iff ball_Un)
  next
    case a: 2
    with 2(2) show ?thesis by (simp add: holds_or list_all_iff list_ex_iff ball_Un)
  next
    case 3
    with 2(3) show ?thesis using holds_not(1) [of cur] by (cases pol) (simp_all del: leaves.simps)
  next
    case 4
    with 2(4) show ?thesis by (simp del: leaves.simps add: holds_not(2))
  qed
qed simp

lemma quick_loop_push:
  "quick_loop todo d sf f g =
    (if m_inconsistent g \<or> \<not> sf then (f, push_all d (leaves todo) g)
     else case leaves todo of [] \<Rightarrow> (f, g) | x # xs \<Rightarrow> (x, push_all d xs g))"
proof (induction todo d sf f g rule: quick_loop.induct)
  case (2 cur pol todo d sf f g)
  show ?case
  proof (cases "m_inconsistent g")
    case True
    then show ?thesis by (subst quick_loop.simps) simp
  next
    case False
    show ?thesis
    proof (cases rule: leaf_cases [of pol cur todo])
      case 1
      with 2(1) False show ?thesis by (subst quick_loop.simps) simp
    next
      case a: 2
      with 2(2) False show ?thesis by (subst quick_loop.simps) simp
    next
      case 3
      then have "quick_loop ((cur, pol) # todo) d sf f g = quick_loop ((get_arg cur 0, \<not> pol) # todo) d sf f g"
        using quick_loop.simps(2) [of cur pol todo d sf f g] False by presburger
      with 2(3) 3 False show ?thesis by (simp only: simp_thms)
    next
      case 4
      let ?c = "if pol then cur else m_mk_not cur"
      have "quick_loop ((cur, pol) # todo) d sf f g =
          (if sf then quick_loop todo d False ?c g else quick_loop todo d sf f (push_back ?c d g))"
        using quick_loop.simps(2) [of cur pol todo d sf f g] False 4 unfolding Let_def by presburger
      with 2(4) [OF False 4(1,2,3) refl] 2(5) [OF False 4(1,2,3) refl] False 4(4) show ?thesis by (cases sf) simp_all
    qed
  qed
qed simp

lemma quick_process_push:
  assumes "\<not> m_inconsistent g"
  obtains L where "quick_process False f d g = (f, push_all d L g)" "\<And>I. list_all (holds_in I) L \<longleftrightarrow> holds_in I f"
proof (cases "is_and f \<or> (is_not f \<and> is_or (get_arg f 0))")
  case True
  then have "quick_process False f d g = (f, push_all d (leaves [(f, True)]) g)"
    by (auto simp: quick_process_def quick_loop_push simp del: leaves.simps)
  then show ?thesis by (rule that) (simp add: leaves_holds del: leaves.simps)
next
  case False
  with that [of "[f]"] assms show ?thesis by (auto simp: quick_process_def)
qed

lemma quick_process_first:
  assumes "\<not> m_inconsistent g"
  obtains x L where "quick_process True f d g = (x, push_all d L g)" "\<And>I. holds_in I x \<and> list_all (holds_in I) L \<longleftrightarrow> holds_in I f"
proof (cases "is_and f \<or> (is_not f \<and> is_or (get_arg f 0))")
  case True
  have h: "list_all (holds_in I) (leaves [(f, True)]) \<longleftrightarrow> holds_in I f" for I by (simp add: leaves_holds del: leaves.simps)
  show ?thesis
  proof (cases "leaves [(f, True)]")
    case Nil
    with True assms have "quick_process True f d g = (f, push_all d [] g)"
      by (auto simp: quick_process_def quick_loop_push simp del: leaves.simps)
    then show ?thesis by (rule that) simp
  next
    case (Cons x xs)
    with True assms have "quick_process True f d g = (x, push_all d xs g)"
      by (auto simp: quick_process_def quick_loop_push simp del: leaves.simps)
    then show ?thesis by (rule that) (use h Cons in simp)
  qed
next
  case False
  with that [of f "[]"] assms show ?thesis by (auto simp: quick_process_def)
qed

section \<open>Asserting with proofs\<close>

lemma push_all_inconsistent:
  "\<not> m_inconsistent g \<Longrightarrow> m_inconsistent (push_all d L g) \<Longrightarrow> \<not> list_all (holds_in I) L"
proof (induction L arbitrary: g)
  case (Cons f fs)
  show ?case
  proof (cases "m_inconsistent (push_back f d g)")
    case True
    with Cons.prems(1) have "f = m_false" by (auto simp: push_back_def Ast.is_false_def split: if_splits)
    then show ?thesis by simp
  next
    case False
    with Cons show ?thesis by simp
  qed
qed simp

definition pushed :: "bool \<Rightarrow> expr_dependency \<Rightarrow> (interp \<Rightarrow> bool) \<Rightarrow> goal \<times> expr option \<Rightarrow> goal \<times> expr option \<Rightarrow> bool" where
  \<comment> \<open>formulas that mean \<open>P\<close> are pushed, or all but one that is saved where that is asked for\<close>
  "pushed sf d P s s' \<longleftrightarrow> (\<exists>L. fst s' = push_all d L (fst s) \<and>
     (if m_inconsistent (fst s) then snd s' = snd s
      else snd s' = snd s \<and> (\<forall>I. list_all (holds_in I) L \<longleftrightarrow> P I) \<or>
        sf \<and> (\<exists>x. snd s' = Some x \<and> (\<forall>I. holds_in I x \<and> list_all (holds_in I) L \<longleftrightarrow> P I))))"

lemma pushed_trans:
  assumes "pushed sf d P s1 s2" "pushed False d Q s2 s3"
  shows "pushed sf d (\<lambda>I. P I \<and> Q I) s1 s3"
proof -
  obtain L where L: "fst s2 = push_all d L (fst s1)"
    "if m_inconsistent (fst s1) then snd s2 = snd s1 else snd s2 = snd s1 \<and> (\<forall>I. list_all (holds_in I) L \<longleftrightarrow> P I) \<or>
        sf \<and> (\<exists>x. snd s2 = Some x \<and> (\<forall>I. holds_in I x \<and> list_all (holds_in I) L \<longleftrightarrow> P I))"
    using assms(1) unfolding pushed_def by blast
  obtain M where M: "fst s3 = push_all d M (fst s2)" "snd s3 = snd s2"
    "\<not> m_inconsistent (fst s2) \<Longrightarrow> list_all (holds_in I) M \<longleftrightarrow> Q I" for I
    using assms(2) unfolding pushed_def by (auto split: if_splits)
  show ?thesis
  proof (cases "\<not> m_inconsistent (fst s1) \<and> m_inconsistent (fst s2)")
    case True
    with push_all_inconsistent [of "fst s1" d L] L(1) have "\<not> list_all (holds_in I) L" for I by simp
    with True L M(1,2) show ?thesis unfolding pushed_def by (intro exI [of _ L]) auto
  next
    case False
    have s3: "fst s3 = push_all d (L @ M) (fst s1)" by (simp add: push_all_append L(1) M(1))
    consider "m_inconsistent (fst s1)" "snd s2 = snd s1"
      | "\<not> m_inconsistent (fst s1)" "snd s2 = snd s1" "\<And>I. list_all (holds_in I) L \<longleftrightarrow> P I"
      | x where "\<not> m_inconsistent (fst s1)" sf "snd s2 = Some x" "\<And>I. holds_in I x \<and> list_all (holds_in I) L \<longleftrightarrow> P I"
      using L(2) by (auto split: if_splits)
    then show ?thesis
      unfolding pushed_def using False M(2,3) by cases (intro exI [of _ "L @ M"]; simp add: s3; blast)+
  qed
qed

lemma pushed_stop: "m_inconsistent g \<Longrightarrow> pushed sf d P (g, out) (g, out)"
  unfolding pushed_def by (auto intro: exI [of _ "[]"])

lemma neg_children_holds: "list_all (holds_in I) (map neg_child cs) \<longleftrightarrow> \<not> list_ex (holds_in I) cs"
proof -
  have "holds_in I (neg_child c) \<longleftrightarrow> \<not> holds_in I c" for c
    using holds_not(1) [of c] by (auto simp: neg_child_def holds_not(2))
  then show ?thesis by (auto simp: list_all_iff list_ex_iff)
qed

lemma slow_process_pushed:
  "\<not> m_inconsistent (fst s) \<Longrightarrow> pushed sf d (\<lambda>I. holds_in I f) s (slow_process sf f d s)"
  "pushed sf d (\<lambda>I. list_all (holds_in I) fs) s (process_children sf fs d s)"
proof (induction sf f d s and sf fs d s rule: slow_process_process_children.induct)
  case (1 sf f d g out)
  consider "is_and f" | "\<not> is_and f" "is_not f" "is_or (get_arg f 0)" | "\<not> is_and f" "\<not> (is_not f \<and> is_or (get_arg f 0))" by blast
  then show ?case
  proof cases
    case 1
    with "1.IH"(1) "1.prems" show ?thesis by (simp add: holds_and)
  next
    case 2
    then have "(\<lambda>I. holds_in I f) = (\<lambda>I. list_all (holds_in I) (map neg_child (get_args (get_arg f 0))))"
      by (simp only: neg_children_holds holds_not(1) holds_or)
    with "1.IH"(2) "1.prems" 2 show ?thesis by (simp del: list.map)
  next
    case 3
    have "pushed False d (\<lambda>I. holds_in I f) (g, out) (push_back f d g, out)"
      using "1.prems" unfolding pushed_def by (intro exI [of _ "[f]"]) simp
    moreover have "pushed True d (\<lambda>I. holds_in I f) (g, out) (g, Some f)"
      using "1.prems" unfolding pushed_def by (intro exI [of _ "[]"]) simp
    ultimately show ?thesis using 3 by (cases sf) auto
  qed
next
  case (2 sf d g out)
  show ?case by (auto simp: pushed_def intro: exI [of _ "[]"])
next
  case (3 sf f fs d g out)
  show ?case
  proof (cases "m_inconsistent g")
    case True
    then show ?thesis by (simp add: pushed_stop)
  next
    case False
    let ?s = "slow_process sf f d (g, out)"
    have "pushed sf d (\<lambda>I. holds_in I f) (g, out) ?s" using 3 False by simp
    moreover have "pushed False d (\<lambda>I. list_all (holds_in I) fs) ?s (process_children False fs d ?s)"
      using 3(2) False by simp
    ultimately show ?thesis using pushed_trans False by (simp del: slow_process.simps)
  qed
qed

section \<open>What asserting and updating mean\<close>

lemma assert_expr_holds:
  assumes "goal_inv g"
  shows "goal_inv (assert_expr f pr d g) \<and> (goal_holds I (assert_expr f pr d g) \<longleftrightarrow> goal_holds I g \<and> holds_in I f)"
proof (cases "m_inconsistent g")
  case True
  with assms inconsistent_unsat show ?thesis by (simp add: assert_expr_def)
next
  case False
  show ?thesis
  proof (cases pr)
    case True
    obtain L where "fst (slow_process False f d (g, None)) = push_all d L g" "\<And>I. list_all (holds_in I) L \<longleftrightarrow> holds_in I f"
      using slow_process_pushed(1) [of "(g, None)" False d f] False unfolding pushed_def by auto
    with False True push_all_holds [OF assms, of d L I] show ?thesis by (simp add: assert_expr_def del: slow_process.simps)
  next
    case np: False
    obtain L where "quick_process False f d g = (f, push_all d L g)" "\<And>I. list_all (holds_in I) L \<longleftrightarrow> holds_in I f"
      using quick_process_push [OF False] by metis
    with False np push_all_holds [OF assms, of d L I] show ?thesis by (simp add: assert_expr_def)
  qed
qed

lemma set_form_holds:
  "i < size_goal g \<Longrightarrow> goal_holds I (set_form i f d g) \<longleftrightarrow> (\<forall>j < size_goal g. j \<noteq> i \<longrightarrow> holds_in I (form g j)) \<and> holds_in I f"
  by (auto simp: goal_holds_def set_form_def list_all_length size_goal_def form_def nth_list_update)

lemma set_form_inv: "goal_inv g \<Longrightarrow> \<not> m_inconsistent g \<Longrightarrow> goal_inv (set_form i f d g)"
  by (auto simp: goal_inv_def set_form_def)

definition replaced :: "nat \<Rightarrow> expr \<Rightarrow> goal \<Rightarrow> goal \<Rightarrow> bool" where
  \<comment> \<open>formula \<open>i\<close> is replaced by others that mean \<open>f\<close>, one in its place and the rest at the end\<close>
  "replaced i f g g' \<longleftrightarrow> (if m_inconsistent g' then \<forall>I. \<not> holds_in I f
     else \<exists>x M. m_forms g' = (m_forms g)[i := x] @ M \<and> (\<forall>I. holds_in I x \<and> list_all (holds_in I) M \<longleftrightarrow> holds_in I f))"

definition same_config :: "goal \<Rightarrow> goal \<Rightarrow> bool" where
  "same_config g g' \<longleftrightarrow> m_mc g' = m_mc g \<and> m_depth g' = m_depth g \<and> m_models_enabled g' = m_models_enabled g \<and>
     m_proofs_enabled g' = m_proofs_enabled g \<and> m_core_enabled g' = m_core_enabled g \<and> m_precision g' = m_precision g"

lemma push_back_config: "same_config g (push_back f d g)"
  by (simp add: same_config_def push_back_def)

lemma push_all_config: "same_config g (push_all d fs g)"
proof (induction fs arbitrary: g)
  case (Cons f fs)
  then show ?case using push_back_config [of g f d] Cons [of "push_back f d g"] by (simp add: same_config_def)
qed (simp add: same_config_def)

text \<open>The end of an update: the saved formula is put in place, or a formula without models pushed.\<close>

lemma finish_replaced:
  assumes ni: "\<not> m_inconsistent g" and i: "i < size_goal g" and g1: "g1 = push_all d L g"
    and meaning: "\<And>I. holds_in I x \<and> list_all (holds_in I) L \<longleftrightarrow> holds_in I f"
    and y: "y = x \<or> y = f"
    and g': "g' = (if m_inconsistent g1 then g1 else if Ast.is_false x then push_back y d g1 else set_form i x d g1)"
  shows "replaced i f g g'"
proof (cases "m_inconsistent g1")
  case True
  with push_all_inconsistent [OF ni] meaning g1 have "\<not> holds_in I f" for I by blast
  with True g' show ?thesis by (simp add: replaced_def)
next
  case False
  with push_all_forms [of d L g] g1 obtain L' ds where
    l: "g1 = g\<lparr>m_forms := m_forms g @ L', m_dependencies := m_dependencies g @ ds\<rparr>"
      "\<And>I. list_all (holds_in I) L' \<longleftrightarrow> list_all (holds_in I) L" by blast
  show ?thesis
  proof (cases "Ast.is_false x")
    case True
    have n: "\<not> holds_in I y" "\<not> holds_in I f" for I using y meaning [of I] True by (auto simp: Ast.is_false_def)
    then have "\<not> Ast.is_true y" by (auto simp: Ast.is_true_def)
    then have "m_forms (push_back y d g1) = (m_forms g)[i := form g i] @ L' @ [y]" if "\<not> Ast.is_false y"
      using that by (simp add: push_back_def l(1) form_def)
    moreover have "m_inconsistent (push_back y d g1) = Ast.is_false y" using False n(1) \<open>\<not> Ast.is_true y\<close> by (simp add: push_back_def)
    ultimately show ?thesis using True False g' n
      by (auto simp: replaced_def intro!: exI [of _ "form g i"] exI [of _ "L' @ [y]"])
  next
    case nf: False
    have "m_forms (set_form i x d g1) = (m_forms g)[i := x] @ L'" "m_inconsistent (set_form i x d g1) = m_inconsistent g1"
      using i by (simp_all add: set_form_def l(1) list_update_append size_goal_def)
    then show ?thesis using nf False g' l(2) meaning by (auto simp: replaced_def)
  qed
qed

lemma finish_update:
  assumes inv: "goal_inv g" and ni: "\<not> m_inconsistent g" and i: "i < size_goal g" and g1: "g1 = push_all d L g"
    and meaning: "\<And>I. holds_in I x \<and> list_all (holds_in I) L \<longleftrightarrow> holds_in I f"
    and y: "y = x \<or> y = f"
    and g': "g' = (if m_inconsistent g1 then g1 else if Ast.is_false x then push_back y d g1 else set_form i x d g1)"
  shows "goal_inv g' \<and> same_config g g' \<and> replaced i f g g' \<and> (goal_holds I g' \<longleftrightarrow> goal_holds I (set_form i f d g))"
proof -
  have i1: "goal_inv g1" and c1: "same_config g g1" using push_all_holds [OF inv] push_all_config g1 by auto
  note sf = set_form_holds [OF i, of I f d]
  have r: "replaced i f g g'" using finish_replaced [OF ni i g1 meaning y g'] .
  have i': "goal_inv g'" using i1 g' push_back_inv [OF i1] set_form_inv [OF i1] by auto
  have c': "same_config g g'"
    using c1 g' push_back_config [of g1 y d] by (auto simp: same_config_def set_form_def)
  have "goal_holds I g' \<longleftrightarrow> goal_holds I (set_form i f d g)"
  proof (cases "m_inconsistent g'")
    case True
    with r inconsistent_unsat [OF i'] sf show ?thesis by (simp add: replaced_def)
  next
    case False
    with r obtain z M where "m_forms g' = (m_forms g)[i := z] @ M" "\<And>I. holds_in I z \<and> list_all (holds_in I) M \<longleftrightarrow> holds_in I f"
      by (auto simp: replaced_def)
    moreover have "list_all (holds_in I) ((m_forms g)[i := z]) \<longleftrightarrow> goal_holds I (set_form i z d g)" by (simp add: goal_holds_def set_form_def)
    ultimately have "goal_holds I g' \<longleftrightarrow> goal_holds I (set_form i z d g) \<and> list_all (holds_in I) M" by (simp add: goal_holds_def)
    with \<open>\<And>I. holds_in I z \<and> list_all (holds_in I) M \<longleftrightarrow> holds_in I f\<close> [of I] show ?thesis
      by (simp only: set_form_holds [OF i]) blast
  qed
  with r i' c' show ?thesis by blast
qed

lemma update_form_holds:
  assumes inv: "goal_inv g" and ni: "\<not> m_inconsistent g" and i: "i < size_goal g" and pr: "m_proofs_enabled g \<Longrightarrow> pr"
    and g': "update_form i f pr d g = Some g'"
  shows "goal_inv g' \<and> same_config g g' \<and> replaced i f g g' \<and> (goal_holds I g' \<longleftrightarrow> goal_holds I (set_form i f d g))"
proof (cases "m_proofs_enabled g")
  case True
  obtain g1 out where s: "slow_process True f d (g, None) = (g1, out)" by fastforce
  obtain L where L: "g1 = push_all d L g" "out = None \<and> (\<forall>I. list_all (holds_in I) L \<longleftrightarrow> holds_in I f) \<or>
      (\<exists>x. out = Some x \<and> (\<forall>I. holds_in I x \<and> list_all (holds_in I) L \<longleftrightarrow> holds_in I f))"
    using slow_process_pushed(1) [of "(g, None)" True d f] ni s unfolding pushed_def by auto
  show ?thesis
  proof (cases out)
    case None
    with True g' s ni pr have "m_inconsistent g1" "g' = g1" by (auto simp: update_form_def split: if_splits)
    with None L finish_update [OF inv ni i L(1), of m_true f m_true g' I] show ?thesis by simp
  next
    case (Some x)
    with True g' s ni pr have "g' = (if m_inconsistent g1 then g1 else if Ast.is_false x then push_back x d g1 else set_form i x d g1)"
      by (auto simp: update_form_def)
    with Some L(2) show ?thesis by (intro finish_update [OF inv ni i L(1)]) auto
  qed
next
  case False
  obtain x L where L: "quick_process True f d g = (x, push_all d L g)" "\<And>I. holds_in I x \<and> list_all (holds_in I) L \<longleftrightarrow> holds_in I f"
    using quick_process_first [OF ni] by metis
  with False g' ni show ?thesis by (intro finish_update [OF inv ni i refl L(2), of f]) (auto simp: update_form_def)
qed

section \<open>Compaction\<close>

lemma keep_form_forms: "m_forms (keep_form i j g) = (m_forms g)[j := m_forms g ! i]"
  by (cases "i = j") (simp_all add: keep_form_def set_form_def form_def)

lemma keep_form_rest:
  "same_config g (keep_form i j g)" "m_inconsistent (keep_form i j g) = m_inconsistent g"
  "length (m_dependencies (keep_form i j g)) = length (m_dependencies g)"
  by (auto simp: keep_form_def set_form_def same_config_def)

lemma keep_form_take:
  "j \<le> i \<Longrightarrow> i < length (m_forms g) \<Longrightarrow> take (Suc j) (m_forms (keep_form i j g)) = take j (m_forms g) @ [m_forms g ! i]"
  "j \<le> i \<Longrightarrow> drop (Suc i) (m_forms (keep_form i j g)) = drop (Suc i) (m_forms g)"
  by (simp_all add: keep_form_forms take_Suc_conv_app_nth)

lemma fold_elim_true:
  "i \<le> size_goal g \<Longrightarrow> goal_inv g \<Longrightarrow> \<exists>j g1. fold elim_true_step [0..<i] (0, g) = (j, g1) \<and> j \<le> i \<and>
     take j (m_forms g1) = filter (\<lambda>f. \<not> Ast.is_true f) (take i (m_forms g)) \<and> drop i (m_forms g1) = drop i (m_forms g) \<and>
     length (m_forms g1) = length (m_forms g) \<and> length (m_dependencies g1) = length (m_dependencies g) \<and>
     same_config g g1 \<and> m_inconsistent g1 = m_inconsistent g"
proof (induction i)
  case 0
  show ?case by (simp add: same_config_def)
next
  case (Suc i)
  then obtain j g1 where h: "fold elim_true_step [0..<i] (0, g) = (j, g1)" "j \<le> i"
     "take j (m_forms g1) = filter (\<lambda>f. \<not> Ast.is_true f) (take i (m_forms g))" "drop i (m_forms g1) = drop i (m_forms g)"
     "length (m_forms g1) = length (m_forms g)" "length (m_dependencies g1) = length (m_dependencies g)"
     "same_config g g1" "m_inconsistent g1 = m_inconsistent g" by auto
  have i: "i < length (m_forms g)" using Suc.prems by (simp add: size_goal_def)
  have fi: "m_forms g1 ! i = m_forms g ! i" using h(4) i h(5) by (metis Cons_nth_drop_Suc list.inject)
  have d: "drop (Suc i) (m_forms g1) = drop (Suc i) (m_forms g)" using h(4) by (metis Suc_eq_plus1_left drop_drop)
  have t: "take (Suc i) (m_forms g) = take i (m_forms g) @ [m_forms g ! i]" using i by (simp add: take_Suc_conv_app_nth)
  have step: "fold elim_true_step [0..<Suc i] (0, g) = elim_true_step i (j, g1)" using h(1) by simp
  show ?case
  proof (cases "Ast.is_true (m_forms g ! i)")
    case True
    then have "elim_true_step i (j, g1) = (j, g1)" by (simp add: elim_true_step_def form_def fi)
    with True h d t show ?thesis unfolding step by simp
  next
    case False
    then have e: "elim_true_step i (j, g1) = (Suc j, keep_form i j g1)" by (simp add: elim_true_step_def form_def fi)
    have "take (Suc j) (m_forms (keep_form i j g1)) = filter (\<lambda>f. \<not> Ast.is_true f) (take (Suc i) (m_forms g))"
      using False h(2,3,5) i t keep_form_take(1) [of j i g1] by (simp add: fi)
    moreover have "drop (Suc i) (m_forms (keep_form i j g1)) = drop (Suc i) (m_forms g)"
      "length (m_forms (keep_form i j g1)) = length (m_forms g)" using h(2,5) d by (simp_all add: keep_form_forms)
    moreover have "same_config g (keep_form i j g1)" "m_inconsistent (keep_form i j g1) = m_inconsistent g"
      "length (m_dependencies (keep_form i j g1)) = length (m_dependencies g)"
      using h(6-8) keep_form_rest [where g = g1] by (simp_all add: same_config_def)
    ultimately show ?thesis unfolding step e using h(2) by simp
  qed
qed

lemma elim_true_forms:
  assumes "goal_inv g"
  shows "m_forms (elim_true g) = filter (\<lambda>f. \<not> Ast.is_true f) (m_forms g)" "goal_inv (elim_true g)"
proof -
  obtain j g1 where h: "fold elim_true_step [0..<size_goal g] (0, g) = (j, g1)"
     "take j (m_forms g1) = filter (\<lambda>f. \<not> Ast.is_true f) (m_forms g)" "j \<le> size_goal g"
     "length (m_forms g1) = length (m_forms g)" "length (m_dependencies g1) = length (m_dependencies g)"
     "same_config g g1" "m_inconsistent g1 = m_inconsistent g"
    using fold_elim_true [OF _ assms, of "size_goal g"] by (auto simp: size_goal_def)
  show f: "m_forms (elim_true g) = filter (\<lambda>f. \<not> Ast.is_true f) (m_forms g)"
    using h by (simp add: elim_true_def shrink_def)
  have "m_false \<noteq> m_true" by (simp add: m_false_def m_true_def)
  moreover have "j = length (filter (\<lambda>f. \<not> Ast.is_true f) (m_forms g))" using arg_cong [OF h(2), of length] h(3,4) by (simp add: size_goal_def)
  ultimately show "goal_inv (elim_true g)"
    using f assms h by (simp add: goal_inv_def elim_true_def shrink_def same_config_def) (auto simp: Ast.is_true_def size_goal_def)
qed

lemma elim_true_holds: "goal_inv g \<Longrightarrow> goal_holds I (elim_true g) \<longleftrightarrow> goal_holds I g"
  by (auto simp: goal_holds_def elim_true_forms list_all_iff Ast.is_true_def)

lemma is_not_arg_iff: "is_not f \<longleftrightarrow> f = m_mk_not (get_arg f 0)"
  by (cases f) (auto simp: is_not_def m_mk_not_def get_arg_def length_Suc_conv)

lemma m_mk_not_inj: "m_mk_not a = m_mk_not b \<Longrightarrow> a = b"
  by (simp add: m_mk_not_def)

lemma is_not_mk_not: "is_not (m_mk_not a)"
  by (simp add: is_not_def m_mk_not_def)

lemma redundancies_sound:
  assumes "goal_inv g" "\<not> m_inconsistent g" "j \<le> i" "i \<le> size_goal g" "is = [i..<size_goal g]"
    "pos = {f \<in> set (take j (m_forms g)). \<not> is_not f}" "neg = {a. m_mk_not a \<in> set (take j (m_forms g))}"
  shows "goal_inv (redundancies_loop is neg pos j g) \<and>
    (goal_holds I (redundancies_loop is neg pos j g) \<longleftrightarrow> list_all (holds_in I) (take j (m_forms g) @ drop i (m_forms g)))"
  using assms
proof (induction "is" arbitrary: i j neg pos g)
  case Nil
  then have "i = length (m_forms g)" using upt_eq_Nil_conv [of i "size_goal g"] by (auto simp: size_goal_def)
  with Nil.prems show ?case by (auto simp: shrink_def goal_inv_def goal_holds_def size_goal_def)
next
  case (Cons k "is")
  let ?f = "m_forms g ! i" and ?T = "take j (m_forms g)"
  have k: "k = i" "is = [Suc i..<size_goal g]" and i: "i < length (m_forms g)" using Cons.prems(5) [symmetric]
    by (auto simp: upt_eq_Cons_conv size_goal_def)
  have d: "drop i (m_forms g) = ?f # drop (Suc i) (m_forms g)" using i by (simp add: Cons_nth_drop_Suc)
  have skip: ?case if "redundancies_loop (k # is) neg pos j g = redundancies_loop is neg pos j g" "list_all (holds_in I) ?T \<Longrightarrow> holds_in I ?f"
    unfolding that(1) using Cons.IH [where g = g and j = j and i = "Suc i" and pos = pos and neg = neg] Cons.prems i k that(2) by (auto simp: d size_goal_def)
  have clash: ?case if "redundancies_loop (k # is) neg pos j g = push_back m_false dd g" "list_all (holds_in I) ?T \<Longrightarrow> \<not> holds_in I ?f" for dd
    unfolding that(1) using that(2) Cons.prems(1,2) push_back_inv [of g] push_false by (auto simp: push_back_holds d)
  have keep: ?case if "redundancies_loop (k # is) neg pos j g = redundancies_loop is neg' pos' (Suc j) (keep_form i j g)"
    "pos' = {f \<in> set (?T @ [?f]). \<not> is_not f}" "neg' = {a. m_mk_not a \<in> set (?T @ [?f])}" for pos' neg'
  proof -
    have "goal_inv (keep_form i j g)" using Cons.prems(1,2) keep_form_rest [where g = g] by (simp add: goal_inv_def keep_form_forms same_config_def)
    note tk = keep_form_take(1) [OF Cons.prems(3) i] keep_form_take(2) [OF Cons.prems(3)]
    have sz: "size_goal (keep_form i j g) = size_goal g" by (simp add: size_goal_def keep_form_forms)
    note IH = Cons.IH [where g = "keep_form i j g" and j = "Suc j" and i = "Suc i" and pos = pos' and neg = neg', unfolded tk sz]
    show ?thesis unfolding that(1) using IH [OF \<open>goal_inv (keep_form i j g)\<close> _ _ _ k(2) that(2,3)] Cons.prems(2,3) i
      by (simp add: keep_form_rest(2) d size_goal_def)
  qed
  consider "Ast.is_true ?f" | "\<not> Ast.is_true ?f" "is_not ?f" | "\<not> Ast.is_true ?f" "\<not> is_not ?f" by blast
  then show ?case
  proof cases
    case 1
    then show ?thesis by (intro skip) (simp_all add: k(1) form_def, simp add: Ast.is_true_def)
  next
    case 2
    let ?a = "get_arg ?f 0"
    have f: "?f = m_mk_not ?a" using 2(2) is_not_arg_iff by blast
    consider "?a \<in> neg" | "?a \<notin> neg" "?a \<in> pos" | "?a \<notin> neg" "?a \<notin> pos" by blast
    then show ?thesis
    proof cases
      case 1
      with Cons.prems(7) f have "?f \<in> set ?T" by simp
      with 1 2 show ?thesis by (intro skip) (simp_all add: k(1) form_def Let_def list_all_iff)
    next
      case a: 2
      with Cons.prems(6) have "?a \<in> set ?T" by simp
      with a 2 holds_not(1) [OF 2(2), of I] show ?thesis by (intro clash) (auto simp: k(1) form_def Let_def list_all_iff)
    next
      case 3
      have st: "redundancies_loop (k # is) neg pos j g = redundancies_loop is (insert ?a neg) pos (Suc j) (keep_form i j g)"
        using 2 3 by (simp add: k(1) form_def Let_def)
      have "pos = {f \<in> set (?T @ [?f]). \<not> is_not f}" using Cons.prems(6) 2(2) by auto
      moreover have "m_mk_not a = ?f \<longleftrightarrow> a = ?a" for a using f by (metis m_mk_not_inj)
      then have "insert ?a neg = {a. m_mk_not a \<in> set (?T @ [?f])}" using Cons.prems(7) by auto
      ultimately show ?thesis by (rule keep [OF st])
    qed
  next
    case 3
    consider "?f \<in> pos" | "?f \<notin> pos" "?f \<in> neg" | "?f \<notin> pos" "?f \<notin> neg" by blast
    then show ?thesis
    proof cases
      case 1
      with Cons.prems(6) have "?f \<in> set ?T" by simp
      with 1 3 show ?thesis by (intro skip) (simp_all add: k(1) form_def Let_def list_all_iff)
    next
      case a: 2
      with Cons.prems(7) have "m_mk_not ?f \<in> set ?T" by simp
      with a 3 holds_not(2) [of I ?f] show ?thesis by (intro clash) (auto simp: k(1) form_def Let_def list_all_iff)
    next
      case a: 3
      have st: "redundancies_loop (k # is) neg pos j g = redundancies_loop is neg (insert ?f pos) (Suc j) (keep_form i j g)"
        using 3 a by (simp add: k(1) form_def Let_def)
      have "insert ?f pos = {f \<in> set (?T @ [?f]). \<not> is_not f}" using Cons.prems(6) 3(2) by auto
      moreover have "m_mk_not a \<noteq> ?f" for a using 3(2) is_not_mk_not by metis
      then have "neg = {a. m_mk_not a \<in> set (?T @ [?f])}" using Cons.prems(7) by auto
      ultimately show ?thesis by (rule keep [OF st])
    qed
  qed
qed

text \<open>
  The formulas that \<open>elim_redundancies\<close> leaves: the first occurrences of the formulas other than
  true, unless an atom and its negation are among them.
\<close>

fun reduced :: "expr list \<Rightarrow> expr list \<Rightarrow> expr list option" where
  \<comment> \<open>the formulas \<open>T\<close> are kept so far\<close>
  "reduced T [] = Some T"
| "reduced T (f # fs) = (if f = m_true \<or> f \<in> set T then reduced T fs
     else if is_not f \<and> \<not> is_not (get_arg f 0) \<and> get_arg f 0 \<in> set T \<or> \<not> is_not f \<and> m_mk_not f \<in> set T then None
     else reduced (T @ [f]) fs)"

definition clash :: "expr list \<Rightarrow> bool" where
  "clash L \<longleftrightarrow> (\<exists>a \<in> set L. a \<noteq> m_true \<and> \<not> is_not a \<and> m_mk_not a \<in> set L)"

definition firsts :: "expr list \<Rightarrow> expr list" where
  "firsts L = rev (remdups (rev (filter (\<lambda>f. f \<noteq> m_true) L)))"

lemma firsts_snoc: "firsts (L @ [f]) = (if f = m_true \<or> f \<in> set L then firsts L else firsts L @ [f])"
  by (simp add: firsts_def)

lemma set_firsts: "set (firsts L) = set L - {m_true}"
  by (auto simp: firsts_def)

lemma clash_snoc:
  assumes "\<not> clash P"
  shows "clash (P @ [f]) \<longleftrightarrow>
    f \<noteq> m_true \<and> (is_not f \<and> \<not> is_not (get_arg f 0) \<and> get_arg f 0 \<noteq> m_true \<and> get_arg f 0 \<in> set P \<or> \<not> is_not f \<and> m_mk_not f \<in> set P)"
proof (cases "is_not f")
  case True
  then obtain a where f: "f = m_mk_not a" "get_arg f 0 = a" using is_not_arg_iff by blast
  have "f \<noteq> m_true" by (simp add: f(1) m_mk_not_def m_true_def)
  moreover have "m_mk_not b = f \<longleftrightarrow> b = a" for b using f(1) m_mk_not_inj by blast
  ultimately show ?thesis using True assms f(2) by (auto simp: clash_def)
next
  case False
  then have "m_mk_not b \<noteq> f" for b using is_not_mk_not by blast
  with False assms show ?thesis by (auto simp: clash_def)
qed

lemma reduced_eq:
  "\<not> clash P \<Longrightarrow> reduced (firsts P) L = (if clash (P @ L) then None else Some (firsts (P @ L)))"
proof (induction L arbitrary: P)
  case (Cons f L)
  have t: "\<not> is_not m_true" "m_mk_not a \<noteq> m_true" for a by (simp_all add: is_not_def m_true_def m_mk_not_def)
  have snoc: "clash (P @ [f]) \<longleftrightarrow>
      f \<noteq> m_true \<and> (is_not f \<and> \<not> is_not (get_arg f 0) \<and> get_arg f 0 \<noteq> m_true \<and> get_arg f 0 \<in> set P \<or> \<not> is_not f \<and> m_mk_not f \<in> set P)"
    by (rule clash_snoc [OF Cons.prems])
  have more: "clash (P @ [f]) \<Longrightarrow> clash (P @ f # L)" by (auto simp: clash_def)
  show ?case
  proof (cases "clash (P @ [f])")
    case True
    then have "f \<notin> set P" using Cons.prems by (auto simp: clash_def)
    with True more show ?thesis by (auto simp: snoc set_firsts t)
  next
    case False
    with Cons.IH [OF False] t show ?thesis by (auto simp: snoc firsts_snoc set_firsts)
  qed
qed simp

lemma redundancies_reduced:
  assumes "\<not> m_inconsistent g" "j \<le> i" "i \<le> size_goal g" "is = [i..<size_goal g]"
    "pos = {f \<in> set (take j (m_forms g)). \<not> is_not f}" "neg = {a. m_mk_not a \<in> set (take j (m_forms g))}"
  shows "case reduced (take j (m_forms g)) (drop i (m_forms g)) of
      None \<Rightarrow> m_inconsistent (redundancies_loop is neg pos j g)
    | Some L \<Rightarrow> \<not> m_inconsistent (redundancies_loop is neg pos j g) \<and> m_forms (redundancies_loop is neg pos j g) = L"
  using assms
proof (induction "is" arbitrary: i j neg pos g)
  case Nil
  then have "i = length (m_forms g)" using upt_eq_Nil_conv [of i "size_goal g"] by (auto simp: size_goal_def)
  with Nil.prems show ?case by (auto simp: shrink_def size_goal_def)
next
  case (Cons k "is")
  let ?f = "m_forms g ! i" and ?T = "take j (m_forms g)" and ?a = "get_arg (m_forms g ! i) 0"
  have k: "k = i" "is = [Suc i..<size_goal g]" and i: "i < length (m_forms g)" using Cons.prems(4) [symmetric]
    by (auto simp: upt_eq_Cons_conv size_goal_def)
  have d: "drop i (m_forms g) = ?f # drop (Suc i) (m_forms g)" using i by (simp add: Cons_nth_drop_Suc)
  have atom: "?a \<in> neg \<longleftrightarrow> ?f \<in> set ?T" "?a \<in> pos \<longleftrightarrow> \<not> is_not ?a \<and> ?a \<in> set ?T" if "is_not ?f"
    using that is_not_arg_iff [of ?f] Cons.prems(5,6) by auto
  have lit: "?f \<in> pos \<longleftrightarrow> ?f \<in> set ?T" "?f \<in> neg \<longleftrightarrow> m_mk_not ?f \<in> set ?T" if "\<not> is_not ?f"
    using that Cons.prems(5,6) by auto
  have clash: "m_inconsistent (push_back m_false dd g)" for dd using push_false Cons.prems(1) by simp
  note IH = Cons.IH [where g = g and j = j and i = "Suc i" and pos = pos and neg = neg]
  have sz: "size_goal (keep_form i j g) = size_goal g" by (simp add: size_goal_def keep_form_forms)
  note tk = keep_form_take(1) [OF Cons.prems(2) i] keep_form_take(2) [OF Cons.prems(2)]
  have keep: "case reduced (?T @ [?f]) (drop (Suc i) (m_forms g)) of
      None \<Rightarrow> m_inconsistent (redundancies_loop is neg' pos' (Suc j) (keep_form i j g))
    | Some L \<Rightarrow> \<not> m_inconsistent (redundancies_loop is neg' pos' (Suc j) (keep_form i j g)) \<and>
        m_forms (redundancies_loop is neg' pos' (Suc j) (keep_form i j g)) = L"
    if "pos' = {f \<in> set (?T @ [?f]). \<not> is_not f}" "neg' = {a. m_mk_not a \<in> set (?T @ [?f])}" for pos' neg'
    using Cons.IH [where g = "keep_form i j g" and j = "Suc j" and i = "Suc i" and pos = pos' and neg = neg', unfolded tk sz] that k(2)
      Cons.prems(1,2) i by (simp add: keep_form_rest(2) size_goal_def)
  have posn: "insert ?f pos = {f \<in> set (?T @ [?f]). \<not> is_not f}" "neg = {a. m_mk_not a \<in> set (?T @ [?f])}" if "\<not> is_not ?f"
    using that Cons.prems(5,6) by auto (metis is_not_mk_not)
  have negn: "pos = {f \<in> set (?T @ [?f]). \<not> is_not f}" "insert ?a neg = {a. m_mk_not a \<in> set (?T @ [?f])}" if "is_not ?f"
    using that Cons.prems(5,6) is_not_arg_iff [of ?f] m_mk_not_inj by auto
  have tr: "Ast.is_true ?f \<longleftrightarrow> ?f = m_true" by (simp add: Ast.is_true_def)
  show ?case
    unfolding d reduced.simps redundancies_loop.simps Let_def k(1) form_def tr
    using IH [OF Cons.prems(1) _ _ k(2) Cons.prems(5,6)] Cons.prems(2) i keep [OF posn] keep [OF negn] atom lit clash
    by (cases "is_not ?f") (simp_all add: size_goal_def)
qed

lemma elim_redundancies_sound:
  assumes "goal_inv g"
  shows "goal_inv (elim_redundancies g)" "goal_holds I (elim_redundancies g) \<longleftrightarrow> goal_holds I g"
proof -
  have "\<not> m_inconsistent g \<Longrightarrow> goal_inv (elim_redundancies g) \<and> (goal_holds I (elim_redundancies g) \<longleftrightarrow> goal_holds I g)" for I
    using redundancies_sound [OF assms, of 0 0 "[0..<size_goal g]" "{}" "{}" I] by (simp add: elim_redundancies_def goal_holds_def)
  then show "goal_inv (elim_redundancies g)" "goal_holds I (elim_redundancies g) \<longleftrightarrow> goal_holds I g"
    using assms by (auto simp: elim_redundancies_def)
qed

lemma elim_redundancies_forms:
  assumes "\<not> m_inconsistent g"
  shows "m_inconsistent (elim_redundancies g) \<longleftrightarrow> clash (m_forms g)"
    "\<not> clash (m_forms g) \<Longrightarrow> m_forms (elim_redundancies g) = firsts (m_forms g)"
proof -
  have "\<not> clash []" "firsts [] = []" by (simp_all add: clash_def firsts_def)
  with reduced_eq [of "[]" "m_forms g"] redundancies_reduced [OF assms, of 0 0 "[0..<size_goal g]" "{}" "{}"] assms
  show "m_inconsistent (elim_redundancies g) \<longleftrightarrow> clash (m_forms g)"
    "\<not> clash (m_forms g) \<Longrightarrow> m_forms (elim_redundancies g) = firsts (m_forms g)"
    by (auto simp: elim_redundancies_def split: if_splits)
qed

section \<open>Comparison, precision and literals\<close>

lemma mark_unique_card: "finite V \<Longrightarrow> mark_unique f (card V, V) = (card (insert f V), insert f V)"
  by (simp add: mark_unique_def insert_absorb)

lemma fold_mark_unique: "fold mark_unique fs (card V, V) = (card (V \<union> set fs), V \<union> set fs)" if "finite V"
  using that
proof (induction fs arbitrary: V)
  case (Cons f fs)
  then show ?case using Cons.IH [of "insert f V"] by (simp add: mark_unique_card)
qed simp

lemma is_equal_loop_iff:
  "finite V \<Longrightarrow> V \<subseteq> V1 \<Longrightarrow> is_equal_loop fs V1 n (card V, V) \<longleftrightarrow> V \<union> set fs \<subseteq> V1 \<and> n = card (V \<union> set fs)"
proof (induction fs arbitrary: V)
  case (Cons f fs)
  show ?case
  proof (cases "f \<in> V")
    case True
    with Cons show ?thesis by (auto simp: insert_absorb)
  next
    case False
    have "insert f V \<union> set fs = V \<union> set (f # fs)" by auto
    with False Cons.prems Cons.IH [of "insert f V"] show ?thesis by (auto simp: mark_unique_card simp del: Un_insert_left)
  qed
qed simp

lemma is_equal_goal_iff: "is_equal_goal s1 s2 \<longleftrightarrow> size_goal s1 = size_goal s2 \<and> set (m_forms s1) = set (m_forms s2)"
proof -
  have "set (m_forms s2) \<subseteq> set (m_forms s1) \<and> card (set (m_forms s1)) = card (set (m_forms s2)) \<longleftrightarrow> set (m_forms s1) = set (m_forms s2)"
    using card_subset_eq [of "set (m_forms s1)" "set (m_forms s2)"] by auto
  then show ?thesis using fold_mark_unique [of "{}" "m_forms s1"] is_equal_loop_iff [of "{}" "set (m_forms s1)" "m_forms s2"]
    by (simp add: is_equal_goal_def)
qed

lemma is_equal_goal_holds: "is_equal_goal s1 s2 \<Longrightarrow> goal_holds I s1 \<longleftrightarrow> goal_holds I s2"
  by (simp add: is_equal_goal_iff goal_holds_def list_all_iff)

lemma mk_union_join:
  "mk_union p p = p" "mk_union p q = mk_union q p" "mk_union (mk_union p q) r = mk_union p (mk_union q r)" "mk_union PRECISE p = p" "mk_union UNDER_OVER p = UNDER_OVER"
  by (cases p; cases q; cases r; simp add: mk_union_def)+

lemma copy_to_precision:
  "sat_preserved (copy_to src target) \<longleftrightarrow> sat_preserved src \<and> sat_preserved target"
  "unsat_preserved (copy_to src target) \<longleftrightarrow> unsat_preserved src \<and> unsat_preserved target"
  by (cases "m_precision src"; cases "m_precision target"; simp add: copy_to_def mk_union_def sat_preserved_def unsat_preserved_def)+

lemma decided_sat: "is_decided_sat g \<Longrightarrow> goal_holds I g"
  by (simp add: is_decided_sat_def size_goal_def goal_holds_def)

lemma decided_unsat: "goal_inv g \<Longrightarrow> is_decided_unsat g \<Longrightarrow> \<not> goal_holds I g"
  by (simp add: is_decided_unsat_def inconsistent_unsat)

section \<open>Properties\<close>

text \<open>An example: a goal of three boolean constants, one of them twice and one negated.\<close>

definition demo_prop :: "nat \<Rightarrow> expr" where
  "demo_prop k = APP (UNINTERPRETED k BOOL_SORT) []"

definition demo_forms :: "expr list" where
  "demo_forms = [demo_prop 0, APP OP_NOT [demo_prop 1], demo_prop 0, demo_prop 2]"

definition forms_goal :: "expr list \<Rightarrow> goal" where
  "forms_goal fs = (mk_goal False True False)\<lparr>m_forms := fs\<rparr>"

lemma forms_goal_inv: "goal_inv (forms_goal fs)" "\<not> m_inconsistent (forms_goal fs)" "\<not> m_proofs_enabled (forms_goal fs)" "size_goal (forms_goal fs) = length fs" "m_forms (forms_goal fs) = fs"
  by (simp_all add: forms_goal_def goal_inv_def mk_goal_def size_goal_def)

text \<open>
  Two places where the code does less than it means to: \<open>is_cnf\<close> stops at the first disjunction,
  and an update with a conjunction whose first leaf is false does not mark the goal.
\<close>

lemma is_cnf_stops:
  "is_cnf (forms_goal [APP OP_OR [demo_prop 0, demo_prop 1], APP OP_AND [demo_prop 0, APP OP_OR [demo_prop 1, demo_prop 2]]])"
  "\<not> is_literal (APP OP_AND [demo_prop 0, APP OP_OR [demo_prop 1, demo_prop 2]])"
  by (simp_all add: is_cnf_def forms_goal_inv(5) is_or_def is_literal_def is_not_def demo_prop_def is_bool_def get_range_def)

lemma update_false_unmarked:
  "update_form 0 (APP OP_AND [m_false, demo_prop 1]) False {} (forms_goal [demo_prop 0]) =
     Some (forms_goal [demo_prop 0, demo_prop 1, APP OP_AND [m_false, demo_prop 1]])"
  by (simp add: update_form_def quick_process_def is_and_def is_not_def is_or_def push_back_def forms_goal_def mk_goal_def Ast.is_true_def Ast.is_false_def
      m_true_def m_false_def demo_prop_def)

text \<open>
  C37. Asserting a formula adds it to the conjunction of a goal, and replacing formula \<open>i\<close> leaves
  the conjunction of the others with the new one, with and without proofs; both take conjunctions
  apart, and a goal that is marked inconsistent consists of the formula false.
\<close>

theorem goal_update_correct:
  assumes "goal_inv g"
  shows "goal_inv (assert_expr f pr d g) \<and> (goal_holds I (assert_expr f pr d g) \<longleftrightarrow> goal_holds I g \<and> holds_in I f) \<and>
    (\<not> m_inconsistent g \<and> i < size_goal g \<and> (m_proofs_enabled g \<longrightarrow> pr) \<and> update_form i f pr d g = Some g' \<longrightarrow>
      goal_inv g' \<and> (goal_holds I g' \<longleftrightarrow> (\<forall>j < size_goal g. j \<noteq> i \<longrightarrow> holds_in I (form g j)) \<and> holds_in I f)) \<and>
    (m_proofs_enabled g \<or> update_form i f pr d g \<noteq> None)"
proof -
  have "goal_inv g' \<and> (goal_holds I g' \<longleftrightarrow> (\<forall>j < size_goal g. j \<noteq> i \<longrightarrow> holds_in I (form g j)) \<and> holds_in I f)"
    if "\<not> m_inconsistent g" "i < size_goal g" "m_proofs_enabled g \<longrightarrow> pr" "update_form i f pr d g = Some g'"
    using update_form_holds [OF assms that(1,2) _ that(4), of I] that(3) set_form_holds [OF that(2), of I f d] by auto
  moreover have "m_proofs_enabled g \<or> update_form i f pr d g \<noteq> None" by (simp add: update_form_def split: prod.split)
  ultimately show ?thesis using assert_expr_holds [OF assms, of f pr d I] by blast
qed

theorem goal_update_correct_witness:
  "\<exists>g'. update_form 1 (APP OP_AND [demo_prop 3, demo_prop 4]) False {} (forms_goal demo_forms) = Some g' \<and>
     (\<forall>I. goal_holds I g' \<longleftrightarrow> list_all (holds_in I) (map demo_prop [0, 3, 4, 2]))"
proof -
  let ?f = "APP OP_AND [demo_prop 3, demo_prop 4]" and ?g = "forms_goal demo_forms"
  note h = goal_update_correct [OF forms_goal_inv(1) [of demo_forms], where f = ?f and pr = False and d = "{}" and i = 1]
  have l: "length demo_forms = 4" by (simp add: demo_forms_def)
  obtain g' where g': "update_form 1 ?f False {} ?g = Some g'" using h [of I g] forms_goal_inv(3) by auto
  have "goal_holds I g' \<longleftrightarrow> (\<forall>j < 4. j \<noteq> 1 \<longrightarrow> holds_in I (demo_forms ! j)) \<and> holds_in I ?f" for I
    using h [of I g'] g' forms_goal_inv(2-5) [of demo_forms] l by (simp add: form_def)
  moreover have "holds_in I ?f \<longleftrightarrow> holds_in I (demo_prop 3) \<and> holds_in I (demo_prop 4)" for I by (simp add: holds_in_def)
  moreover have "(\<forall>j < 4. j \<noteq> 1 \<longrightarrow> holds_in I (demo_forms ! j)) \<longleftrightarrow> holds_in I (demo_prop 0) \<and> holds_in I (demo_prop 2)" for I
    by (auto simp: demo_forms_def numeral_eq_Suc less_Suc_eq all_conj_distrib)
  ultimately show ?thesis using g' by auto
qed

text \<open>A negation and its own negation are both kept, although they contradict each other.\<close>

lemma double_negation_kept:
  "m_forms (elim_redundancies (forms_goal [m_mk_not a, m_mk_not (m_mk_not a)])) = [m_mk_not a, m_mk_not (m_mk_not a)] \<and>
   \<not> goal_holds I (elim_redundancies (forms_goal [m_mk_not a, m_mk_not (m_mk_not a)]))"
proof -
  let ?g = "forms_goal [m_mk_not a, m_mk_not (m_mk_not a)]"
  have "a \<noteq> m_mk_not a" by (metis is_not_arg_iff is_not_mk_not m_mk_not_inj weight_not less_irrefl)
  moreover have "\<not> clash (m_forms ?g)" by (simp add: clash_def forms_goal_inv is_not_mk_not)
  moreover have "\<not> goal_holds I ?g" by (simp add: goal_holds_def forms_goal_inv holds_in_def m_mk_not_def)
  moreover have "\<not> m_inconsistent ?g" by (simp add: forms_goal_inv)
  ultimately show ?thesis using elim_redundancies_forms(2) [of ?g] elim_redundancies_sound(2) [of ?g I]
    by (auto simp: forms_goal_inv firsts_def m_mk_not_def m_true_def)
qed

text \<open>
  C38. Compaction keeps the conjunction of a goal. \<open>elim_true\<close> drops exactly the formula true.
  \<open>elim_redundancies\<close> makes a goal inconsistent if some formula that is not a negation itself
  is in it together with its negation, and otherwise leaves exactly the first occurrences of
  the formulas other than true; a negation beside its own negation is not noticed. \<open>is_equal\<close>
  accepts exactly the goals of the same number of formulas, repetitions counted, with the same
  set of formulas.
\<close>

theorem goal_compaction_correct:
  assumes "goal_inv g"
  shows "goal_inv (elim_true g) \<and> m_forms (elim_true g) = filter (\<lambda>f. \<not> Ast.is_true f) (m_forms g) \<and>
    goal_inv (elim_redundancies g) \<and> (goal_holds I (elim_redundancies g) \<longleftrightarrow> goal_holds I g) \<and>
    (m_inconsistent (elim_redundancies g) \<longleftrightarrow> m_inconsistent g \<or>
      (\<exists>a \<in> set (m_forms g). a \<noteq> m_true \<and> \<not> is_not a \<and> m_mk_not a \<in> set (m_forms g))) \<and>
    (\<not> m_inconsistent (elim_redundancies g) \<longrightarrow>
      m_forms (elim_redundancies g) = rev (remdups (rev (filter (\<lambda>f. f \<noteq> m_true) (m_forms g))))) \<and>
    (is_equal_goal g g2 \<longleftrightarrow> size_goal g = size_goal g2 \<and> set (m_forms g) = set (m_forms g2))"
proof (cases "m_inconsistent g")
  case True
  then have "elim_redundancies g = g" by (simp add: elim_redundancies_def)
  with True assms elim_true_forms [OF assms] is_equal_goal_iff show ?thesis by auto
next
  case False
  show ?thesis
    using elim_true_forms [OF assms] elim_redundancies_sound [OF assms] elim_redundancies_forms [OF False] is_equal_goal_iff False
    unfolding clash_def firsts_def by auto
qed

theorem goal_compaction_correct_witness:
  "m_forms (elim_true (forms_goal (m_true # demo_forms))) = demo_forms \<and>
   \<not> (\<exists>I. goal_holds I (elim_redundancies (forms_goal (demo_prop 1 # demo_forms))))"
proof
  have "\<not> Ast.is_true f" if "f \<in> set demo_forms" for f using that by (auto simp: demo_forms_def demo_prop_def Ast.is_true_def m_true_def)
  then show "m_forms (elim_true (forms_goal (m_true # demo_forms))) = demo_forms"
    using goal_compaction_correct [OF forms_goal_inv(1), of "m_true # demo_forms"] by (simp add: forms_goal_inv(5) Ast.is_true_def)
  have "\<not> goal_holds I (forms_goal (demo_prop 1 # demo_forms))" for I
    by (simp add: goal_holds_def forms_goal_inv(5) demo_forms_def holds_in_def)
  then show "\<not> (\<exists>I. goal_holds I (elim_redundancies (forms_goal (demo_prop 1 # demo_forms))))"
    using goal_compaction_correct [OF forms_goal_inv(1)] by blast
qed

end
