(* ===== verification/Goal_Rewriting.thy ===== *)
theory Goal_Rewriting
  imports Goal_Sound
begin

text \<open>
  What the tactics share that replace the formulas of a goal one after the other and translate
  constants on the way. The locale states what such a rewriter promises: the rewritten formula
  means the original one with the constants read off the table. Its lemmas follow the goal
  through the loop.
\<close>

section \<open>The goal during the loop\<close>

text \<open>
  The loop before formula \<open>i\<close>: the goal has formulas \<open>A\<close> in the place of the first ones and
  \<open>B\<close> behind all of them, which together mean what the first ones mean, for each of the tables
  in \<open>M\<close>.
\<close>

definition blasted_to :: "(func_decl \<rightharpoonup> expr) set \<Rightarrow> expr list \<Rightarrow> nat \<Rightarrow> goal \<Rightarrow> bool" where
  "blasted_to M F i g \<longleftrightarrow> goal_inv g \<and>
     (if m_inconsistent g then \<forall>m \<in> M. \<forall>I. \<not> list_all (holds_in (decode m I)) F
      else \<exists>A B. m_forms g = A @ drop i F @ B \<and> length A = i \<and>
        (\<forall>m \<in> M. \<forall>I. list_all (holds_in I) (A @ B) \<longleftrightarrow> list_all (holds_in (decode m I)) (take i F)))"

lemma blasted_toI:
  "goal_inv g \<Longrightarrow> \<not> m_inconsistent g \<Longrightarrow> m_forms g = A @ drop i F @ B \<Longrightarrow> length A = i \<Longrightarrow>
    (\<And>m I. m \<in> M \<Longrightarrow> list_all (holds_in I) (A @ B) \<longleftrightarrow> list_all (holds_in (decode m I)) (take i F)) \<Longrightarrow> blasted_to M F i g"
  unfolding blasted_to_def by auto

lemma blasted_to_form: "blasted_to M F i g \<Longrightarrow> \<not> m_inconsistent g \<Longrightarrow> i < length F \<Longrightarrow> form g i = F ! i"
  by (auto simp: blasted_to_def form_def nth_append)

lemma blasted_to_start: "goal_inv g \<Longrightarrow> blasted_to M (m_forms g) 0 g"
  by (auto simp: blasted_to_def goal_inv_def)

lemma blasted_to_end:
  assumes "blasted_to M F i g" "m_inconsistent g \<or> length F \<le> i" "m \<in> M"
  shows "goal_holds I g \<longleftrightarrow> list_all (holds_in (decode m I)) F"
proof (cases "m_inconsistent g")
  case True
  with assms(1,3) inconsistent_unsat [of g I] show ?thesis by (simp add: blasted_to_def)
next
  case False
  with assms obtain A B where "m_forms g = A @ B" "list_all (holds_in I) (A @ B) \<longleftrightarrow> list_all (holds_in (decode m I)) F"
    by (auto simp: blasted_to_def)
  then show ?thesis by (simp add: goal_holds_def)
qed

section \<open>The rewriters\<close>

text \<open>The tables of a state and of those after it.\<close>

definition tables_from :: "('s \<Rightarrow> func_decl \<rightharpoonup> expr) \<Rightarrow> ('s \<Rightarrow> bool) \<Rightarrow> 's \<Rightarrow> (func_decl \<rightharpoonup> expr) set" where
  "tables_from tab ok st = {tab st' | st'. ok st' \<and> tab st \<subseteq>\<^sub>m tab st'}"

lemma tables_from_self: "ok st \<Longrightarrow> tab st \<in> tables_from tab ok st"
  by (auto simp: tables_from_def)

lemma tables_from_mono: "tab st \<subseteq>\<^sub>m tab st' \<Longrightarrow> m \<in> tables_from tab ok st' \<Longrightarrow> m \<in> tables_from tab ok st"
  using map_le_trans by (fastforce simp: tables_from_def)

text \<open>
  A rewritten formula means the original one with the constants read off the table of its own
  state or of any later one; not every constant of the formula need be in the table then.
\<close>

locale goal_rewriter =
  fixes tab :: "'s \<Rightarrow> func_decl \<rightharpoonup> expr"
    and state_inv :: "'s \<Rightarrow> bool"
    and rewrites_to :: "'s \<Rightarrow> expr \<Rightarrow> expr \<Rightarrow> 's \<Rightarrow> bool"
  assumes rewrites_inv: "state_inv st \<Longrightarrow> rewrites_to st e r st' \<Longrightarrow> state_inv st' \<and> tab st \<subseteq>\<^sub>m tab st'"
    and rewrites_holds: "state_inv st \<Longrightarrow> rewrites_to st e r st' \<Longrightarrow> m \<in> tables_from tab state_inv st' \<Longrightarrow>
      holds_in I r \<longleftrightarrow> holds_in (decode m I) e"
begin

lemma take_rewritten:
  assumes "state_inv st" "rewrites_to st (F ! i) r st1" "i < length F" "m \<in> tables_from tab state_inv st1"
  shows "list_all (holds_in (decode m I)) (take (Suc i) F) \<longleftrightarrow> list_all (holds_in (decode m I)) (take i F) \<and> holds_in I r"
  using rewrites_holds [OF assms(1,2,4)] assms(3) by (simp add: take_Suc_conv_app_nth)

lemma blasted_to_step:
  assumes inv: "blasted_to (tables_from tab state_inv st) F i g" "state_inv st" and ni: "\<not> m_inconsistent g" and i: "i < length F"
    and r: "rewrites_to st (F ! i) r st1"
  shows "F ! i = r \<Longrightarrow> blasted_to (tables_from tab state_inv st1) F (Suc i) g"
    "update_form i r (m_proofs_enabled g) d g = Some g1 \<Longrightarrow> blasted_to (tables_from tab state_inv st1) F (Suc i) g1 \<and> same_config g g1"
proof -
  let ?M = "tables_from tab state_inv st" and ?M1 = "tables_from tab state_inv st1"
  have M: "m \<in> ?M" if "m \<in> ?M1" for m
    using tables_from_mono [where tab = tab and ok = state_inv, of st st1 m] rewrites_inv [OF inv(2) r] that by simp
  obtain A B where AB: "m_forms g = A @ drop i F @ B" "length A = i"
    "\<And>m I. m \<in> ?M \<Longrightarrow> list_all (holds_in I) (A @ B) \<longleftrightarrow> list_all (holds_in (decode m I)) (take i F)"
    using inv(1) ni by (auto simp: blasted_to_def)
  have d: "drop i F = F ! i # drop (Suc i) F" using i by (simp add: Cons_nth_drop_Suc)
  have step: "blasted_to ?M1 F (Suc i) g'" if "goal_inv g'" "\<not> m_inconsistent g'" "m_forms g' = (A @ [x]) @ drop (Suc i) F @ B @ X"
    "\<And>I. holds_in I x \<and> list_all (holds_in I) X \<longleftrightarrow> holds_in I r" for g' x X
  proof -
    note x = that(4)
    have "list_all (holds_in I) ((A @ [x]) @ B @ X) \<longleftrightarrow> list_all (holds_in (decode m I)) (take (Suc i) F)" if "m \<in> ?M1" for m I
      using take_rewritten [OF inv(2) r i that, of I] AB(3) [OF M [OF that], of I] x [of I] by auto
    with that(1-3) AB(2) show ?thesis by (intro blasted_toI [of _ "A @ [x]" _ _ "B @ X"]) simp_all
  qed
  have g: "goal_inv g" using inv(1) by (simp add: blasted_to_def)
  show "F ! i = r \<Longrightarrow> blasted_to ?M1 F (Suc i) g" using step [of g r "[]"] g ni AB(1) d by simp
  assume u: "update_form i r (m_proofs_enabled g) d g = Some g1"
  have "i < size_goal g" by (simp add: size_goal_def AB(1,2) d)
  from update_form_holds [OF g ni this _ u] have h: "goal_inv g1" "same_config g g1" "replaced i r g g1" by blast+
  have "blasted_to ?M1 F (Suc i) g1"
  proof (cases "m_inconsistent g1")
    case True
    then have "\<not> holds_in (decode m I) (F ! i)" if "m \<in> ?M1" for m I
      using h(3) rewrites_holds [OF inv(2) r that] by (simp add: replaced_def)
    with True h(1) i show ?thesis by (auto simp: blasted_to_def list_all_length)
  next
    case False
    with h obtain x X where "m_forms g1 = (m_forms g)[i := x] @ X" "\<And>I. holds_in I x \<and> list_all (holds_in I) X \<longleftrightarrow> holds_in I r"
      by (auto simp: replaced_def)
    then show ?thesis using step [of g1 x X] h False AB(1,2) d by (simp add: list_update_append)
  qed
  with h show "blasted_to ?M1 F (Suc i) g1 \<and> same_config g g1" by blast
qed

end

lemma update_form_returns: "\<not> m_proofs_enabled g \<Longrightarrow> \<exists>g'. update_form i f pr d g = Some g'"
  by (simp add: update_form_def split: prod.split)

end
