(* ===== verification/Bit_Blaster_Tactic.thy ===== *)
theory Bit_Blaster_Tactic
  imports Goal_Rewriting
begin

text \<open>
  The tactic of bit_blaster_tactic.cpp: it rewrites the formulas of a goal one after the other
  with the bit-blasting rewriter and adds the model converter of the bits. The result has the
  models of the original goal, read off the bits, and the converter turns its models into models
  of the original goal.
\<close>

section \<open>The tactic\<close>

record bit_blaster_imp =
  im_rewriter :: blaster_state
  im_blast_quant :: bool

datatype tactic_exception = Quant_With_Proofs | Rewriter_Exception rewriter_exception
  | Null_Formula \<comment> \<open>not an exception of the code: the goal would hold a null pointer\<close>

definition mk_imp :: "blaster_state \<Rightarrow> blaster_params \<Rightarrow> bit_blaster_imp" where
  \<comment> \<open>with the rewriter that is used, its own one or that of the caller\<close>
  "mk_imp rw p = \<lparr>im_rewriter = updt_blaster_params p rw, im_blast_quant = p_blast_quant p\<rparr>"

fun blast_forms :: "expr bb_cfg \<Rightarrow> bool \<Rightarrow> nat list \<Rightarrow> blaster_state \<times> goal \<times> bool \<Rightarrow> tactic_exception + blaster_state \<times> goal \<times> bool" where
  \<comment> \<open>the loop over the formulas that the goal has at first, with \<open>change\<close>; \<open>pg\<close> tells whether the manager has proofs\<close>
  "blast_forms C pg [] (rw, g, change) = Inr (rw, g, change)"
| "blast_forms C pg (idx # idxs) (rw, g, change) =
     (if m_inconsistent g then Inr (rw, g, change)
      else case rewrite C pg (form g idx) rw of
        Inl ex \<Rightarrow> Inl (Rewriter_Exception ex)
      | Inr (new_curr, rw1) \<Rightarrow>
          if form g idx = new_curr then blast_forms C pg idxs (rw1, g, change)
          else case update_form idx new_curr (m_proofs_enabled g) (dep g idx) g of
            None \<Rightarrow> Inl Null_Formula
          | Some g1 \<Rightarrow> blast_forms C pg idxs (rw1, g1, True))"

definition entries :: "(func_decl \<rightharpoonup> expr) \<Rightarrow> func_decl list \<Rightarrow> (func_decl \<times> expr) list" where
  \<comment> \<open>the entries of a table in the order of the keys\<close>
  "entries m ks = map (\<lambda>f. (f, the (m f))) (filter (\<lambda>f. m f \<noteq> None) ks)"

definition blast_goal :: "expr bb_cfg \<Rightarrow> bool \<Rightarrow> bit_blaster_imp \<Rightarrow> goal \<Rightarrow> tactic_exception + bit_blaster_imp \<times> goal" where
  "blast_goal C pg im g =
     (if m_proofs_enabled g \<and> im_blast_quant im then Inl Quant_With_Proofs
      else case blast_forms C pg [0..<size_goal g] (start_rewrite (im_rewriter im), g, False) of
        Inl ex \<Rightarrow> Inl ex
      | Inr (rw, g1, change) \<Rightarrow>
          let g2 = (if change \<and> m_models_enabled g1 then
                      let (const2bits, newbits) = end_rewrite rw (Map.empty, [])
                      in add_mc (mk_bit_blaster_model_converter (entries const2bits (m_keys rw)) newbits) g1
                    else g1)
          in Inr (im\<lparr>im_rewriter := rw\<rparr>, inc_depth g2))"

definition bit_blaster_tactic :: "expr bb_cfg \<Rightarrow> bool \<Rightarrow> nat \<Rightarrow> blaster_params \<Rightarrow> goal \<Rightarrow> tactic_exception + goal" where
  \<comment> \<open>the tactic with its own rewriter, which \<open>clean\<close> makes anew for every goal\<close>
  "bit_blaster_tactic C pg fresh p g = map_sum id snd (blast_goal C pg (mk_imp (blaster_rewriter_cfg p fresh) p) g)"

section \<open>The loop\<close>

lemma rewrite_one:
  assumes "reachable lo st" "well_sorted e" "rewrite (blaster ids lt) pg e st = Inr (r, st')"
  shows "rewritten [] st' e r" "reachable lo st'" "blasts st st'"
proof -
  have "rewrite_args (blaster ids lt) pg [e] st = Inr ([r], st')" using assms(3) by (simp add: rewrite_def rewrite_args_def)
  from reachable_rewritten [OF assms(1) _ this] assms(2) show "rewritten [] st' e r" "reachable lo st'" by simp_all
  show "blasts st st'" using rewrite_blasts(1) [OF assms(3)] .
qed

definition blaster_rewrites :: "(expr \<Rightarrow> nat) \<Rightarrow> (expr \<Rightarrow> expr \<Rightarrow> bool) \<Rightarrow> bool \<Rightarrow> blaster_state \<Rightarrow> expr \<Rightarrow> expr \<Rightarrow> blaster_state \<Rightarrow> bool" where
  "blaster_rewrites ids lt pg st e r st' \<longleftrightarrow> well_sorted e \<and> rewrite (blaster ids lt) pg e st = Inr (r, st')"

interpretation bt: goal_rewriter m_const2bits "reachable lo" "blaster_rewrites ids lt pg" for lo ids lt pg
proof
  fix st e r st' m I assume "reachable lo st" "blaster_rewrites ids lt pg st e r st'"
  then have w: "reachable lo st" "well_sorted e" "rewrite (blaster ids lt) pg e st = Inr (r, st')" by (simp_all add: blaster_rewrites_def)
  note one = rewrite_one [OF w]
  show "reachable lo st' \<and> m_const2bits st \<subseteq>\<^sub>m m_const2bits st'" using one(2) blasts_le [OF one(3)] by blast
  assume m: "m \<in> tables_from m_const2bits (reachable lo) st'"
  then have "table_ok m" "m_const2bits st' \<subseteq>\<^sub>m m"
    using reachable_inv by (auto simp: tables_from_def blaster_inv_def intro: table_inv_ok)
  from rewrittenD(3) [OF one(1) this, of I] show "holds_in I r \<longleftrightarrow> holds_in (decode m I) e" by (simp add: holds_in_def blast_env_def)
qed

lemma blast_forms_sound:
  assumes "blast_forms (blaster ids lt) pg idxs (st, g, change) = Inr (st', g', change')" "idxs = [i..<length F]" "i \<le> length F"
    "reachable lo st" "list_all well_sorted F" "blasted_to (tables_from m_const2bits (reachable lo) st) F i g"
  shows "\<exists>j. blasted_to (tables_from m_const2bits (reachable lo) st') F j g' \<and> (m_inconsistent g' \<or> length F \<le> j)" "reachable lo st' \<and> blasts st st'"
    "same_config g g' \<and> (change' \<longleftrightarrow> change \<or> change') \<and> (\<not> change' \<longrightarrow> g' = g)"
proof -
  have "(\<exists>j. blasted_to (tables_from m_const2bits (reachable lo) st') F j g' \<and> (m_inconsistent g' \<or> length F \<le> j)) \<and> (reachable lo st' \<and> blasts st st') \<and>
    (same_config g g' \<and> (change' \<longleftrightarrow> change \<or> change') \<and> (\<not> change' \<longrightarrow> g' = g))"
    using assms
  proof (induction idxs arbitrary: i st g change)
    case Nil
    then show ?case using upt_eq_Nil_conv [of i "length F"] by (auto simp: same_config_def intro: blasts_refl)
  next
    case (Cons idx idxs)
    have k: "idx = i" "idxs = [Suc i..<length F]" and i: "i < length F" using Cons.prems(2) [symmetric] by (auto simp: upt_eq_Cons_conv)
    show ?case
    proof (cases "m_inconsistent g")
      case True
      with Cons.prems(1,4,6) show ?thesis by (auto simp: same_config_def intro: blasts_refl)
    next
      case False
      then obtain r st1 where r: "rewrite (blaster ids lt) pg (form g i) st = Inr (r, st1)" 
        using Cons.prems(1) k(1) by (auto split: sum.splits)
      note f = blasted_to_form [OF Cons.prems(6) False i]
      have w: "well_sorted (F ! i)" using Cons.prems(5) i by (simp add: list_all_length)
      note rw = rewrite_one [OF Cons.prems(4) w r [unfolded f]]
      note step = bt.blasted_to_step [OF Cons.prems(6,4) False i, of ids lt pg r st1, unfolded blaster_rewrites_def, OF conjI [OF w r [unfolded f]]]
      show ?thesis
      proof (cases "F ! i = r")
        case True
        then have "blast_forms (blaster ids lt) pg idxs (st1, g, change) = Inr (st', g', change')" using Cons.prems(1) k(1) r f False by simp
        from Cons.IH [OF this k(2) _ rw(2) Cons.prems(5) step(1) [OF True]] i rw(3) blasts_trans show ?thesis by auto
      next
        case c: False
        then obtain g1 where u: "update_form i r (m_proofs_enabled g) (dep g i) g = Some g1"
          and b: "blast_forms (blaster ids lt) pg idxs (st1, g1, True) = Inr (st', g', change')"
          using Cons.prems(1) k(1) r f False by (auto split: option.splits)
        from Cons.IH [OF b k(2) _ rw(2) Cons.prems(5)] step(2) [OF u] i rw(3) blasts_trans show ?thesis
          by (auto simp: same_config_def)
      qed
    qed
  qed
  then show "\<exists>j. blasted_to (tables_from m_const2bits (reachable lo) st') F j g' \<and> (m_inconsistent g' \<or> length F \<le> j)" "reachable lo st' \<and> blasts st st'"
    "same_config g g' \<and> (change' \<longleftrightarrow> change \<or> change') \<and> (\<not> change' \<longrightarrow> g' = g)" by blast+
qed

section \<open>The result\<close>

lemma fold_table:
  assumes "distinct ks" "length vs = length ks" "k \<le> length ks"
  shows "foldl (\<lambda>m i. m(ks ! i \<mapsto> vs ! i)) Map.empty [0..<k] = map_of (zip (take k ks) (take k vs))"
  using assms(3)
proof (induction k)
  case (Suc k)
  have "ks ! k \<notin> set (take k ks)" using assms(1) Suc.prems by (auto simp: in_set_conv_nth nth_eq_iff_index_eq)
  then have "map_of (zip (take k ks @ [ks ! k]) (take k vs @ [vs ! k])) = (map_of (zip (take k ks) (take k vs)))(ks ! k \<mapsto> vs ! k)"
    using assms(2) by (intro map_of_zip_snoc) simp_all
  with Suc assms(2) show ?case by (simp add: take_Suc_conv_app_nth)
qed simp

lemma end_rewrite_table:
  assumes "table_inv st" "m_keypos st = 0"
  shows "end_rewrite st (Map.empty, []) = (m_const2bits st, m_newbits st)"
proof -
  have "length (m_keys st) = length (m_values st)" using assms(1) list_all2_lengthD by (auto simp: table_inv_def)
  with assms fold_table [of "m_keys st" "m_values st" "length (m_keys st)"] show ?thesis by (simp add: end_rewrite_def table_inv_def)
qed

lemma map_of_keys: "map_of (map (\<lambda>f. (f, h f)) ks) f = (if f \<in> set ks then Some (h f) else None)"
  by (induction ks) auto

lemma entries_list:
  assumes "table_inv st"
  shows "distinct (map fst (entries (m_const2bits st) (m_keys st)))" "map_of (entries (m_const2bits st) (m_keys st)) = m_const2bits st"
proof -
  have "map fst (entries (m_const2bits st) (m_keys st)) = filter (\<lambda>f. m_const2bits st f \<noteq> None) (m_keys st)"
    by (simp add: entries_def comp_def)
  then show "distinct (map fst (entries (m_const2bits st) (m_keys st)))" using assms by (simp add: table_inv_def)
  show "map_of (entries (m_const2bits st) (m_keys st)) = m_const2bits st"
  proof
    fix f
    have "f \<in> set (m_keys st)" if "m_const2bits st f = Some r" for r using table_inv_dom [OF assms] that by auto
    then show "map_of (entries (m_const2bits st) (m_keys st)) f = m_const2bits st f"
      by (cases "m_const2bits st f") (auto simp: entries_def map_of_keys)
  qed
qed

lemma tactic_converter:
  assumes "table_inv st" "mc = mk_bit_blaster_model_converter (entries (m_const2bits st) (m_keys st)) nb"
  shows "mc = None \<Longrightarrow> m_const2bits st = Map.empty" "mc = Some c \<Longrightarrow> converter_of st c"
  using entries_list [OF assms(1)] unfolding assms(2)
  by (auto simp: mk_bit_blaster_model_converter_def converter_of_def converter_for_def split: if_splits)

lemma decode_empty: "decode Map.empty I = I"
  by (simp add: decode_def)

lemma blast_goal_cases:
  assumes "blast_goal C pg im g = Inr (im', g')"
  obtains change g1 where "blast_forms C pg [0..<size_goal g] (start_rewrite (im_rewriter im), g, False) = Inr (im_rewriter im', g1, change)"
    "m_forms g' = m_forms g1" "m_inconsistent g' = m_inconsistent g1" "m_dependencies g' = m_dependencies g1" "m_core_enabled g' = m_core_enabled g1"
    "m_mc g' = m_mc (if change \<and> m_models_enabled g1
      then add_mc (case end_rewrite (im_rewriter im') (Map.empty, []) of (const2bits, newbits) \<Rightarrow>
         mk_bit_blaster_model_converter (entries const2bits (m_keys (im_rewriter im'))) newbits) g1 else g1)"
proof -
  obtain rw g1 change where b: "blast_forms C pg [0..<size_goal g] (start_rewrite (im_rewriter im), g, False) = Inr (rw, g1, change)"
    using assms by (auto simp: blast_goal_def split: if_splits sum.splits)
  have "im_rewriter im' = rw" using assms b by (auto simp: blast_goal_def Let_def split: if_splits)
  then show ?thesis using that [of g1 change] assms b
    by (auto simp: blast_goal_def Let_def inc_depth_def set_depth_def add_mc_def split: if_splits option.splits prod.splits)
qed

lemma blast_goal_sound:
  assumes "blast_goal (blaster ids lt) pg im g = Inr (im', g')" "reachable lo (im_rewriter im)" "list_all well_sorted (m_forms g)" "goal_inv g"
  shows "goal_holds I g' \<longleftrightarrow> goal_holds (decode (m_const2bits (im_rewriter im')) I) g" "goal_inv g'" "reachable lo (im_rewriter im')"
proof -
  obtain change g1 where b: "blast_forms (blaster ids lt) pg [0..<size_goal g] (start_rewrite (im_rewriter im), g, False) = Inr (im_rewriter im', g1, change)"
    and g': "m_forms g' = m_forms g1" "m_inconsistent g' = m_inconsistent g1" "m_dependencies g' = m_dependencies g1" "m_core_enabled g' = m_core_enabled g1"
    using assms(1) by (rule blast_goal_cases)
  note s = blast_forms_sound [OF b [unfolded size_goal_def] refl _ reach_start [OF assms(2)] assms(3) blasted_to_start [OF assms(4)]]
  obtain j where j: "blasted_to (tables_from m_const2bits (reachable lo) (im_rewriter im')) (m_forms g) j g1" "m_inconsistent g1 \<or> length (m_forms g) \<le> j" using s(1) by auto
  show "goal_holds I g' \<longleftrightarrow> goal_holds (decode (m_const2bits (im_rewriter im')) I) g"
    using blasted_to_end [OF j tables_from_self] s(2) g' by (simp add: goal_holds_def)
  show "goal_inv g'" using j(1) g' by (simp add: blasted_to_def goal_inv_def)
  show "reachable lo (im_rewriter im')" using s(2) by simp
qed

text \<open>The models of the result, converted, are models of the original goal.\<close>

definition convert_goal_model :: "bit_blaster_model_converter list \<Rightarrow> model \<Rightarrow> model" where
  \<comment> \<open>the composition that \<open>concat\<close> makes: the converter added last is used first\<close>
  "convert_goal_model mcs md = foldr convert_model mcs md"

lemma blast_goal_models:
  assumes b: "blast_goal (blaster ids lt) pg im g = Inr (im', g')" and re: "reachable lo (im_rewriter im)" and keys: "m_keys (im_rewriter im) = []"
    and ws: "list_all well_sorted (m_forms g)" and nb: "list_all (names_below lo) (m_forms g)" and inv: "goal_inv g"
    and models: "m_models_enabled g"
  shows "\<exists>mcs. m_mc g' = m_mc g @ mcs \<and> (\<forall>md vars. model_ok md \<and> (\<forall>f. is_bv_const f [] \<longrightarrow> md_interp md f = None) \<longrightarrow>
    (goal_holds (interp_of (convert_goal_model mcs md) vars) g \<longleftrightarrow> goal_holds (interp_of md vars) g'))"
proof -
  let ?st = "im_rewriter im'"
  obtain change g1 where f: "blast_forms (blaster ids lt) pg [0..<size_goal g] (start_rewrite (im_rewriter im), g, False) = Inr (?st, g1, change)"
    and g': "m_forms g' = m_forms g1"
    and mc: "m_mc g' = m_mc (if change \<and> m_models_enabled g1
      then add_mc (case end_rewrite ?st (Map.empty, []) of (const2bits, newbits) \<Rightarrow>
         mk_bit_blaster_model_converter (entries const2bits (m_keys ?st)) newbits) g1 else g1)"
    using b by (rule blast_goal_cases)
  note s = blast_forms_sound [OF f [unfolded size_goal_def] refl _ reach_start [OF re] ws blasted_to_start [OF inv]]
  note h = blast_goal_sound [OF b re ws inv]
  show ?thesis
  proof (cases change)
    case False
    with s(3) mc g' show ?thesis by (auto simp: convert_goal_model_def goal_holds_def)
  next
    case True
    have T: "table_inv ?st" using reachable_inv [OF h(3)] by (simp add: blaster_inv_def)
    have "m_keypos ?st = m_keypos (start_rewrite (im_rewriter im))" using s(2) blasts_grows by fastforce
    then have k: "m_keypos ?st = 0" by (simp add: start_rewrite_def keys)
    define c where "c = mk_bit_blaster_model_converter (entries (m_const2bits ?st) (m_keys ?st)) (m_newbits ?st)"
    have "m_models_enabled g1" "m_mc g1 = m_mc g" using s(3) models by (simp_all add: same_config_def)
    then have mc': "m_mc g' = m_mc g @ (case c of None \<Rightarrow> [] | Some c \<Rightarrow> [c])"
      using mc True by (simp add: end_rewrite_table [OF T k] c_def add_mc_def split: option.split)
    note tc = tactic_converter [OF T c_def]
    show ?thesis
    proof (cases c)
      case None
      with tc(1) h(1) mc' show ?thesis by (simp add: decode_empty convert_goal_model_def)
    next
      case (Some c')
      have "goal_holds (interp_of (convert_model c' md) vars) g \<longleftrightarrow> goal_holds (interp_of md vars) g'"
        if md: "model_ok md" "\<And>f. is_bv_const f [] \<Longrightarrow> md_interp md f = None" for md vars
      proof -
        have "md_interp md f = None" if "f \<in> dom (m_const2bits ?st)" for f
          using that table_inv_ok [OF T] unfolding table_ok_def by (intro md(2)) (simp add: is_bv_const_iff, blast)
        then have "holds_in (interp_of (convert_model c' md) vars) e \<longleftrightarrow> holds_in (decode (m_const2bits ?st) (interp_of md vars)) e" if "e \<in> set (m_forms g)" for e
          using convert_model_value [OF reachable_inv [OF h(3)] tc(2) [OF Some] md(1)] nb that by (simp add: list_all_iff holds_in_def)
        then show ?thesis unfolding h(1) by (simp add: goal_holds_def list_all_iff)
      qed
      with mc' Some show ?thesis by (auto simp: convert_goal_model_def)
    qed
  qed
qed

section \<open>The tactic returns\<close>

lemma blast_forms_returns:
  assumes "idxs = [i..<length F]" "i \<le> length F" "reachable lo st" "list_all well_sorted F" "blasted_to (tables_from m_const2bits (reachable lo) st) F i g"
    "\<not> m_proofs_enabled g" "\<not> list_ex (unsupported (m_blast_mul st)) F"
  shows "\<exists>s. blast_forms (blaster ids lt) pg idxs (st, g, change) = Inr s"
  using assms
proof (induction idxs arbitrary: i st g change)
  case (Cons idx idxs)
  have k: "idx = i" "idxs = [Suc i..<length F]" and i: "i < length F" using Cons.prems(1) [symmetric] by (auto simp: upt_eq_Cons_conv)
  show ?case
  proof (cases "m_inconsistent g")
    case False
    note f = blasted_to_form [OF Cons.prems(5) False i]
    have w: "well_sorted (F ! i)" "\<not> unsupported (m_blast_mul st) (F ! i)" using Cons.prems(4,7) i by (auto simp: list_all_length list_ex_length)
    then obtain r st1 where r: "rewrite (blaster ids lt) pg (F ! i) st = Inr (r, st1)" using rewrite_returns(1) by blast
    note rw = rewrite_one [OF Cons.prems(3) w(1) r]
    note step = bt.blasted_to_step [OF Cons.prems(5,3) False i, of ids lt pg r st1, unfolded blaster_rewrites_def, OF conjI [OF w(1) r]]
    have u: "\<not> list_ex (unsupported (m_blast_mul st1)) F" using Cons.prems(7) blasts_flags [OF rw(3)] by simp
    obtain g1 where g1: "update_form i r (m_proofs_enabled g) (dep g i) g = Some g1" using update_form_returns Cons.prems(6) by blast
    have "\<not> m_proofs_enabled g1" using step(2) [OF g1] Cons.prems(6) by (simp add: same_config_def)
    from Cons.IH [OF k(2) _ rw(2) Cons.prems(4) _ this u] Cons.IH [OF k(2) _ rw(2) Cons.prems(4) _ Cons.prems(6) u]
    show ?thesis using step(1) step(2) [OF g1] g1 r f k(1) False i by auto
  qed simp
qed simp

lemma bit_blaster_tactic_returns:
  assumes "goal_inv g" "list_all well_sorted (m_forms g)" "\<not> m_proofs_enabled g" "\<not> list_ex (unsupported (p_blast_mul p)) (m_forms g)"
  obtains im' g' where "bit_blaster_tactic (blaster ids lt) pg lo p g = Inr g'"
    "blast_goal (blaster ids lt) pg (mk_imp (blaster_rewriter_cfg p lo) p) g = Inr (im', g')"
proof -
  let ?st = "start_rewrite (updt_blaster_params p (blaster_rewriter_cfg p lo))"
  have "reachable lo ?st" by (intro reach_start reach_params reach_init)
  moreover have "m_blast_mul ?st = p_blast_mul p" by (simp add: start_rewrite_def updt_blaster_params_def)
  ultimately obtain s where "blast_forms (blaster ids lt) pg [0..<size_goal g] (?st, g, False) = Inr s"
    using blast_forms_returns [OF refl _ _ assms(2) blasted_to_start [OF assms(1)] assms(3)] assms(4) unfolding size_goal_def by fastforce
  then have "\<exists>x. blast_goal (blaster ids lt) pg (mk_imp (blaster_rewriter_cfg p lo) p) g = Inr x"
    using assms(3) by (cases s) (simp add: blast_goal_def mk_imp_def)
  then show ?thesis using that by (auto simp: bit_blaster_tactic_def)
qed

text \<open>
  C31. The tactic on a goal without proofs whose operators are supported: it returns a goal that
  has a model exactly if the original one has. When models are asked for, every model of the
  bits satisfies the new goal exactly if the added model converter turns it into a model of the
  original goal.
\<close>

theorem bit_blast_goal_correct:
  assumes "goal_inv g" "list_all well_sorted (m_forms g)" "list_all (names_below lo) (m_forms g)"
    and "\<not> m_proofs_enabled g" "\<not> list_ex (unsupported (p_blast_mul p)) (m_forms g)"
  shows "\<exists>g'. bit_blaster_tactic (blaster ids lt) pg lo p g = Inr g' \<and> goal_inv g' \<and>
    ((\<exists>I. goal_holds I g') \<longleftrightarrow> (\<exists>I. goal_holds I g)) \<and>
    (m_models_enabled g \<longrightarrow> (\<exists>mcs. m_mc g' = m_mc g @ mcs \<and>
      (\<forall>md vars. model_ok md \<and> (\<forall>f. is_bv_const f [] \<longrightarrow> md_interp md f = None) \<longrightarrow>
        (goal_holds (interp_of (convert_goal_model mcs md) vars) g \<longleftrightarrow> goal_holds (interp_of md vars) g'))))"
proof -
  obtain im' g' where t: "bit_blaster_tactic (blaster ids lt) pg lo p g = Inr g'"
    and b: "blast_goal (blaster ids lt) pg (mk_imp (blaster_rewriter_cfg p lo) p) g = Inr (im', g')"
    using assms(1,2,4,5) by (rule bit_blaster_tactic_returns)
  have re: "reachable lo (im_rewriter (mk_imp (blaster_rewriter_cfg p lo) p))" by (simp add: mk_imp_def reach_params reach_init)
  have keys: "m_keys (im_rewriter (mk_imp (blaster_rewriter_cfg p lo) p)) = []"
    by (simp add: mk_imp_def updt_blaster_params_def blaster_rewriter_cfg_def)
  note h = blast_goal_sound [OF b re assms(2,1)]
  have "goal_holds (encode (im_rewriter im') I) g'" if "goal_holds I g" for I
    using decode_encode [OF reachable_inv [OF h(3)], of _ I] assms(3) that unfolding h(1) by (simp add: goal_holds_def list_all_iff holds_in_def)
  with h(1) have "(\<exists>I. goal_holds I g') \<longleftrightarrow> (\<exists>I. goal_holds I g)" by blast
  with t h(2) blast_goal_models [OF b re keys assms(2,3,1)] show ?thesis by blast
qed

text \<open>The goal of the two assertions of the rewriter's example.\<close>

definition demo_goal :: goal where
  "demo_goal = fold (\<lambda>f. assert_expr f False {}) demo_assertions (mk_goal False True False)"

lemma demo_goal_facts: "m_forms demo_goal = demo_assertions" "goal_inv demo_goal" "\<not> m_proofs_enabled demo_goal" "m_models_enabled demo_goal"
proof -
  have "\<not> is_and f" "\<not> (is_not f \<and> is_or (get_arg f 0))" "\<not> Ast.is_true f" "\<not> Ast.is_false f" if "f \<in> set demo_assertions" for f
    using that by (auto simp: demo_assertions_def is_and_def is_not_def is_or_def get_arg_def Ast.is_true_def Ast.is_false_def m_true_def m_false_def)
  then have a: "assert_expr f False {} g = g\<lparr>m_forms := m_forms g @ [f]\<rparr>"
    if "\<not> m_inconsistent g" "\<not> m_core_enabled g" "f \<in> set demo_assertions" for f g
    using that by (simp add: assert_expr_def quick_process_def push_back_def)
  have g: "demo_goal = (mk_goal False True False)\<lparr>m_forms := demo_assertions\<rparr>"
    unfolding demo_goal_def using a by (simp add: demo_assertions_def mk_goal_def)
  show "m_forms demo_goal = demo_assertions" "goal_inv demo_goal" "\<not> m_proofs_enabled demo_goal" "m_models_enabled demo_goal"
    unfolding g by (simp_all add: mk_goal_def goal_inv_def)
qed

theorem bit_blast_goal_correct_witness:
  "\<exists>g'. bit_blaster_tactic (blaster (\<lambda>e. 0) (\<lambda>a b. False)) False 2 default_blaster_params demo_goal = Inr g' \<and> (\<exists>I. goal_holds I g')"
proof -
  have "goal_holds \<lparr>i_fun = \<lambda>g s vs. if g = 0 then 3 else 2, i_var = \<lambda>i s. 0\<rparr> demo_goal"
    by (simp add: goal_holds_def demo_goal_facts demo_assertions_def demo_const_def holds_in_def bv_apply_def)
  then show ?thesis
    using bit_blast_goal_correct [of demo_goal 2 default_blaster_params "\<lambda>e. 0" "\<lambda>a b. False" False] demo_facts demo_goal_facts by auto
qed

end
