(* ===== verification/Bv1_Blaster.thy ===== *)
theory Bv1_Blaster
  imports Goal_Rewriting
begin

text \<open>
  The tactic of bv1_blaster_tactic.cpp: it replaces bit-vectors by concatenations of bit-vectors
  of one bit, most significant bit first, on goals that only use numerals, extraction and
  concatenation. Its state is the table of the translated constants, in the order in which they
  were met, with the new constants and the first unused name of the manager.
\<close>

section \<open>The rewriter\<close>

record rw_cfg =
  cfg_const2bits :: "(func_decl \<times> expr) list"
  cfg_newbits :: "func_decl list"
  cfg_fresh_id :: nat

datatype bv1_exception = Unreachable_Code | Not_Target | Unset_Formula

definition mk_rw_cfg :: "nat \<Rightarrow> rw_cfg" where
  "mk_rw_cfg fresh = \<lparr>cfg_const2bits = [], cfg_newbits = [], cfg_fresh_id = fresh\<rparr>"

definition m_bit1 :: expr where
  "m_bit1 = APP (OP_BV_NUM 1 1) []"

definition m_bit0 :: expr where
  "m_bit0 = APP (OP_BV_NUM 0 1) []"

definition mk_concat :: "expr list \<Rightarrow> expr" where
  "mk_concat args = APP (BV_OP OP_CONCAT) args"

definition is_concat :: "expr \<Rightarrow> bool" where
  "is_concat e = is_app_of (BV_OP OP_CONCAT) e"

definition util_mk_and :: "expr list \<Rightarrow> expr" where
  \<comment> \<open>\<open>mk_and\<close> of ast_util.cpp\<close>
  "util_mk_and args = (if length args = 0 then m_true else if length args = 1 then args ! 0 else m_mk_and args)"

definition bv1_get_bits :: "expr \<Rightarrow> expr list" where
  "bv1_get_bits arg = (if is_concat arg then get_args arg else [arg])"

definition bv1_mk_const :: "func_decl \<Rightarrow> rw_cfg \<Rightarrow> expr \<times> rw_cfg" where
  "bv1_mk_const f st = (case map_of (cfg_const2bits st) f of
     Some r \<Rightarrow> (r, st)
   | None \<Rightarrow>
       let bv_size = srt_width (get_range f []) in
       if bv_size = 1 then (APP f [], st)
       else let ds = map (\<lambda>i. UNINTERPRETED (cfg_fresh_id st + i) (BV_SORT 1)) [0..<bv_size];
                r = mk_concat (map (\<lambda>d. APP d []) ds)
            in (r, st\<lparr>cfg_const2bits := cfg_const2bits st @ [(f, r)], cfg_newbits := cfg_newbits st @ ds,
                     cfg_fresh_id := cfg_fresh_id st + bv_size\<rparr>))"

definition bv1_blast_bv_term :: "expr \<Rightarrow> expr" where
  "bv1_blast_bv_term t = (let bv_size = srt_width (get_sort t) in
     if bv_size = 1 then t else mk_concat (map (\<lambda>i. APP (BV_OP (OP_EXTRACT i i)) [t]) (rev [0..<bv_size])))"

definition bv1_reduce_eq :: "expr \<Rightarrow> expr \<Rightarrow> expr" where
  "bv1_reduce_eq arg1 arg2 = util_mk_and (rev (map2 m_mk_eq (bv1_get_bits arg1) (bv1_get_bits arg2)))"

definition bv1_reduce_ite :: "expr \<Rightarrow> expr \<Rightarrow> expr \<Rightarrow> expr" where
  "bv1_reduce_ite c t e = mk_concat (map2 (\<lambda>t e. if t = e then t else m_mk_ite c t e) (bv1_get_bits t) (bv1_get_bits e))"

fun num_bits :: "nat \<Rightarrow> nat \<Rightarrow> expr list" where
  "num_bits 0 v = []"
| "num_bits (Suc sz) v = (if v mod 2 = 0 then m_bit0 else m_bit1) # num_bits sz (v div 2)"

definition bv1_reduce_num :: "nat \<Rightarrow> nat \<Rightarrow> expr" where
  "bv1_reduce_num v sz = mk_concat (rev (num_bits sz v))"

definition bv1_reduce_extract :: "nat \<Rightarrow> nat \<Rightarrow> expr \<Rightarrow> expr" where
  "bv1_reduce_extract hi lo arg = (let arg_bits = bv1_get_bits arg; sz = length arg_bits
     in mk_concat (map (\<lambda>i. arg_bits ! i) [sz - 1 - hi..<Suc (sz - 1 - lo)]))"

definition bv1_reduce_concat :: "expr list \<Rightarrow> expr" where
  "bv1_reduce_concat args = mk_concat (concat (map bv1_get_bits args))"

definition reduce_bin_xor :: "expr \<Rightarrow> expr \<Rightarrow> expr" where
  "reduce_bin_xor arg1 arg2 = mk_concat (map2 (\<lambda>b1 b2. m_mk_ite (m_mk_eq b1 b2) m_bit0 m_bit1) (bv1_get_bits arg1) (bv1_get_bits arg2))"

definition reduce_xor :: "expr list \<Rightarrow> expr" where
  "reduce_xor args = (if length args = 1 then args ! 0 else foldl reduce_bin_xor (reduce_bin_xor (args ! 0) (args ! 1)) (drop 2 args))"

definition bv1_reduce_app :: "func_decl \<Rightarrow> expr list \<Rightarrow> rw_cfg \<Rightarrow> bv1_exception + expr option \<times> rw_cfg" where
  \<comment> \<open>\<open>None\<close> is \<open>BR_FAILED\<close>\<close>
  "bv1_reduce_app f args st =
     (if args = [] \<and> get_family_id f = null_family \<and> is_bv_sort (get_range f []) then
        (case bv1_mk_const f st of (r, st1) \<Rightarrow> Inr (Some r, st1))
      else if f = OP_EQ then Inr (if is_bv (args ! 0) then Some (bv1_reduce_eq (args ! 0) (args ! 1)) else None, st)
      else if f = OP_ITE then Inr (if is_bv (args ! 1) then Some (bv1_reduce_ite (args ! 0) (args ! 1) (args ! 2)) else None, st)
      else if get_family_id f = bv_family then
        (case f of
           OP_BV_NUM v sz \<Rightarrow> Inr (Some (bv1_reduce_num v sz), st)
         | BV_OP (OP_EXTRACT hi lo) \<Rightarrow> Inr (Some (bv1_reduce_extract hi lo (args ! 0)), st)
         | BV_OP OP_CONCAT \<Rightarrow> Inr (Some (bv1_reduce_concat args), st)
         | BV_OP OP_BXOR \<Rightarrow> Inr (Some (reduce_xor args), st)
         | _ \<Rightarrow> Inl Unreachable_Code)
      else if is_bv_sort (get_range f (map get_sort args)) then Inr (Some (bv1_blast_bv_term (APP f args)), st)
      else Inr (None, st))"

definition bv1_config :: "(rw_cfg, bv1_exception) rewriter_config" where
  \<comment> \<open>variables are left alone, as \<open>default_rewriter_cfg\<close> does\<close>
  "bv1_config = \<lparr>c_reduce_var = (\<lambda>st i s. None), c_reduce_app = bv1_reduce_app\<rparr>"

definition bv1_rewrite :: "bool \<Rightarrow> expr \<Rightarrow> rw_cfg \<Rightarrow> bv1_exception + expr \<times> rw_cfg" where
  "bv1_rewrite = rewriter_tpl bv1_config"

definition bv1_rewrite_args :: "bool \<Rightarrow> expr list \<Rightarrow> rw_cfg \<Rightarrow> bv1_exception + expr list \<times> rw_cfg" where
  "bv1_rewrite_args = rewriter_tpl_args bv1_config"

lemma bv1_config_simps [simp]: "c_reduce_var bv1_config st i s = None" "c_reduce_app bv1_config = bv1_reduce_app"
  by (simp_all add: bv1_config_def)

section \<open>The tactic\<close>

fun visit_ok :: "expr \<Rightarrow> bool" where
  \<comment> \<open>the visitor, on the term and all below it; false when it throws\<close>
  "visit_ok (VAR i s) = False"
| "visit_ok (APP f args) \<longleftrightarrow> (get_family_id f = bv_family \<longrightarrow> (case f of
     OP_BV_NUM v sz \<Rightarrow> True | BV_OP (OP_EXTRACT hi lo) \<Rightarrow> True | BV_OP OP_CONCAT \<Rightarrow> True | _ \<Rightarrow> False)) \<and> list_all visit_ok args"

definition is_target :: "goal \<Rightarrow> bool" where
  "is_target g = list_all visit_ok (m_forms g)"

fun bv1_forms :: "bool \<Rightarrow> nat list \<Rightarrow> rw_cfg \<times> goal \<Rightarrow> bv1_exception + rw_cfg \<times> goal" where
  \<comment> \<open>the loop over the formulas that the goal has at first; \<open>pg\<close> tells whether the manager has proofs\<close>
  "bv1_forms pg [] (rw, g) = Inr (rw, g)"
| "bv1_forms pg (idx # idxs) (rw, g) =
     (if m_inconsistent g then Inr (rw, g)
      else case bv1_rewrite pg (form g idx) rw of
        Inl ex \<Rightarrow> Inl ex
      | Inr (new_curr, rw1) \<Rightarrow>
          (case update_form idx new_curr (m_proofs_enabled g) (dep g idx) g of
             None \<Rightarrow> Inl Unset_Formula
           | Some g1 \<Rightarrow> bv1_forms pg idxs (rw1, g1)))"

definition bv1_goal :: "bool \<Rightarrow> rw_cfg \<Rightarrow> goal \<Rightarrow> bv1_exception + rw_cfg \<times> goal" where
  "bv1_goal pg rw g =
     (if \<not> is_target g then Inl Not_Target
      else case bv1_forms pg [0..<size_goal g] (rw, g) of
        Inl ex \<Rightarrow> Inl ex
      | Inr (rw1, g1) \<Rightarrow>
          let g2 = (if m_models_enabled g1 then add_mc (mk_bv1_blaster_model_converter (cfg_const2bits rw1) (cfg_newbits rw1)) g1 else g1)
          in Inr (rw1, inc_depth g2))"

definition bv1_blaster_tactic :: "bool \<Rightarrow> nat \<Rightarrow> goal \<Rightarrow> bv1_exception + goal" where
  \<comment> \<open>\<open>clean\<close> makes the rewriter anew for every goal\<close>
  "bv1_blaster_tactic pg fresh g = map_sum id snd (bv1_goal pg (mk_rw_cfg fresh) g)"

end
