(* ===== verification/Bv1_Sound.thy ===== *)
theory Bv1_Sound
  imports Bv1_Blaster
begin

text \<open>
  What the bv1-blaster does: every operation gives a concatenation of single bits with the value
  of the original term, the states of the rewriter keep their invariant, and the tactic returns an
  equisatisfiable goal whose models are converted back.
\<close>

section \<open>Concatenations of single bits\<close>

definition single_bits :: "nat \<Rightarrow> expr list \<Rightarrow> bool" where
  "single_bits n bs \<longleftrightarrow> length bs = n \<and> list_all (bv_vec 1) bs"

definition is_one :: "interp \<Rightarrow> expr \<Rightarrow> bool" where
  "is_one I b \<longleftrightarrow> bv_nat (eval I b) = 1"

definition bits_nat :: "interp \<Rightarrow> expr list \<Rightarrow> nat" where
  "bits_nat I bs = bval (rev (map (is_one I) bs))"

definition blasted_vec :: "nat \<Rightarrow> expr \<Rightarrow> bool" where
  "blasted_vec n r \<longleftrightarrow> 0 < n \<and> bv_vec n r \<and> single_bits n (bv1_get_bits r)"

lemma single_bit_nat: "bv_vec 1 b \<Longrightarrow> bv_nat (eval I b) = of_bool (is_one I b)"
  using bv_value(2) [of b 1 I] by (auto simp: bv_vec_def is_one_def)

lemma single_bit_value: "bv_vec 1 b \<Longrightarrow> eval I b = VBv 1 (of_bool (is_one I b))"
  using bv_value(1) [of b 1 I] single_bit_nat [of b I] by (simp add: bv_vec_def)

lemma bits_nat_snoc: "bits_nat I (bs @ [b]) = of_bool (is_one I b) + 2 * bits_nat I bs"
  by (simp add: bits_nat_def)

lemma bits_nat_less: "single_bits n bs \<Longrightarrow> bits_nat I bs < 2 ^ n"
  using bval_less [of "rev (map (is_one I) bs)"] by (simp add: bits_nat_def single_bits_def)

lemma concat_single_bits: "list_all (bv_vec 1) bs \<Longrightarrow> concat_nat (map (eval I) bs) = bits_nat I bs"
proof (induction bs rule: rev_induct)
  case (snoc b bs)
  then show ?case using single_bit_nat [of b I] bv_value(3) [of b 1 I] by (simp add: concat_nat_snoc bits_nat_snoc bv_vec_def)
qed (simp add: concat_nat_def bits_nat_def)

lemma bits_mk_concat [simp]: "bv1_get_bits (mk_concat bs) = bs"
  by (simp add: bv1_get_bits_def mk_concat_def is_concat_def)

lemma mk_concat_value:
  assumes "single_bits n bs" "0 < n"
  shows "blasted_vec n (mk_concat bs)" "eval I (mk_concat bs) = VBv n (bits_nat I bs)"
proof -
  have s: "map get_sort bs = replicate n (BV_SORT 1)" using assms(1)
    by (intro nth_equalityI) (auto simp: single_bits_def list_all_length bv_vec_def)
  have w: "map bv_width (map (eval I) bs) = replicate n 1"
    using assms(1) bv_value(3) by (intro nth_equalityI) (auto simp: single_bits_def list_all_length bv_vec_def)
  have "bv_vec n (mk_concat bs)"
    using assms s by (auto simp: bv_vec_def mk_concat_def single_bits_def list_all_iff sig_ok_def bv_sig_ok_def get_range_def range_simps sum_list_replicate)
  with assms show "blasted_vec n (mk_concat bs)" by (simp add: blasted_vec_def)
  show "eval I (mk_concat bs) = VBv n (bits_nat I bs)"
    using assms w bits_nat_less [OF assms(1), of I] concat_single_bits [of bs I]
    by (simp add: mk_concat_def bv_apply_def Let_def in_bv_def single_bits_def sum_list_replicate nat_mod_as_int [symmetric] flip: of_nat_mod)
qed

lemma blasted_vec_value:
  assumes "blasted_vec n r"
  shows "eval I r = VBv n (bits_nat I (bv1_get_bits r))"
proof (cases "is_concat r")
  case True
  then have r: "r = mk_concat (bv1_get_bits r)" by (cases r) (auto simp: bv1_get_bits_def is_concat_def mk_concat_def)
  have "single_bits n (bv1_get_bits r)" "0 < n" using assms by (simp_all add: blasted_vec_def)
  from mk_concat_value(2) [OF this, of I] show ?thesis using r by simp
next
  case False
  then have "bv1_get_bits r = [r]" "n = 1" "bv_vec 1 r" using assms by (auto simp: blasted_vec_def bv1_get_bits_def single_bits_def)
  then show ?thesis using single_bit_value [of r I] by (simp add: bits_nat_def)
qed

lemma concat_same_bits:
  assumes "single_bits n bs" "0 < n" "get_sort e = BV_SORT n" "\<And>I. eval I e = VBv n (bits_nat I bs)"
  shows "same_term e (mk_concat bs) \<and> blasted_vec n (mk_concat bs)"
  using mk_concat_value [OF assms(1,2)] assms(3,4) by (simp add: same_term_def blasted_vec_def bv_vec_def)

lemma in_bv_nat: "in_bv n (int k) = VBv n (k mod 2 ^ n)"
  by (simp add: in_bv_def nat_mod_as_int zmod_int)

section \<open>Operations\<close>

lemma util_mk_and_ok:
  assumes "list_all ok_bool es"
  shows "ok_bool (util_mk_and es)" "holds_in I (util_mk_and es) \<longleftrightarrow> list_all (holds_in I) es"
proof -
  have "ok_bool (m_mk_and es)" "holds_in I (m_mk_and es) \<longleftrightarrow> list_all (holds_in I) es"
    using assms by (auto simp: m_mk_and_def ok_bool_def is_bool_def holds_in_def list_all_iff sig_ok_def get_range_def)
  moreover have "ok_bool m_true" by (simp add: m_true_def ok_bool_def is_bool_def sig_ok_def get_range_def)
  ultimately show "ok_bool (util_mk_and es)" "holds_in I (util_mk_and es) \<longleftrightarrow> list_all (holds_in I) es"
    using assms by (auto simp: util_mk_and_def length_Suc_conv)
qed

lemma eq_bits:
  assumes "bv_vec 1 b1" "bv_vec 1 b2"
  shows "ok_bool (m_mk_eq b1 b2)" "holds_in I (m_mk_eq b1 b2) \<longleftrightarrow> is_one I b1 = is_one I b2"
  using assms single_bit_value [of b1 I] single_bit_value [of b2 I]
  by (auto simp: m_mk_eq_def ok_bool_def is_bool_def bv_vec_def sig_ok_def get_range_def holds_in_def)

lemma bits_nat_inject: "length as = length bs \<Longrightarrow> bits_nat I as = bits_nat I bs \<longleftrightarrow> map (is_one I) as = map (is_one I) bs"
  by (simp add: bits_nat_def bval_inject)

lemma map2_bits:
  assumes "single_bits n as" "single_bits n bs" "\<And>a b. bv_vec 1 a \<Longrightarrow> bv_vec 1 b \<Longrightarrow> P (h a b)"
  shows "length (map2 h as bs) = n" "list_all P (map2 h as bs)"
  using assms by (auto simp: single_bits_def list_all_length)

lemma bv1_eq_same:
  assumes "blasted_vec n a" "blasted_vec n b"
  shows "same_term (APP OP_EQ [a, b]) (bv1_reduce_eq a b)"
proof (rule bool_same)
  let ?as = "bv1_get_bits a" and ?bs = "bv1_get_bits b"
  have s: "single_bits n ?as" "single_bits n ?bs" using assms by (simp_all add: blasted_vec_def)
  have l: "length ?as = length ?bs" using s by (simp add: single_bits_def)
  have ok: "list_all ok_bool (rev (map2 m_mk_eq ?as ?bs))"
    using map2_bits(2) [OF s, of ok_bool m_mk_eq] eq_bits(1) by simp
  show "ok_bool (bv1_reduce_eq a b)" using util_mk_and_ok(1) [OF ok] by (simp add: bv1_reduce_eq_def)
  show "get_sort (APP OP_EQ [a, b]) = BOOL_SORT" by (simp add: get_range_def)
  fix I
  have "holds_in I (bv1_reduce_eq a b) \<longleftrightarrow> list_all (holds_in I) (map2 m_mk_eq ?as ?bs)"
    using util_mk_and_ok(2) [OF ok, of I] by (simp add: bv1_reduce_eq_def)
  also have "\<dots> \<longleftrightarrow> (\<forall>i < n. is_one I (?as ! i) = is_one I (?bs ! i))"
    using s eq_bits(2) by (auto simp: single_bits_def list_all_length)
  also have "\<dots> \<longleftrightarrow> map (is_one I) ?as = map (is_one I) ?bs" using s by (auto simp: single_bits_def list_eq_iff_nth_eq)
  also have "\<dots> \<longleftrightarrow> eval I a = eval I b" using bits_nat_inject [OF l] blasted_vec_value [OF assms(1)] blasted_vec_value [OF assms(2)] by simp
  finally show "eval I (APP OP_EQ [a, b]) = VBool (holds_in I (bv1_reduce_eq a b))" by simp
qed

lemma ite_bit:
  assumes "ok_bool c" "bv_vec 1 t" "bv_vec 1 e"
  shows "bv_vec 1 (m_mk_ite c t e)" "is_one I (m_mk_ite c t e) \<longleftrightarrow> (if holds_in I c then is_one I t else is_one I e)"
  using assms by (auto simp: m_mk_ite_def bv_vec_def ok_bool_def is_bool_def sig_ok_def get_range_def is_one_def holds_in_def)

lemma bv1_ite_same:
  assumes "ok_bool c" "blasted_vec n t" "blasted_vec n e"
  shows "same_term (APP OP_ITE [c, t, e]) (bv1_reduce_ite c t e) \<and> blasted_vec n (bv1_reduce_ite c t e)"
  unfolding bv1_reduce_ite_def
proof (rule concat_same_bits)
  let ?h = "\<lambda>t e. if t = e then t else m_mk_ite c t e"
  have s: "single_bits n (bv1_get_bits t)" "single_bits n (bv1_get_bits e)" "0 < n" using assms by (simp_all add: blasted_vec_def)
  show "single_bits n (map2 ?h (bv1_get_bits t) (bv1_get_bits e))" 
    using map2_bits [OF s(1,2), of "bv_vec 1" ?h] ite_bit(1) [OF assms(1)] by (simp add: single_bits_def)
  show "0 < n" using s(3) .
  show "get_sort (APP OP_ITE [c, t, e]) = BV_SORT n" using assms(2) by (simp add: get_range_def blasted_vec_def bv_vec_def)
  fix I
  have "map (is_one I) (map2 ?h (bv1_get_bits t) (bv1_get_bits e)) = map (is_one I) (if holds_in I c then bv1_get_bits t else bv1_get_bits e)"
    using s ite_bit(2) [OF assms(1)] by (intro nth_equalityI) (auto simp: single_bits_def list_all_length)
  then show "eval I (APP OP_ITE [c, t, e]) = VBv n (bits_nat I (map2 ?h (bv1_get_bits t) (bv1_get_bits e)))"
    using blasted_vec_value [OF assms(2), of I] blasted_vec_value [OF assms(3), of I] by (simp add: bits_nat_def holds_in_def)
qed

lemma const_bits: "bv_vec 1 m_bit0" "bv_vec 1 m_bit1" "\<not> is_one I m_bit0" "is_one I m_bit1"
  by (simp_all add: bv_vec_def m_bit0_def m_bit1_def sig_ok_def get_range_def is_one_def)

lemma num_bits_value: "single_bits n (num_bits n v) \<and> bval (map (is_one I) (num_bits n v)) = v mod 2 ^ n"
proof (induction n arbitrary: v)
  case (Suc n)
  have "v mod 2 ^ Suc n = v mod 2 + 2 * (v div 2 mod 2 ^ n)" by (simp add: mod_mult2_eq)
  with Suc [of "v div 2"] const_bits show ?case by (auto simp: single_bits_def)
qed (simp add: single_bits_def)

lemma bv1_num_same:
  assumes "0 < n"
  shows "same_term (APP (OP_BV_NUM v n) []) (bv1_reduce_num v n) \<and> blasted_vec n (bv1_reduce_num v n)"
  unfolding bv1_reduce_num_def using assms num_bits_value [of n v]
  by (intro concat_same_bits) (auto simp: single_bits_def get_range_def bits_nat_def rev_map)

lemma bv1_extract_same:
  assumes "blasted_vec n a" "lo \<le> hi" "hi < n"
  shows "same_term (APP (BV_OP (OP_EXTRACT hi lo)) [a]) (bv1_reduce_extract hi lo a) \<and> blasted_vec (hi - lo + 1) (bv1_reduce_extract hi lo a)"
proof -
  let ?bs = "bv1_get_bits a"
  have s: "single_bits n ?bs" using assms(1) by (simp add: blasted_vec_def)
  have l: "length ?bs = n" using s by (simp add: single_bits_def)
  have r: "rev (map (\<lambda>i. ?bs ! i) [n - 1 - hi..<Suc (n - 1 - lo)]) = take (hi - lo + 1) (drop lo (rev ?bs))"
    using assms(2,3) by (intro nth_equalityI) (auto simp: l rev_nth simp del: upt_Suc)
  have "single_bits (hi - lo + 1) (map (\<lambda>i. ?bs ! i) [n - 1 - hi..<Suc (n - 1 - lo)])"
    using s assms(2,3) by (auto simp: single_bits_def list_all_length simp del: upt_Suc)
  moreover have "eval I (APP (BV_OP (OP_EXTRACT hi lo)) [a]) = VBv (hi - lo + 1) (bits_nat I (map (\<lambda>i. ?bs ! i) [n - 1 - hi..<Suc (n - 1 - lo)]))" for I
  proof -
    have "bits_nat I (map (\<lambda>i. ?bs ! i) [n - 1 - hi..<Suc (n - 1 - lo)]) = bval (map (is_one I) (take (hi - lo + 1) (drop lo (rev ?bs))))"
      unfolding r [symmetric] by (simp add: bits_nat_def rev_map del: upt_Suc)
    also have "\<dots> = bits_nat I ?bs div 2 ^ lo mod 2 ^ (hi - lo + 1)"
      by (simp add: take_map [symmetric] drop_map [symmetric] bval_take bval_drop bits_nat_def rev_map)
    finally have "VBv (hi - lo + 1) (bits_nat I (map (\<lambda>i. ?bs ! i) [n - 1 - hi..<Suc (n - 1 - lo)])) = in_bv (hi - lo + 1) (int (bits_nat I ?bs div 2 ^ lo))"
      unfolding in_bv_nat by simp
    then show ?thesis using blasted_vec_value [OF assms(1), of I] by (simp add: bv_apply_def zdiv_int del: upt_Suc)
  qed
  ultimately show ?thesis unfolding bv1_reduce_extract_def Let_def l
    by (intro concat_same_bits) (simp_all add: get_range_def range_simps del: upt_Suc)
qed

lemma blasted_vecD: "blasted_vec n a \<Longrightarrow> single_bits n (bv1_get_bits a) \<and> 0 < n \<and> well_sorted a \<and> get_sort a = BV_SORT n"
  by (simp add: blasted_vec_def bv_vec_def)

lemma bits_nat_append: "bits_nat I (as @ bs) = bits_nat I as * 2 ^ length bs + bits_nat I bs"
  by (simp add: bits_nat_def bval_append mult.commute)

lemma bv1_concat_same:
  assumes "args \<noteq> []" "list_all (\<lambda>a. blasted_vec (srt_width (get_sort a)) a) args"
  shows "same_term (APP (BV_OP OP_CONCAT) args) (bv1_reduce_concat args) \<and> blasted_vec (sum_list (map (srt_width \<circ> get_sort) args)) (bv1_reduce_concat args)"
proof -
  let ?W = "\<lambda>args. sum_list (map (srt_width \<circ> get_sort) args)"
  have v: "bv_width (eval I a) = srt_width (get_sort a) \<and> bv_nat (eval I a) = bits_nat I (bv1_get_bits a) \<and>
      length (bv1_get_bits a) = srt_width (get_sort a)" if "a \<in> set args" for a I
    using assms(2) that blasted_vec_value [of "srt_width (get_sort a)" a I] by (auto simp: list_all_iff blasted_vec_def single_bits_def)
  have "single_bits (?W as) (concat (map bv1_get_bits as)) \<and> concat_nat (map (eval I) as) = bits_nat I (concat (map bv1_get_bits as)) \<and>
      map bv_width (map (eval I) as) = map (srt_width \<circ> get_sort) as" if "set as \<subseteq> set args" for as I
    using that
  proof (induction as rule: rev_induct)
    case Nil
    show ?case by (simp add: single_bits_def concat_nat_def bits_nat_def)
  next
    case (snoc a as)
    have "blasted_vec (srt_width (get_sort a)) a" using snoc.prems assms(2) by (simp add: list_all_iff)
    with snoc v [of a I] show ?case by (auto simp: single_bits_def blasted_vec_def concat_nat_snoc bits_nat_append)
  qed
  from this [of args] have b: "single_bits (?W args) (concat (map bv1_get_bits args))"
    "\<And>I. concat_nat (map (eval I) args) = bits_nat I (concat (map bv1_get_bits args))"
    and w: "\<And>I. map bv_width (map (eval I) args) = map (srt_width \<circ> get_sort) args" by simp_all
  have "0 < srt_width (get_sort (hd args))" using assms by (cases args) (auto simp: blasted_vec_def)
  then have "0 < ?W args" using assms(1) by (cases args) auto
  moreover have "eval I (APP (BV_OP OP_CONCAT) args) = VBv (?W args) (bits_nat I (concat (map bv1_get_bits args)))" for I
  proof -
    have "eval I (APP (BV_OP OP_CONCAT) args) = in_bv (?W args) (int (bits_nat I (concat (map bv1_get_bits args))))"
      by (simp only: eval.simps apply_decl.simps bv_apply_def Let_def bv_op.case w b(2))
    then show ?thesis using bits_nat_less [OF b(1), of I] by (simp add: in_bv_nat)
  qed
  ultimately show ?thesis unfolding bv1_reduce_concat_def using b(1)
    by (intro concat_same_bits) (simp_all add: get_range_def range_simps comp_def)
qed

lemma xor_bit:
  assumes "bv_vec 1 a" "bv_vec 1 b"
  shows "bv_vec 1 (m_mk_ite (m_mk_eq a b) m_bit0 m_bit1)" "is_one I (m_mk_ite (m_mk_eq a b) m_bit0 m_bit1) \<longleftrightarrow> is_one I a \<noteq> is_one I b"
  using ite_bit [OF eq_bits(1) [OF assms] const_bits(1,2)] eq_bits(2) [OF assms, of I] const_bits(3,4) by auto

lemma bin_xor_same:
  assumes "blasted_vec n a" "blasted_vec n b"
  shows "same_term (APP (BV_OP OP_BXOR) [a, b]) (reduce_bin_xor a b) \<and> blasted_vec n (reduce_bin_xor a b)"
  unfolding reduce_bin_xor_def
proof (rule concat_same_bits)
  let ?h = "\<lambda>b1 b2. m_mk_ite (m_mk_eq b1 b2) m_bit0 m_bit1" and ?as = "bv1_get_bits a" and ?bs = "bv1_get_bits b"
  have s: "single_bits n ?as" "single_bits n ?bs" "0 < n" using assms by (simp_all add: blasted_vec_def)
  show "single_bits n (map2 ?h ?as ?bs)" using map2_bits [OF s(1,2), of "bv_vec 1" ?h] xor_bit(1) by (simp add: single_bits_def)
  show "0 < n" using s(3) .
  show "get_sort (APP (BV_OP OP_BXOR) [a, b]) = BV_SORT n" using assms(1) by (simp add: get_range_def range_simps blasted_vec_def bv_vec_def)
  fix I
  let ?A = "map (is_one I) ?as" and ?B = "map (is_one I) ?bs"
  have "map (is_one I) (map2 ?h ?as ?bs) = map2 (\<noteq>) ?A ?B"
    using s xor_bit(2) by (intro nth_equalityI) (auto simp: single_bits_def list_all_length)
  then have "bits_nat I (map2 ?h ?as ?bs) = bval (rev (map2 (\<noteq>) ?A ?B))" by (simp only: bits_nat_def)
  also have "\<dots> = bval (map2 (\<noteq>) (rev ?A) (rev ?B))" using s by (simp only: rev_map [of _ "zip ?A ?B"] zip_rev single_bits_def length_map)
  also have "\<dots> = xor (bits_nat I ?as) (bits_nat I ?bs)"
  proof -
    have "bval (map2 (\<noteq>) as bs) = xor (bval as) (bval bs)" if "length as = length bs" for as bs
      using that by (intro bit_eqI) (auto simp: bit_bval bit_xor_iff)
    then show ?thesis using s by (simp add: bits_nat_def single_bits_def)
  qed
  finally have x: "bits_nat I (map2 ?h ?as ?bs) = xor (bits_nat I ?as) (bits_nat I ?bs)" .
  have "eval I (APP (BV_OP OP_BXOR) [a, b]) = in_bv n (int (bits_nat I (map2 ?h ?as ?bs)))"
    unfolding x using blasted_vec_value [OF assms(1), of I] blasted_vec_value [OF assms(2), of I] by (simp add: bv_apply_def of_nat_xor_eq)
  then show "eval I (APP (BV_OP OP_BXOR) [a, b]) = VBv n (bits_nat I (map2 ?h ?as ?bs))"
    using bits_nat_less [OF \<open>single_bits n (map2 ?h ?as ?bs)\<close>, of I] by (simp add: in_bv_nat)
qed

lemma bv1_term_same:
  assumes "bv_vec n t" "0 < n" "\<not> is_concat t"
  shows "same_term t (bv1_blast_bv_term t) \<and> blasted_vec n (bv1_blast_bv_term t)"
proof (cases "n = 1")
  case True
  with assms show ?thesis by (simp add: bv1_blast_bv_term_def bv_vec_def same_term_def blasted_vec_def single_bits_def bv1_get_bits_def)
next
  case False
  let ?bs = "map (\<lambda>i. APP (BV_OP (OP_EXTRACT i i)) [t]) (rev [0..<n])"
  have s: "single_bits n ?bs" using assms(1)
    by (auto simp: single_bits_def list_all_iff bv_vec_def sig_ok_def bv_sig_ok_def bv_args_def get_range_def range_simps)
  have v: "eval I t = VBv n (bits_nat I ?bs)" for I
  proof -
    have "is_one I (APP (BV_OP (OP_EXTRACT i i)) [t]) \<longleftrightarrow> bit (bv_nat (eval I t)) i" for i
      by (simp add: is_one_def bv_apply_def in_bv_def bit_iff_odd nat_mod_as_int odd_iff_mod_2_eq_one zmod_int zdiv_int)
    then have "bits_nat I ?bs = bval (map (bit (bv_nat (eval I t))) [0..<n])" by (simp add: bits_nat_def rev_map comp_def)
    then show ?thesis using bv_value(1,2) [of t n I] assms(1) by (simp add: bval_bits bv_vec_def)
  qed
  have t: "get_sort t = BV_SORT n" using assms(1) by (simp add: bv_vec_def)
  from concat_same_bits [OF s assms(2) t v] show ?thesis using False t by (simp add: bv1_blast_bv_term_def)
qed

section \<open>States\<close>

definition bit1_name :: "nat \<Rightarrow> func_decl" where
  "bit1_name k = UNINTERPRETED k (BV_SORT 1)"

definition bits1_of_const :: "func_decl \<Rightarrow> expr \<Rightarrow> bool" where
  "bits1_of_const f r \<longleftrightarrow> (\<exists>g n ks. f = UNINTERPRETED g (BV_SORT n) \<and> 1 < n \<and> length ks = n \<and>
     r = mk_concat (map (\<lambda>k. APP (bit1_name k) []) ks))"

definition bv1_inv :: "nat \<Rightarrow> rw_cfg \<Rightarrow> bool" where
  "bv1_inv lo st \<longleftrightarrow> distinct (map fst (cfg_const2bits st)) \<and> (\<forall>(f, r) \<in> set (cfg_const2bits st). bits1_of_const f r) \<and>
     cfg_newbits st = concat (map (bit_decls \<circ> snd) (cfg_const2bits st)) \<and> distinct (cfg_newbits st) \<and>
     set (cfg_newbits st) \<subseteq> bit1_name ` {lo..<cfg_fresh_id st} \<and> lo \<le> cfg_fresh_id st"

abbreviation bv1_table :: "rw_cfg \<Rightarrow> func_decl \<rightharpoonup> expr" where
  "bv1_table st \<equiv> map_of (cfg_const2bits st)"

lemma bit1_name_eq [simp]: "bit1_name k = bit1_name l \<longleftrightarrow> k = l"
  by (simp add: bit1_name_def)

lemma names_single: "single_bits (length ks) (map (\<lambda>k. APP (bit1_name k) []) ks)"
  by (simp add: single_bits_def list_all_iff bv_vec_def bit1_name_def sig_ok_def get_range_def)

lemma bit_decls_concat [simp]: "bit_decls (mk_concat (map (\<lambda>k. APP (bit1_name k) []) ks)) = map bit1_name ks"
  by (simp add: bit_decls_def mk_concat_def)

lemma bits1_vec:
  assumes "bits1_of_const f r"
  shows "\<exists>g n. f = UNINTERPRETED g (BV_SORT n) \<and> 1 < n \<and> blasted_vec n r"
proof -
  obtain g n ks where f: "f = UNINTERPRETED g (BV_SORT n)" "1 < n" "length ks = n" and r: "r = mk_concat (map (\<lambda>k. APP (bit1_name k) []) ks)"
    using assms by (auto simp: bits1_of_const_def)
  then have "blasted_vec n r" using mk_concat_value(1) [OF names_single [of ks]] by simp
  with f show ?thesis by blast
qed

lemma bv1_entry: "bv1_inv lo st \<Longrightarrow> bv1_table st f = Some r \<Longrightarrow> bits1_of_const f r"
  by (auto simp: bv1_inv_def dest!: map_of_SomeD)

lemma bv1_table_ok:
  assumes "bv1_inv lo st"
  shows "table_ok (bv1_table st)"
  unfolding table_ok_def
proof (intro allI impI)
  fix f r assume "bv1_table st f = Some r"
  from bits1_vec [OF bv1_entry [OF assms this]] show "\<exists>g n. f = UNINTERPRETED g (BV_SORT n) \<and> bv_vec n r" by (auto simp: blasted_vec_def)
qed

lemma bv1_mk_const_cases:
  assumes "is_bv_const f []"
  obtains (old) r where "bv1_table st f = Some r" "bv1_mk_const f st = (r, st)"
  | (single) "bv1_table st f = None" "get_range f [] = BV_SORT 1" "bv1_mk_const f st = (APP f [], st)"
  | (new) g n r where "bv1_table st f = None" "f = UNINTERPRETED g (BV_SORT n)" "n \<noteq> 1"
      "r = mk_concat (map (\<lambda>k. APP (bit1_name k) []) [cfg_fresh_id st..<cfg_fresh_id st + n])"
      "bv1_mk_const f st = (r, st\<lparr>cfg_const2bits := cfg_const2bits st @ [(f, r)],
         cfg_newbits := cfg_newbits st @ map bit1_name [cfg_fresh_id st..<cfg_fresh_id st + n], cfg_fresh_id := cfg_fresh_id st + n\<rparr>)"
proof (cases "bv1_table st f")
  case (Some r)
  then show ?thesis using old by (simp add: bv1_mk_const_def)
next
  case None
  obtain g n where f: "f = UNINTERPRETED g (BV_SORT n)" using assms by (auto simp: is_bv_const_iff)
  have "map (\<lambda>i. UNINTERPRETED (cfg_fresh_id st + i) (BV_SORT 1)) [0..<n] = map bit1_name [cfg_fresh_id st..<cfg_fresh_id st + n]"
    "map (\<lambda>i. APP (UNINTERPRETED (cfg_fresh_id st + i) (BV_SORT 1)) []) [0..<n] = map (\<lambda>k. APP (bit1_name k) []) [cfg_fresh_id st..<cfg_fresh_id st + n]"
    by (intro nth_equalityI; simp add: bit1_name_def)+
  then show ?thesis using None single new [OF None f _ refl] f
    by (cases "n = 1") (simp_all add: bv1_mk_const_def get_range_def Let_def comp_def)
qed

lemma bv1_mk_const_inv:
  assumes "bv1_inv lo st" "is_bv_const f []" "get_range f [] \<noteq> BV_SORT 0"
  shows "bv1_inv lo (snd (bv1_mk_const f st)) \<and> bv1_table st \<subseteq>\<^sub>m bv1_table (snd (bv1_mk_const f st))"
  using assms(2)
proof (cases rule: bv1_mk_const_cases [of f st])
  case (new g n r)
  have n: "1 < n" using new(2,3) assms(3) by (simp add: get_range_def)
  have "bits1_of_const f r" unfolding bits1_of_const_def new(2,4) using n by (intro exI conjI) (rule refl, auto)
  moreover have "f \<notin> set (map fst (cfg_const2bits st))" using new(1) by (simp add: map_of_eq_None_iff)
  moreover have sub: "set (cfg_newbits st) \<subseteq> bit1_name ` {lo..<cfg_fresh_id st}" using assms(1) unfolding bv1_inv_def by blast
  then have "set (cfg_newbits st) \<inter> bit1_name ` {cfg_fresh_id st..<cfg_fresh_id st + n} = {}" by auto
  moreover have "set (cfg_newbits st) \<subseteq> bit1_name ` {lo..<cfg_fresh_id st + n}" using sub by (rule order_trans) auto
  moreover have "bit_decls r = map bit1_name [cfg_fresh_id st..<cfg_fresh_id st + n]" unfolding new(4) by (rule bit_decls_concat)
  ultimately have "bv1_inv lo (snd (bv1_mk_const f st))" using assms(1) unfolding bv1_inv_def new(5)
    by (simp add: distinct_map inj_on_def) auto
  moreover have "bv1_table st \<subseteq>\<^sub>m bv1_table (snd (bv1_mk_const f st))" using new(1) by (auto simp: new(5) map_le_def map_add_def)
  ultimately show ?thesis by blast
qed (use assms(1) in simp_all)

section \<open>Terms\<close>

fun no_empty_vec :: "expr \<Rightarrow> bool" where
  \<comment> \<open>no term has the width zero, which the solver's sorts do not have\<close>
  "no_empty_vec (VAR i s) = True"
| "no_empty_vec (APP f args) = (get_range f (map get_sort args) \<noteq> BV_SORT 0 \<and> list_all no_empty_vec args)"

definition wide_table :: "(func_decl \<rightharpoonup> expr) \<Rightarrow> bool" where
  "wide_table m \<longleftrightarrow> table_ok m \<and> (\<forall>f \<in> dom m. get_range f [] \<noteq> BV_SORT 1)"

lemma bv1_wide: "bv1_inv lo st \<Longrightarrow> wide_table (bv1_table st)"
  unfolding wide_table_def using bv1_table_ok [of lo st] bv1_entry [of lo st] bits1_vec by (fastforce simp: get_range_def)

lemma wide_entry: "wide_table m \<Longrightarrow> get_range f [] = BV_SORT 1 \<Longrightarrow> m f = None"
  by (auto simp: wide_table_def dom_def)

text \<open>As for the other rewriter, the value is that of the term for all later tables.\<close>

definition bv1_rewritten :: "rw_cfg \<Rightarrow> expr \<Rightarrow> expr \<Rightarrow> bool" where
  "bv1_rewritten st e r \<longleftrightarrow> well_sorted r \<and> get_sort r = get_sort e \<and> (\<forall>n. get_sort e = BV_SORT n \<longrightarrow> blasted_vec n r) \<and>
     (\<forall>m I. wide_table m \<longrightarrow> bv1_table st \<subseteq>\<^sub>m m \<longrightarrow> eval I r = eval (decode m I) e)"

lemma bv1_rewrittenD: "bv1_rewritten st e r \<Longrightarrow> wide_table m \<Longrightarrow> bv1_table st \<subseteq>\<^sub>m m \<Longrightarrow> eval I r = eval (decode m I) e"
  by (simp add: bv1_rewritten_def)

lemma bv1_rewritten_mono: "bv1_rewritten st e r \<Longrightarrow> bv1_table st \<subseteq>\<^sub>m bv1_table st' \<Longrightarrow> bv1_rewritten st' e r"
  using map_le_trans unfolding bv1_rewritten_def by blast

lemma table_rewritten:
  assumes "bv1_inv lo st" "bv1_table st f = Some r"
  shows "bv1_rewritten st (APP f []) r"
proof -
  obtain g n where f: "f = UNINTERPRETED g (BV_SORT n)" "blasted_vec n r" using bits1_vec [OF bv1_entry [OF assms]] by blast
  have "eval (decode m I) (APP f []) = eval I r" if "wide_table m" "bv1_table st \<subseteq>\<^sub>m m" for m I
  proof (rule decode_const)
    show "table_ok m" using that(1) by (simp add: wide_table_def)
    show "m f = Some r" using assms(2) that(2) by (auto simp: map_le_def dom_def)
  qed
  with f show ?thesis by (auto simp: bv1_rewritten_def blasted_vec_def bv_vec_def get_range_def)
qed

lemma bv1_const_rewritten:
  assumes "bv1_inv lo st" "is_bv_const f []" "get_range f [] \<noteq> BV_SORT 0"
  shows "bv1_rewritten (snd (bv1_mk_const f st)) (APP f []) (fst (bv1_mk_const f st))"
  using assms(2)
proof (cases rule: bv1_mk_const_cases [of f st])
  case (single)
  then have v: "bv_vec 1 (APP f [])" "f \<noteq> BV_OP OP_CONCAT" and r: "get_range f [] = BV_SORT 1"
    using assms(2) by (auto simp: bv_vec_def is_bv_const_iff sig_ok_def get_range_def)
  have "eval (decode m I) (APP f []) = eval I (APP f [])" if "wide_table m" for m I
    using wide_entry [OF that r] assms(2) by (auto simp: is_bv_const_iff decode_def)
  with single v assms(2) show ?thesis
    by (simp add: bv1_rewritten_def bv_vec_def blasted_vec_def single_bits_def bv1_get_bits_def is_concat_def is_bv_const_iff)
next
  case (old r)
  with table_rewritten [OF assms(1)] show ?thesis by simp
next
  case (new g n r)
  have "bv1_inv lo (snd (bv1_mk_const f st))" using bv1_mk_const_inv [OF assms] by blast
  then show ?thesis by (rule table_rewritten) (simp add: new(1,5) map_add_def)
qed

text \<open>An operation on rewritten arguments.\<close>

definition bv1_op_ok :: "func_decl \<Rightarrow> bool" where
  "bv1_op_ok f \<longleftrightarrow> (get_family_id f = bv_family \<longrightarrow> (case f of
     OP_BV_NUM v sz \<Rightarrow> True | BV_OP (OP_EXTRACT hi lo) \<Rightarrow> True | BV_OP OP_CONCAT \<Rightarrow> True | _ \<Rightarrow> False))"

lemma bv1_reduce_same:
  assumes args: "list_all (\<lambda>a. well_sorted a \<and> (\<forall>n. get_sort a = BV_SORT n \<longrightarrow> blasted_vec n a)) args"
    and f: "sig_ok f (map get_sort args)" "bv1_op_ok f" "get_range f (map get_sort args) \<noteq> BV_SORT 0" "\<not> is_bv_const f args"
  shows "\<exists>res. bv1_reduce_app f args st = Inr (res, st) \<and>
    (let r = (case res of None \<Rightarrow> APP f args | Some r \<Rightarrow> r) in
      same_term (APP f args) r \<and> (\<forall>n. get_range f (map get_sort args) = BV_SORT n \<longrightarrow> blasted_vec n r))"
proof -
  have ws: "well_sorted (APP f args)" using args f(1) by (simp add: list_all_iff)
  have nc: "\<not> (args = [] \<and> get_family_id f = null_family \<and> is_bv_sort (get_range f []))" using f(4) by (simp add: is_bv_const_def)
  have keep: ?thesis if "bv1_reduce_app f args st = Inr (None, st)" "\<not> is_bv_sort (get_range f (map get_sort args))"
    using that ws by (auto simp: same_term_def)
  consider "f = OP_EQ" | "f = OP_ITE" | v n where "f = OP_BV_NUM v n" | hi lo where "f = BV_OP (OP_EXTRACT hi lo)" | "f = BV_OP OP_CONCAT"
    | "f \<noteq> OP_EQ" "f \<noteq> OP_ITE" "get_family_id f \<noteq> bv_family"
    using f(2) by (auto simp: bv1_op_ok_def split: func_decl.splits bv_op.splits)
  then show ?thesis
  proof cases
    case 1
    then obtain a b where ab: "args = [a, b]" "get_sort a = get_sort b" using f(1) by (auto simp: sig_ok_def length_Suc_conv numeral_2_eq_2)
    show ?thesis
    proof (cases "is_bv a")
      case True
      then obtain n where n: "get_sort a = BV_SORT n" by (auto simp: is_bv_def is_bv_sort_iff)
      with args ab bv1_eq_same [of n a b] True 1 show ?thesis by (simp add: bv1_reduce_app_def get_range_def)
    next
      case False
      with 1 ab show ?thesis by (intro keep) (simp_all add: bv1_reduce_app_def get_range_def)
    qed
  next
    case 2
    then obtain c t e where ab: "args = [c, t, e]" "get_sort c = BOOL_SORT" "get_sort t = get_sort e"
      using f(1) by (auto simp: sig_ok_def length_Suc_conv numeral_3_eq_3)
    have c: "ok_bool c" using args ab by (simp add: ok_bool_def is_bool_def)
    show ?thesis
    proof (cases "is_bv t")
      case True
      then obtain n where n: "get_sort t = BV_SORT n" "get_sort e = BV_SORT n" using ab(3) by (auto simp: is_bv_def is_bv_sort_iff)
      with args ab(1) bv1_ite_same [OF c, of n t e] True 2 show ?thesis by (simp add: bv1_reduce_app_def get_range_def)
    next
      case False
      with 2 ab show ?thesis by (intro keep) (simp_all add: bv1_reduce_app_def get_range_def is_bv_def)
    qed
  next
    case (3 v n)
    then have "args = []" "0 < n" using f(1,3) by (auto simp: sig_ok_def get_range_def)
    with 3 bv1_num_same [of n v] show ?thesis by (simp add: bv1_reduce_app_def get_range_def)
  next
    case (4 hi lo)
    then obtain a n where a: "args = [a]" "get_sort a = BV_SORT n" "lo \<le> hi" "hi < n"
      using f(1) by (auto simp: sig_ok_def bv_sig_ok_def bv_args_def length_Suc_conv is_bv_sort_iff)
    with 4 args bv1_extract_same [of n a lo hi] show ?thesis by (simp add: bv1_reduce_app_def get_range_def range_simps)
  next
    case 5
    then have "args \<noteq> []" "list_all (\<lambda>a. blasted_vec (srt_width (get_sort a)) a) args"
      using f(1) args by (auto simp: sig_ok_def bv_sig_ok_def list_all_iff is_bv_sort_iff)
    from bv1_concat_same [OF this] 5 show ?thesis by (simp add: bv1_reduce_app_def get_range_def range_simps comp_def)
  next
    case 6
    show ?thesis
    proof (cases "is_bv_sort (get_range f (map get_sort args))")
      case True
      then obtain n where n: "get_range f (map get_sort args) = BV_SORT n" by (auto simp: is_bv_sort_iff)
      have "bv_vec n (APP f args)" using ws n by (simp add: bv_vec_def)
      moreover have "0 < n" using n f(3) by (cases n) auto
      moreover have "\<not> is_concat (APP f args)" using 6(3) by (auto simp: is_concat_def)
      ultimately have "same_term (APP f args) (bv1_blast_bv_term (APP f args)) \<and> blasted_vec n (bv1_blast_bv_term (APP f args))"
        by (rule bv1_term_same)
      moreover have "bv1_reduce_app f args st = Inr (Some (bv1_blast_bv_term (APP f args)), st)" using True 6 nc by (auto simp: bv1_reduce_app_def)
      ultimately show ?thesis using n by simp
    next
      case False
      with 6 nc show ?thesis by (intro keep) (auto simp: bv1_reduce_app_def)
    qed
  qed
qed

lemma bv1_app_rewritten:
  assumes args: "list_all2 (bv1_rewritten st) args new_args" and st: "bv1_inv lo st"
    and f: "sig_ok f (map get_sort args)" "bv1_op_ok f" "get_range f (map get_sort args) \<noteq> BV_SORT 0"
  shows "\<exists>res st'. bv1_reduce_app f new_args st = Inr (res, st') \<and> bv1_inv lo st' \<and> bv1_table st \<subseteq>\<^sub>m bv1_table st' \<and>
    bv1_rewritten st' (APP f args) (case res of None \<Rightarrow> APP f new_args | Some r \<Rightarrow> r)"
proof (cases "is_bv_const f args")
  case True
  then have a: "args = []" "new_args = []" "is_bv_const f []" using args by (auto simp: is_bv_const_def)
  have r: "get_range f [] \<noteq> BV_SORT 0" using f(3) a by simp
  have "bv1_reduce_app f new_args st = Inr (map_prod Some id (bv1_mk_const f st))"
    using a by (simp add: bv1_reduce_app_def is_bv_const_def split_def map_prod_def)
  with bv1_mk_const_inv [OF st a(3) r] bv1_const_rewritten [OF st a(3) r] show ?thesis
    by (simp add: a(1) map_prod_def split_def)
next
  case False
  have s: "map get_sort new_args = map get_sort args" "length new_args = length args"
    using args by (auto simp: list_all2_conv_all_nth bv1_rewritten_def intro!: nth_equalityI)
  have v: "map (eval I) new_args = map (eval (decode m I)) args" if "wide_table m" "bv1_table st \<subseteq>\<^sub>m m" for m I
    using args that by (auto simp: list_all2_conv_all_nth bv1_rewritten_def intro!: nth_equalityI)
  have nf: "\<not> is_bv_const f new_args" using False s(2) by (auto simp: is_bv_const_def)
  have "list_all (\<lambda>a. well_sorted a \<and> (\<forall>n. get_sort a = BV_SORT n \<longrightarrow> blasted_vec n a)) new_args"
    using args by (auto simp: list_all2_conv_all_nth list_all_length bv1_rewritten_def)
  from bv1_reduce_same [OF this _ f(2) _ nf, of st] f(1,3) s obtain res where res: "bv1_reduce_app f new_args st = Inr (res, st)"
    and r: "same_term (APP f new_args) (case res of None \<Rightarrow> APP f new_args | Some r \<Rightarrow> r)"
      "\<And>n. get_range f (map get_sort args) = BV_SORT n \<Longrightarrow> blasted_vec n (case res of None \<Rightarrow> APP f new_args | Some r \<Rightarrow> r)"
    by (auto simp: Let_def)
  have "eval I (APP f new_args) = eval (decode m I) (APP f args)" if m: "wide_table m" "bv1_table st \<subseteq>\<^sub>m m" for m I
  proof -
    have "table_ok m" using m(1) by (simp add: wide_table_def)
    from decode_app [OF this False, of I "eval (decode m I)"] v [OF m, of I] show ?thesis by (simp only: eval.simps)
  qed
  then show ?thesis using res r st s(1) by (auto simp: bv1_rewritten_def same_term_def)
qed

lemma bv1_rewritten_fold:
  assumes "bv1_rewritten st c r" "r = m_true \<and> b = t \<or> r = m_false \<and> b = e" "bv1_rewritten st b r'" "well_sorted (APP OP_ITE [c, t, e])"
  shows "bv1_rewritten st (APP OP_ITE [c, t, e]) r'"
proof -
  have "eval (decode m I) (APP OP_ITE [c, t, e]) = eval (decode m I) b" if m: "wide_table m" "bv1_table st \<subseteq>\<^sub>m m" for m I
    using bv1_rewrittenD [OF assms(1) m, of I, symmetric] assms(2) by (auto simp: m_true_def m_false_def)
  moreover have "get_sort (APP OP_ITE [c, t, e]) = get_sort b" using assms(2,4) by (auto simp: get_range_def sig_ok_def)
  ultimately show ?thesis using assms(3) unfolding bv1_rewritten_def by simp
qed

lemma bv1_rewrite_ok:
  "visit_ok e \<Longrightarrow> well_sorted e \<Longrightarrow> no_empty_vec e \<Longrightarrow> bv1_inv lo st \<Longrightarrow>
     \<exists>r st'. bv1_rewrite pg e st = Inr (r, st') \<and> bv1_rewritten st' e r \<and> bv1_inv lo st' \<and> bv1_table st \<subseteq>\<^sub>m bv1_table st'"
  "list_all visit_ok es \<Longrightarrow> list_all well_sorted es \<Longrightarrow> list_all no_empty_vec es \<Longrightarrow> bv1_inv lo st \<Longrightarrow>
     \<exists>rs st'. bv1_rewrite_args pg es st = Inr (rs, st') \<and> list_all2 (bv1_rewritten st') es rs \<and> bv1_inv lo st' \<and> bv1_table st \<subseteq>\<^sub>m bv1_table st'"
  unfolding bv1_rewrite_def bv1_rewrite_args_def
proof (induction e st and es st rule: rewriter_induct [where K = bv1_config and pg = pg])
  case (Fold c t e st r0 b st1)
  from Fold(2,5,7-10) have c: "bv1_rewritten st1 c r0" "bv1_inv lo st1" "bv1_table st \<subseteq>\<^sub>m bv1_table st1" by auto
  from Fold(3,6-9) c(2) obtain r st' where b: "rewriter_tpl bv1_config pg b st1 = Inr (r, st')" "bv1_rewritten st' b r" "bv1_inv lo st'"
    "bv1_table st1 \<subseteq>\<^sub>m bv1_table st'" by auto
  have "bv1_rewritten st' (APP OP_ITE [c, t, e]) r"
    using bv1_rewritten_fold [OF bv1_rewritten_mono [OF c(1) b(4)] Fold(3) b(2) Fold(8)] .
  with b(1,3) Fold(4) map_le_trans [OF c(3) b(4)] show ?case by (simp add: rewriter_tpl_app)
next
  case (App f args st)
  then obtain rs st1 where a: "rewriter_tpl_args bv1_config pg args st = Inr (rs, st1)" "list_all2 (bv1_rewritten st1) args rs" "bv1_inv lo st1"
      "bv1_table st \<subseteq>\<^sub>m bv1_table st1" by auto
  have "sig_ok f (map get_sort args)" "bv1_op_ok f" "get_range f (map get_sort args) \<noteq> BV_SORT 0"
    using App(3-5) by (auto simp: bv1_op_ok_def)
  from bv1_app_rewritten [OF a(2,3) this] obtain res st' where r: "bv1_reduce_app f rs st1 = Inr (res, st')" "bv1_inv lo st'"
    "bv1_table st1 \<subseteq>\<^sub>m bv1_table st'" "bv1_rewritten st' (APP f args) (case res of None \<Rightarrow> APP f rs | Some r \<Rightarrow> r)" by blast
  with App(1) a(1) map_le_trans [OF a(4) r(3)] show ?case by (cases res) (auto simp: rewriter_tpl_app process_app_def)
next
  case (Cons e es st)
  then obtain r st1 where r: "rewriter_tpl bv1_config pg e st = Inr (r, st1)" "bv1_rewritten st1 e r" "bv1_inv lo st1" "bv1_table st \<subseteq>\<^sub>m bv1_table st1" by auto
  with Cons obtain rs st2 where a: "rewriter_tpl_args bv1_config pg es st1 = Inr (rs, st2)" "list_all2 (bv1_rewritten st2) es rs" "bv1_inv lo st2"
      "bv1_table st1 \<subseteq>\<^sub>m bv1_table st2" by fastforce
  with r bv1_rewritten_mono [OF r(2) a(4)] map_le_trans [OF r(4) a(4)] show ?case by simp
qed simp_all

section \<open>Models\<close>

definition bit1_table :: "rw_cfg \<Rightarrow> interp \<Rightarrow> (func_decl \<times> bool) list" where
  "bit1_table st I = concat (map (\<lambda>(f, r). zip (bit_decls r) (rev (map (bit (bv_nat (eval I (APP f [])))) [0..<length (bit_decls r)]))) (cfg_const2bits st))"

definition encode1 :: "rw_cfg \<Rightarrow> interp \<Rightarrow> interp" where
  "encode1 st I = I\<lparr>i_fun := \<lambda>g s vs.
     case if vs = [] then map_of (bit1_table st I) (UNINTERPRETED g s) else None of None \<Rightarrow> i_fun I g s vs | Some b \<Rightarrow> of_bool b\<rparr>"

lemma bit1_table_names: "bv1_inv lo st \<Longrightarrow> map fst (bit1_table st I) = cfg_newbits st"
  by (simp add: bit1_table_def bv1_inv_def map_concat comp_def split_def)

lemma encode1_const:
  assumes inv: "bv1_inv lo st" and "bv1_table st f = Some r"
  shows "eval (encode1 st I) r = eval I (APP f [])"
proof -
  have mem: "(f, r) \<in> set (cfg_const2bits st)" using assms(2) by (rule map_of_SomeD)
  obtain g n ks where f: "f = UNINTERPRETED g (BV_SORT n)" "1 < n" and n: "length ks = n"
    and r: "r = mk_concat (map (\<lambda>k. APP (bit1_name k) []) ks)" using bv1_entry [OF assms] by (auto simp: bits1_of_const_def)
  let ?v = "bv_nat (eval I (APP f []))"
  have "(bit1_name (ks ! j), bit ?v (n - 1 - j)) \<in> set (bit1_table st I)" if "j < n" for j
  proof -
    have "(bit1_name (ks ! j), bit ?v (n - 1 - j)) \<in> set (zip (bit_decls r) (rev (map (bit ?v) [0..<length (bit_decls r)])))"
      using that n by (auto simp: r set_zip rev_nth intro!: exI [of _ j])
    then show ?thesis using mem unfolding bit1_table_def by force
  qed
  moreover have "distinct (map fst (bit1_table st I))" unfolding bit1_table_names [OF inv] using inv unfolding bv1_inv_def by blast
  ultimately have "map_of (bit1_table st I) (bit1_name (ks ! j)) = Some (bit ?v (n - 1 - j))" if "j < n" for j
    using that by (simp add: map_of_is_SomeI)
  then have "is_one (encode1 st I) (APP (bit1_name (ks ! j)) []) = bit ?v (n - 1 - j)" if "j < n" for j
    using that by (simp add: is_one_def encode1_def bit1_name_def)
  then have "rev (map (is_one (encode1 st I)) (map (\<lambda>k. APP (bit1_name k) []) ks)) = map (bit ?v) [0..<n]"
    by (intro nth_equalityI) (simp_all add: n rev_nth)
  then have "bits_nat (encode1 st I) (map (\<lambda>k. APP (bit1_name k) []) ks) = ?v mod 2 ^ n" by (simp only: bits_nat_def bval_bits)
  then show ?thesis using mk_concat_value(2) [OF names_single [of ks], of "encode1 st I"] f n by (simp add: r)
qed

lemma decode_encode1:
  "bv1_inv lo st \<Longrightarrow> names_below lo e \<Longrightarrow> eval (decode (bv1_table st) (encode1 st I)) e = eval I e"
proof (induction e)
  case (VAR i s)
  show ?case by (simp add: decode_def encode1_def)
next
  case (APP f args)
  show ?case
  proof (cases "args = [] \<and> f \<in> dom (bv1_table st)")
    case True
    then obtain r where r: "bv1_table st f = Some r" and a: "args = []" by auto
    show ?thesis unfolding a using decode_const [OF bv1_table_ok [OF APP.prems(1)] r] encode1_const [OF APP.prems(1) r] by metis
  next
    case False
    have v: "map (eval (decode (bv1_table st) (encode1 st I))) args = map (eval I) args" using APP by (auto simp: list_all_iff)
    have "apply_decl (encode1 st I) f vs = apply_decl I f vs" for vs
    proof (cases f)
      case (UNINTERPRETED g s)
      have "set (cfg_newbits st) \<subseteq> bit1_name ` {lo..<cfg_fresh_id st}" using APP.prems(1) unfolding bv1_inv_def by blast
      then have "f \<notin> set (cfg_newbits st)" using APP.prems(2) UNINTERPRETED by (auto simp: bit1_name_def)
      then have "map_of (bit1_table st I) f = None" unfolding bit1_table_names [OF APP.prems(1), of I, symmetric] by (simp add: map_of_eq_None_iff)
      then show ?thesis by (simp add: UNINTERPRETED encode1_def)
    qed simp_all
    moreover have "args = [] \<Longrightarrow> bv1_table st f = None" using False by auto
    ultimately show ?thesis using decode_other [of args "bv1_table st" f "encode1 st I"] v by (simp only: eval.simps)
  qed
qed

lemma bv_value_num:
  assumes "is_value v" "well_sorted v" "get_sort v = BV_SORT n"
  obtains b where "v = APP (OP_BV_NUM b n) []" "b < 2 ^ n"
proof (cases v)
  case (APP f args)
  with assms that show ?thesis
    by (cases f) (auto simp: basic_is_value_def get_range_def sig_ok_def)
qed (use assms in simp)

lemma bit1_value:
  assumes "model_ok md"
  shows "is_one (interp_of md vars) (APP (bit1_name k) []) \<longleftrightarrow> (\<exists>v. md_interp md (bit1_name k) = Some v \<and> \<not> is_zero v)"
proof (cases "md_interp md (bit1_name k)")
  case (Some v)
  with assms have "is_value v" "well_sorted v" "get_sort v = BV_SORT 1" by (auto simp: model_ok_def bit1_name_def get_range_def)
  then obtain b where "v = APP (OP_BV_NUM b 1) []" "b < 2" by (rule bv_value_num) simp
  with Some show ?thesis by (auto simp: is_one_def interp_of_def bit1_name_def)
qed (simp add: is_one_def interp_of_def bit1_name_def)

lemma foldl_bval: "foldl (\<lambda>v b. v * 2 + (if P b then 1 else 0)) 0 bs = bval (rev (map P bs))" for P :: "'a \<Rightarrow> bool"
  by (induction bs rule: rev_induct) (auto simp: mult.commute)

lemma bits1_value_eval:
  assumes "model_ok md" "bits1_of_const f r"
  shows "eval (interp_of md vars) r = VBv (length (get_args r)) (bits_value False md r mod 2 ^ length (get_args r)) \<and>
    get_range f [] = BV_SORT (length (get_args r))"
proof -
  obtain g n ks where f: "f = UNINTERPRETED g (BV_SORT n)" "1 < n" "length ks = n"
    and r: "r = mk_concat (map (\<lambda>k. APP (bit1_name k) []) ks)" using assms(2) by (auto simp: bits1_of_const_def)
  have a: "get_args r = map (\<lambda>k. APP (bit1_name k) []) ks" by (simp add: r mk_concat_def)
  have "(case md_interp md d of None \<Rightarrow> 0 | Some v \<Rightarrow> if is_zero v then 0 else 1) = (if \<exists>v. md_interp md d = Some v \<and> \<not> is_zero v then 1 else 0 :: nat)" for d
    by (auto split: option.split)
  then have "bits_value False md r = bval (rev (map (\<lambda>b. \<exists>v. md_interp md (bit_decl b) = Some v \<and> \<not> is_zero v) (get_args r)))"
    by (simp only: bits_value_def if_False get_const_interp_def foldl_bval)
  also have "\<dots> = bits_nat (interp_of md vars) (get_args r)"
    by (simp add: bits_nat_def a comp_def bit1_value [OF assms(1)])
  finally have "bits_value False md r = bits_nat (interp_of md vars) (get_args r)" .
  then show ?thesis
    using mk_concat_value(2) [OF names_single [of ks], of "interp_of md vars"] bits_nat_less [OF names_single [of ks], of "interp_of md vars"] f
    by (simp add: r mk_concat_def get_range_def)
qed

lemma bv1_convert_value:
  assumes inv: "bv1_inv lo st" and mc: "converter_for False (cfg_const2bits st) mc" and md: "model_ok md"
    and unassigned: "\<And>f. f \<in> dom (bv1_table st) \<Longrightarrow> md_interp md f = None" and e: "names_below lo e"
  shows "eval (interp_of (convert_model mc md) vars) e = eval (decode (bv1_table st) (interp_of md vars)) e"
proof (rule convert_table_value [OF mc _ bv1_table_ok [OF inv] _ _ unassigned e])
  show "distinct (map fst (cfg_const2bits st))" using inv by (simp add: bv1_inv_def)
  show "eval (interp_of md vars) r = VBv (length (get_args r)) (bits_value False md r mod 2 ^ length (get_args r)) \<and>
      get_range f [] = BV_SORT (length (get_args r))" if "bv1_table st f = Some r" for f r
    using bits1_value_eval [OF md bv1_entry [OF inv that]] .
  fix g s assume g: "UNINTERPRETED g s \<in> collect_bits mc"
  have "collect_bits mc = set (cfg_newbits st)" using mc inv by (simp add: collect_bits_def converter_for_def bv1_inv_def comp_def)
  also have "\<dots> \<subseteq> bit1_name ` {lo..<cfg_fresh_id st}" using inv unfolding bv1_inv_def by blast
  finally show "lo \<le> g" using g by (auto simp: bit1_name_def)
qed

section \<open>The tactic\<close>

definition bv1_rewrites :: "bool \<Rightarrow> rw_cfg \<Rightarrow> expr \<Rightarrow> expr \<Rightarrow> rw_cfg \<Rightarrow> bool" where
  "bv1_rewrites pg st e r st' \<longleftrightarrow> visit_ok e \<and> well_sorted e \<and> no_empty_vec e \<and> bv1_rewrite pg e st = Inr (r, st')"

interpretation b1: goal_rewriter bv1_table "bv1_inv lo" "bv1_rewrites pg" for lo pg
proof
  fix st e r st' m I assume st: "bv1_inv lo st" and "bv1_rewrites pg st e r st'"
  then have w: "visit_ok e" "well_sorted e" "no_empty_vec e" and r: "bv1_rewrite pg e st = Inr (r, st')" by (simp_all add: bv1_rewrites_def)
  from bv1_rewrite_ok(1) [OF w st, of pg] r have h: "bv1_rewritten st' e r" "bv1_inv lo st'" "bv1_table st \<subseteq>\<^sub>m bv1_table st'" by auto
  show "bv1_inv lo st' \<and> bv1_table st \<subseteq>\<^sub>m bv1_table st'" using h by blast
  assume "m \<in> tables_from bv1_table (bv1_inv lo) st'"
  then have "wide_table m" "bv1_table st' \<subseteq>\<^sub>m m" using bv1_wide by (auto simp: tables_from_def)
  from bv1_rewrittenD [OF h(1) this, of I] show "holds_in I r \<longleftrightarrow> holds_in (decode m I) e" by (simp add: holds_in_def)
qed

lemma bv1_forms_ok:
  assumes "idxs = [i..<length F]" "i \<le> length F" "bv1_inv lo st" "list_all visit_ok F" "list_all well_sorted F" "list_all no_empty_vec F"
    "blasted_to (tables_from bv1_table (bv1_inv lo) st) F i g" "\<not> m_proofs_enabled g"
  shows "\<exists>st' g' j. bv1_forms pg idxs (st, g) = Inr (st', g') \<and> bv1_inv lo st' \<and> same_config g g' \<and>
    blasted_to (tables_from bv1_table (bv1_inv lo) st') F j g' \<and> (m_inconsistent g' \<or> length F \<le> j)"
  using assms
proof (induction idxs arbitrary: i st g)
  case Nil
  then show ?case using upt_eq_Nil_conv [of i "length F"] by (auto simp: same_config_def)
next
  case (Cons idx idxs)
  have k: "idx = i" "idxs = [Suc i..<length F]" and i: "i < length F" using Cons.prems(1) [symmetric] by (auto simp: upt_eq_Cons_conv)
  show ?case
  proof (cases "m_inconsistent g")
    case True
    with Cons.prems(3,7) show ?thesis by (auto simp: same_config_def)
  next
    case False
    note f = blasted_to_form [OF Cons.prems(7) False i]
    have w: "visit_ok (F ! i)" "well_sorted (F ! i)" "no_empty_vec (F ! i)" using Cons.prems(4-6) i by (auto simp: list_all_length)
    from bv1_rewrite_ok(1) [OF w Cons.prems(3)] obtain r st1 where r: "bv1_rewrite pg (F ! i) st = Inr (r, st1)" and st1: "bv1_inv lo st1" by blast
    obtain g1 where g1: "update_form i r (m_proofs_enabled g) (dep g i) g = Some g1" using update_form_returns Cons.prems(8) by blast
    have b: "blasted_to (tables_from bv1_table (bv1_inv lo) st1) F (Suc i) g1" "same_config g g1"
      using b1.blasted_to_step(2) [OF Cons.prems(7,3) False i _ g1, of pg st1] w r by (auto simp: bv1_rewrites_def)
    have "\<not> m_proofs_enabled g1" using b(2) Cons.prems(8) by (simp add: same_config_def)
    from Cons.IH [OF k(2) _ st1 Cons.prems(4-6) b(1) this] i obtain st' g' j where h: "bv1_forms pg idxs (st1, g1) = Inr (st', g')"
      "bv1_inv lo st'" "same_config g1 g'" "blasted_to (tables_from bv1_table (bv1_inv lo) st') F j g'" "m_inconsistent g' \<or> length F \<le> j" by auto
    have "same_config g g'" using b(2) h(3) by (simp add: same_config_def)
    moreover have "bv1_forms pg (idx # idxs) (st, g) = Inr (st', g')" using False f r g1 h(1) by (simp add: k(1))
    ultimately show ?thesis using h(2,4,5) by blast
  qed
qed

lemma bv1_goal_ok:
  assumes "goal_inv g" "is_target g" "list_all well_sorted (m_forms g)" "list_all no_empty_vec (m_forms g)" "\<not> m_proofs_enabled g" "bv1_inv lo st"
  obtains st' g1 g' where "bv1_goal pg st g = Inr (st', g')" "bv1_inv lo st'" "goal_inv g'"
    "\<And>I. goal_holds I g' \<longleftrightarrow> goal_holds (decode (bv1_table st') I) g"
    "m_models_enabled g \<Longrightarrow> m_mc g' = m_mc (add_mc (mk_bv1_blaster_model_converter (cfg_const2bits st') (cfg_newbits st')) g)"
proof -
  have v: "list_all visit_ok (m_forms g)" using assms(2) by (simp add: is_target_def)
  obtain st' g1 j where h: "bv1_forms pg [0..<size_goal g] (st, g) = Inr (st', g1)" "bv1_inv lo st'" "same_config g g1"
    "blasted_to (tables_from bv1_table (bv1_inv lo) st') (m_forms g) j g1" "m_inconsistent g1 \<or> length (m_forms g) \<le> j"
    using bv1_forms_ok [OF refl le0 assms(6) v assms(3,4) blasted_to_start [OF assms(1)] assms(5)] unfolding size_goal_def by blast
  define g' where "g' = inc_depth (if m_models_enabled g1 then add_mc (mk_bv1_blaster_model_converter (cfg_const2bits st') (cfg_newbits st')) g1 else g1)"
  have e: "m_forms g' = m_forms g1" "m_inconsistent g' = m_inconsistent g1" "m_dependencies g' = m_dependencies g1" "m_core_enabled g' = m_core_enabled g1"
    by (auto simp: g'_def inc_depth_def set_depth_def add_mc_def split: option.split)
  have "bv1_goal pg st g = Inr (st', g')" using assms(2) h(1) by (simp add: bv1_goal_def g'_def)
  moreover have "goal_inv g'" using h(4) e by (simp add: blasted_to_def goal_inv_def)
  moreover have "goal_holds I g' \<longleftrightarrow> goal_holds (decode (bv1_table st') I) g" for I
    using blasted_to_end [OF h(4,5) tables_from_self] h(2) e by (simp add: goal_holds_def)
  moreover have "m_mc g' = m_mc (add_mc (mk_bv1_blaster_model_converter (cfg_const2bits st') (cfg_newbits st')) g)" if "m_models_enabled g"
    using that h(3) by (auto simp: g'_def inc_depth_def set_depth_def add_mc_def same_config_def split: option.split)
  ultimately show ?thesis using that h(2) by blast
qed

lemma bv1_models:
  assumes inv: "bv1_inv lo st" and nb: "list_all (names_below lo) (m_forms g)" and "c = mk_bv1_blaster_model_converter (cfg_const2bits st) nbs"
    and holds: "\<And>I. goal_holds I g' \<longleftrightarrow> goal_holds (decode (bv1_table st) I) g"
  shows "\<exists>mcs. m_mc (add_mc c g) = m_mc g @ mcs \<and> (\<forall>md vars. model_ok md \<and> (\<forall>f n. is_bv_const f [] \<and> get_range f [] = BV_SORT n \<and> n \<noteq> 1 \<longrightarrow> md_interp md f = None) \<longrightarrow>
    (goal_holds (interp_of (foldr convert_model mcs md) vars) g \<longleftrightarrow> goal_holds (interp_of md vars) g'))"
proof (cases c)
  case None
  then have "bv1_table st = Map.empty" using assms(3) by (auto simp: mk_bv1_blaster_model_converter_def split: if_splits)
  with None holds show ?thesis by (simp add: add_mc_def decode_def)
next
  case (Some c')
  then have mc: "converter_for False (cfg_const2bits st) c'" using assms(3)
    by (auto simp: mk_bv1_blaster_model_converter_def converter_for_def split: if_splits)
  have "goal_holds (interp_of (convert_model c' md) vars) g \<longleftrightarrow> goal_holds (interp_of md vars) g'"
    if md: "model_ok md" "\<And>f n. is_bv_const f [] \<Longrightarrow> get_range f [] = BV_SORT n \<Longrightarrow> n \<noteq> 1 \<Longrightarrow> md_interp md f = None" for md vars
  proof -
    have "md_interp md f = None" if d: "f \<in> dom (bv1_table st)" for f
    proof -
      from d obtain r where "bv1_table st f = Some r" by blast
      from bits1_vec [OF bv1_entry [OF inv this]] show ?thesis by (auto intro!: md(2) simp: is_bv_const_iff get_range_def)
    qed
    from bv1_convert_value [OF inv mc md(1) this] nb show ?thesis
      unfolding holds by (simp add: goal_holds_def list_all_iff holds_in_def)
  qed
  with Some show ?thesis by (auto simp: add_mc_def intro!: exI [of _ "[c']"])
qed

text \<open>
  C32. The tactic on bit-vectors of one bit: a goal without proofs that uses only numerals,
  extraction and concatenation is turned into an equisatisfiable goal, and the models of the
  single bits that satisfy it are those that the added model converter turns into models of the
  original goal. On every other goal the tactic throws.
\<close>

theorem bv1_goal_correct:
  assumes "goal_inv g" "list_all well_sorted (m_forms g)" "list_all no_empty_vec (m_forms g)" "list_all (names_below lo) (m_forms g)"
    and "\<not> m_proofs_enabled g"
  shows "if is_target g then \<exists>g'. bv1_blaster_tactic pg lo g = Inr g' \<and> goal_inv g' \<and>
      ((\<exists>I. goal_holds I g') \<longleftrightarrow> (\<exists>I. goal_holds I g)) \<and>
      (m_models_enabled g \<longrightarrow> (\<exists>mcs. m_mc g' = m_mc g @ mcs \<and>
        (\<forall>md vars. model_ok md \<and> (\<forall>f n. is_bv_const f [] \<and> get_range f [] = BV_SORT n \<and> n \<noteq> 1 \<longrightarrow> md_interp md f = None) \<longrightarrow>
          (goal_holds (interp_of (foldr convert_model mcs md) vars) g \<longleftrightarrow> goal_holds (interp_of md vars) g'))))
    else bv1_blaster_tactic pg lo g = Inl Not_Target"
proof (cases "is_target g")
  case True
  have st: "bv1_inv lo (mk_rw_cfg lo)" by (simp add: bv1_inv_def mk_rw_cfg_def)
  obtain st' g' where h: "bv1_goal pg (mk_rw_cfg lo) g = Inr (st', g')" "bv1_inv lo st'" "goal_inv g'"
    "\<And>I. goal_holds I g' \<longleftrightarrow> goal_holds (decode (bv1_table st') I) g"
    "m_models_enabled g \<Longrightarrow> m_mc g' = m_mc (add_mc (mk_bv1_blaster_model_converter (cfg_const2bits st') (cfg_newbits st')) g)"
    using bv1_goal_ok [OF assms(1) True assms(2,3,5) st] by metis
  have "goal_holds (encode1 st' I) g'" if "goal_holds I g" for I
    using decode_encode1 [OF h(2), of _ I] assms(4) that unfolding h(4) by (simp add: goal_holds_def list_all_iff holds_in_def)
  with h(4) have "(\<exists>I. goal_holds I g') \<longleftrightarrow> (\<exists>I. goal_holds I g)" by blast
  moreover have "bv1_blaster_tactic pg lo g = Inr g'" using h(1) by (simp add: bv1_blaster_tactic_def)
  ultimately show ?thesis using True h(3,5) bv1_models [OF h(2) assms(4) refl h(4)] by (simp only: if_True) metis
next
  case False
  then show ?thesis by (simp add: bv1_blaster_tactic_def bv1_goal_def)
qed

text \<open>An example: four bits whose lower half is the upper one, and which are not all zero.\<close>

definition half_goal :: goal where
  "half_goal = forms_goal [APP OP_EQ [APP (BV_OP (OP_EXTRACT 1 0)) [APP (UNINTERPRETED 0 (BV_SORT 4)) []], APP (BV_OP (OP_EXTRACT 3 2)) [APP (UNINTERPRETED 0 (BV_SORT 4)) []]],
     APP OP_NOT [APP OP_EQ [APP (UNINTERPRETED 0 (BV_SORT 4)) [], APP (OP_BV_NUM 0 4) []]]]"

theorem bv1_goal_correct_witness:
  "\<exists>g'. bv1_blaster_tactic False 1 half_goal = Inr g' \<and> (\<exists>I. goal_holds I g')"
proof -
  have "goal_holds \<lparr>i_fun = \<lambda>g s vs. 10, i_var = \<lambda>i s. 0\<rparr> half_goal"
    by (simp add: half_goal_def goal_holds_def forms_goal_inv holds_in_def bv_apply_def in_bv_def)
  moreover have "goal_inv half_goal" "\<not> m_proofs_enabled half_goal" unfolding half_goal_def by (rule forms_goal_inv)+
  moreover have "is_target half_goal" "list_all well_sorted (m_forms half_goal)" "list_all no_empty_vec (m_forms half_goal)" "list_all (names_below 1) (m_forms half_goal)"
    by (simp_all add: half_goal_def forms_goal_inv is_target_def sig_ok_def bv_sig_ok_def bv_args_def get_range_def range_simps)
  ultimately show ?thesis using bv1_goal_correct [of half_goal 1 False] by (simp only: if_True) blast
qed

end
