(* ===== verification/Local_Context.thy ===== *)
theory Local_Context
  imports Rewriter_Ops "HOL-Library.Multiset"
begin

text \<open>
  The loop of \<open>local_ctx_simp\<close> ends. A forward and a backward pass that modify an argument make
  the arguments lighter, where the weight of a term counts its applications and an if-then-else
  nine times: every simplification of an argument replaces a literal by a constant, and the
  rewriting steps that follow never make a term heavier than the application they replace. The
  last section states what the rewriter guarantees as a whole.
\<close>

section \<open>Weights of rewritten terms\<close>

lemma weight_pos: "0 < weight e"
  by (cases e) auto

lemma weight_ge1: "1 \<le> weight e"
  using weight_pos [of e] by simp

lemma weight_m [simp]:
  "weight m_true = 1" "weight m_false = 1" "weight (m_mk_not a) = Suc (weight a)"
  "weight (m_mk_eq a b) = Suc (weight a + weight b)" "weight (m_mk_ite c a b) = 9 + weight c + weight a + weight b"
  "weight (m_mk_and as) = Suc (sum_list (map weight as))" "weight (m_mk_or as) = Suc (sum_list (map weight as))"
  by (simp_all add: m_defs)

lemma value_cases:
  assumes "is_value e" "well_sorted e"
  obtains f where "e = APP f []" "f \<noteq> OP_ITE"
proof (cases e)
  case (APP f as)
  with assms have "as = [] \<and> f \<noteq> OP_ITE"
    by (cases f) (auto simp: basic_is_value_def sig_ok_def split: if_splits)
  with APP that show ?thesis by blast
qed (use assms in simp)

lemma weight_value: "is_value e \<Longrightarrow> well_sorted e \<Longrightarrow> weight e = 1"
  by (erule value_cases) auto

lemma value_not_ite: "is_value e \<Longrightarrow> well_sorted e \<Longrightarrow> \<not> is_ite e"
  by (erule value_cases) (auto simp: is_ite_iff m_defs)

text \<open>The equation of an if-then-else tree of depth one or two with a value.\<close>

lemma try_ite_value_leaf:
  assumes "try_ite_value (m_mk_ite c t e) v = Some (st, r)" "weight v = 1" "\<not> ite_of_values t" "\<not> ite_of_values e"
  shows "weight r + 6 \<le> weight (m_mk_ite c t e)"
  using assms weight_ge1 [of t] weight_ge1 [of e] weight_ge1 [of c]
  by (auto simp: APP_ITE [symmetric] split: if_splits)

lemma ite_of_values_leaf:
  assumes "ite_of_values t" "well_sorted t"
  obtains c a b where "t = m_mk_ite c a b" "\<not> ite_of_values a" "\<not> ite_of_values b"
  using assms value_not_ite by (auto simp: ite_of_values_def is_ite_iff term_simps)

lemma try_ite_value_nested:
  assumes "ite_of_values t" "well_sorted t" "try_ite_value t v = Some (st, r)" "weight v = 1"
  shows "weight r + 6 \<le> weight t"
  using assms try_ite_value_leaf by (metis ite_of_values_leaf)

lemma try_ite_value_light:
  assumes "try_ite_value (m_mk_ite c t e) v = Some (st, r)" "weight v = 1" "well_sorted t" "well_sorted e"
  shows "weight r + 4 \<le> weight (m_mk_ite c t e)"
  using assms weight_ge1 [of t] weight_ge1 [of e] weight_ge1 [of c]
    try_ite_value_nested [of t v] try_ite_value_nested [of e v]
  by (fastforce simp: APP_ITE [symmetric] split: if_splits option.splits)

lemma ite_rules_light:
  assumes "ite_rules rw l r = Some (st, q)" "well_sorted l" "well_sorted r"
  shows "weight q + 3 \<le> weight l + weight r"
proof -
  consider "is_ite l" "is_value r" "try_ite_value l r = Some (st, q)"
    | "is_ite r" "is_value l" "try_ite_value r l = Some (st, q)"
    using assms(1) by (auto simp: ite_rules_def split: if_splits)
  then show ?thesis
    using weight_value [of l] weight_value [of r] assms(2,3)
    by cases (auto simp: is_ite_iff term_simps dest!: try_ite_value_light)
qed

lemma mk_not_mk_eq_weight:
  "ok_bool t \<Longrightarrow> weight (br_result (mk_not_core rw t) (m_mk_not t)) \<le> Suc (weight t)"
  "well_sorted l \<Longrightarrow> well_sorted r \<Longrightarrow> get_sort l = get_sort r \<Longrightarrow>
     weight (br_result (mk_eq_core rw l r) (m_mk_eq l r)) \<le> Suc (weight l + weight r)"
proof (induction rw t and rw l r rule: mk_not_core_mk_eq_core.induct)
  case (1 rw t)
  show ?case
  proof (cases "\<not> is_not t \<and> is_eq t \<and> is_bool (get_arg t 0)")
    case True
    then obtain a b where t: "t = m_mk_eq a b" by (auto simp: is_eq_iff)
    from True 1(3) have s: "ok_bool a" "well_sorted b" "get_sort b = BOOL_SORT" "is_bool a"
      unfolding t by (auto simp: term_simps ok_bool_def [of a] is_bool_def)
    define tmp where "tmp = br_result (mk_not_core rw a) (m_mk_not a)"
    have "weight tmp \<le> Suc (weight a)" using 1(1) s unfolding t tmp_def by (simp add: term_simps)
    moreover have "ok_bool tmp" using mk_not_mk_eq_sound(1) [OF s(1), of rw] by (simp add: tmp_def is_meaning_def)
    then have "weight (br_result (mk_eq_core rw tmp b) (m_mk_eq tmp b)) \<le> Suc (weight tmp + weight b)"
      using 1(2) s ok_boolD [of tmp] unfolding t by (simp add: term_simps tmp_def)
    ultimately show ?thesis
      using s unfolding t mk_not_core.simps [of rw "m_mk_eq a b"] by (simp add: term_simps tmp_def [symmetric])
  next
    case False
    with weight_ge1 [of t] show ?thesis
      by (auto simp: mk_not_core.simps [of rw t] is_not_iff is_true_def is_false_def term_simps)
  qed
next
  case (2 rw l r)
  show ?case
  proof (cases "are_equal l r \<or> are_distinct l r \<or> ite_rules rw l r \<noteq> None \<or> \<not> is_bool l")
    case True
    with 2(3-) ite_rules_light [of rw l r] show ?thesis
      by (fastforce simp: mk_eq_core.simps [of rw l r])
  next
    case False
    with 2(3-) have b: "ok_bool l" "ok_bool r" by (auto simp: ok_bool_def is_bool_def)
    define u where "u \<longleftrightarrow> is_not l \<and> is_not r"
    define l' where "l' = (if u then get_arg l 0 else l)"
    define r' where "r' = (if u then get_arg r 0 else r)"
    have b': "ok_bool l'" "ok_bool r'" and le: "weight l' \<le> weight l" "weight r' \<le> weight r"
      using b by (auto simp: l'_def r'_def u_def is_not_iff term_simps)
    note ih = 2(1,2) [OF _ _ _ _ u_def l'_def r'_def]
    from False ih b' le weight_ge1 [of l'] weight_ge1 [of r'] show ?thesis
      unfolding mk_eq_core.simps [of rw l r] Let_def u_def [symmetric] l'_def [symmetric] r'_def [symmetric]
      by (simp split del: if_split) (simp split: if_split, linarith?)
  qed
qed

lemma mk_not_weight: "ok_bool t \<Longrightarrow> weight (mk_not rw t) \<le> Suc (weight t)"
  using mk_not_mk_eq_weight(1) [of t rw] by (simp add: mk_not_def)

lemma mk_eq_weight:
  "well_sorted l \<Longrightarrow> well_sorted r \<Longrightarrow> get_sort l = get_sort r \<Longrightarrow> weight (mk_eq rw l r) \<le> Suc (weight l + weight r)"
  using mk_not_mk_eq_weight(2) [of l r rw] by (simp add: mk_eq_def)

definition is_const :: "expr \<Rightarrow> bool" where
  "is_const e \<longleftrightarrow> is_true e \<or> is_false e"

text \<open>An equation with a boolean constant is dissolved.\<close>

lemma mk_eq_const_weight:
  assumes "ok_bool l" "ok_bool r"
  shows "is_const l \<Longrightarrow> weight (mk_eq rw l r) \<le> Suc (weight r)" "is_const r \<Longrightarrow> weight (mk_eq rw l r) \<le> Suc (weight l)"
proof -
  note nw = mk_not_mk_eq_weight(1) [OF assms(1), of rw] mk_not_mk_eq_weight(1) [OF assms(2), of rw]
  note pos = weight_ge1 [of l] weight_ge1 [of r]
  have i: "weight q + 3 \<le> weight l + weight r" if "ite_rules rw l r = Some (st, q)" for st q
    using ite_rules_light [OF that] assms by (simp add: ok_boolD)
  have b: "is_bool l" using assms by (simp add: ok_boolD)
  have n: "\<not> is_not x" "weight x = 1" if "is_const x" for x
    using that by (auto simp: is_const_def is_true_def is_false_def term_simps)
  show "weight (mk_eq rw l r) \<le> Suc (weight r)" if "is_const l"
    using n [OF that] that b nw pos i
    by (auto simp: is_const_def mk_eq_def mk_eq_core.simps [of rw l r] Let_def split: if_splits)
  show "weight (mk_eq rw l r) \<le> Suc (weight l)" if "is_const r"
    using n [OF that] that b nw pos i
    by (auto simp: is_const_def mk_eq_def mk_eq_core.simps [of rw l r] Let_def split: if_splits)
qed

section \<open>Simplified arguments are lighter\<close>

lemma simp_arg_light:
  "weight (fst (simp_arg neg pos a)) \<le> weight a" "snd (simp_arg neg pos a) \<Longrightarrow> is_const (fst (simp_arg neg pos a))"
  "\<not> snd (simp_arg neg pos a) \<Longrightarrow> fst (simp_arg neg pos a) = a"
  using weight_ge1 [of a] by (auto simp: simp_arg_def is_const_def term_simps split: if_splits)

lemma nested_not_or_scan_light:
  assumes "nested_not_or_scan args neg pos simp new = Some (simp', new')"
  shows "sum_list (map weight new') \<le> sum_list (map weight new) + sum_list (map weight args)"
    "simp' \<Longrightarrow> \<not> simp \<Longrightarrow> sum_list (map weight new') < sum_list (map weight new) + sum_list (map weight args)"
proof -
  have "sum_list (map weight new') + of_bool (simp' \<and> \<not> simp) \<le> sum_list (map weight new) + sum_list (map weight args)"
    using assms
  proof (induction args arbitrary: simp new)
    case (Cons arg args)
    from Cons.IH [of simp "new @ [arg]"] Cons.IH [of True new] Cons.prems weight_ge1 [of arg]
    show ?case by (fastforce split: if_splits)
  qed auto
  then show "sum_list (map weight new') \<le> sum_list (map weight new) + sum_list (map weight args)"
    "simp' \<Longrightarrow> \<not> simp \<Longrightarrow> sum_list (map weight new') < sum_list (map weight new) + sum_list (map weight args)"
    by auto
qed

lemma simp_nested_not_or_light:
  assumes "bool_marks neg pos" "list_all ok_bool args" "simp_nested_not_or rw args neg pos = (Some r, rw')"
  shows "weight r < weight (m_mk_not (m_mk_or args))"
proof (cases "nested_not_or_scan args neg pos False []")
  case (Some p)
  then obtain simp new where s: "nested_not_or_scan args neg pos False [] = Some (simp, new)" by (cases p) auto
  with nested_not_or_scan_sound [OF assms(1,2), of "[]" False] have "list_all ok_bool new" by simp
  with assms(3) s nested_not_or_scan_light [OF s] mk_not_weight [of "hd new" rw] show ?thesis
    by (auto simp: simp_nested_not_or_def split: list.splits if_splits)
qed (use assms(3) in \<open>auto simp: simp_nested_not_or_def\<close>)

lemma mk_nested_ite_light:
  assumes "ok_bool c" "ok_bool t" "ok_bool e" "is_const c \<or> is_const t \<or> is_const e"
  shows "weight (mk_nested_ite rw c t e) + 4 \<le> weight (m_mk_ite c t e)"
  using assms mk_not_weight [OF assms(1), of rw] mk_not_weight [OF assms(2), of rw] mk_not_weight [OF assms(3), of rw]
    mk_eq_weight [of c t rw] ok_boolD [OF assms(1)] ok_boolD [OF assms(2)]
  unfolding mk_nested_ite_def is_const_def by (simp split: if_split) linarith

lemma simp_nested_eq_ite_light:
  assumes "bool_marks neg pos" "ok_bool t" "simp_nested_eq_ite rw t neg pos = (Some r, rw')"
  shows "weight r < weight t"
proof -
  define u where "u = (if is_not t then get_arg t 0 else t)"
  have u: "ok_bool u" "weight t = (if is_not t then Suc (weight u) else weight u)"
    using assms(2) by (auto simp: u_def is_not_iff term_simps)
  note sa = simp_arg_sound [OF assms(1)] and sb = simp_arg_bool [OF assms(1)]
  let ?a = "\<lambda>x. fst (simp_arg neg pos x)"
  have "\<exists>q. r = (if is_not t then mk_not rw q else q) \<and> ok_bool q \<and> weight q < weight u"
  proof (cases "is_eq u")
    case True
    then obtain a b where ab: "u = m_mk_eq a b" by (auto simp: is_eq_iff)
    with u have s: "well_sorted a" "well_sorted b" "get_sort a = get_sort b" by (simp_all add: term_simps)
    let ?q = "mk_eq rw (?a a) (?a b)"
    have r: "r = (if is_not t then mk_not rw ?q else ?q)" and m: "snd (simp_arg neg pos a) \<or> snd (simp_arg neg pos b)"
      using assms(3) ab True unfolding simp_nested_eq_ite_def u_def [symmetric] Let_def
      by (simp_all add: term_simps split: prod.splits if_splits)
    from m have c: "is_const (?a a) \<or> is_const (?a b)" using simp_arg_light(2) by blast
    have o: "ok_bool (?a a)" "ok_bool (?a b)"
      using c sa [OF s(1)] sa [OF s(2)] s by (auto simp: is_const_def is_true_def is_false_def term_simps ok_bool_def is_bool_def)
    have "weight ?q < weight u"
      using c mk_eq_const_weight [OF o, of rw] simp_arg_light(1) [of neg pos a] simp_arg_light(1) [of neg pos b]
        weight_ge1 [of a] weight_ge1 [of b] by (auto simp: ab)
    moreover have "ok_bool ?q" using sa [OF s(1)] sa [OF s(2)] s by (simp add: rw_simps)
    ultimately show ?thesis using r by blast
  next
    case False
    then have "is_ite u"
      using assms(3) unfolding simp_nested_eq_ite_def u_def [symmetric] Let_def by (simp split: if_splits)
    then obtain c a b where ab: "u = m_mk_ite c a b" by (auto simp: is_ite_iff)
    with u have s: "ok_bool c" "ok_bool a" "ok_bool b" by (simp_all add: term_simps)
    let ?q = "mk_nested_ite rw (?a c) (?a a) (?a b)"
    have r: "r = (if is_not t then mk_not rw ?q else ?q)"
      and m: "snd (simp_arg neg pos c) \<or> snd (simp_arg neg pos a) \<or> snd (simp_arg neg pos b)"
      using assms(3) ab False unfolding simp_nested_eq_ite_def u_def [symmetric] Let_def
      by (simp_all add: term_simps split: prod.splits if_splits)
    from m have c: "is_const (?a c) \<or> is_const (?a a) \<or> is_const (?a b)" using simp_arg_light(2) by blast
    note o = sb(1) [OF s(1)] sb(1) [OF s(2)] sb(1) [OF s(3)]
    have "weight ?q < weight u"
      using mk_nested_ite_light [OF o c, of rw] simp_arg_light(1) [of neg pos a] simp_arg_light(1) [of neg pos b]
        simp_arg_light(1) [of neg pos c] by (simp add: ab)
    moreover have "ok_bool ?q"
      using mk_nested_ite_sound [OF o(1), of "?a a" "?a b" rw] ok_boolD [OF o(2)] ok_boolD [OF o(3)]
      by (simp add: bool_conditional [OF o(2,3)] is_meaning_def)
    ultimately show ?thesis using r by blast
  qed
  then obtain q where q: "r = (if is_not t then mk_not rw q else q)" "ok_bool q" "weight q < weight u" by blast
  with u(2) mk_not_weight [OF q(2), of rw] show ?thesis by (simp split: if_splits)
qed

section \<open>Passes and rounds\<close>

definition args_weight :: "expr list \<Rightarrow> nat" where
  "args_weight as = sum_list (map weight as)"

lemma args_weight_simps [simp]:
  "args_weight [] = 0" "args_weight (a # as) = weight a + args_weight as"
  "args_weight (as @ bs) = args_weight as + args_weight bs" "args_weight (rev as) = args_weight as"
  by (simp_all add: args_weight_def sum_list_rev rev_map [symmetric])

lemma push_new_arg_light:
  "args_weight (c_new_args (push_new_arg arg st)) \<le> args_weight (c_new_args st) + weight arg"
  "c_modified (push_new_arg arg st) = c_modified st"
  by (simp_all add: push_new_arg_def Let_def)

lemma push_new_args_light:
  "args_weight (c_new_args (foldl (\<lambda>s a. push_new_arg a s) st args)) \<le> args_weight (c_new_args st) + args_weight args \<and>
   c_modified (foldl (\<lambda>s a. push_new_arg a s) st args) = c_modified st"
proof (induction args arbitrary: st)
  case (Cons a args)
  from Cons.IH [of "push_new_arg a st"] push_new_arg_light [of a st] show ?case by simp
qed simp

text \<open>A modification costs at least one unit of weight.\<close>

lemma process_arg_light:
  assumes "ctx_ok st" "ok_bool arg" "process_arg arg (rw, st) = (None, rw', st')"
  shows "args_weight (c_new_args st') + of_bool (c_modified st' \<and> \<not> c_modified st) \<le> args_weight (c_new_args st) + weight arg"
  using assms(3)
proof (cases rule: process_arg_cases)
  case (1 r1 rw1 r2 arg1 arg2 st1)
  have a1: "ok_bool arg1" "weight arg1 + of_bool (r1 \<noteq> None) \<le> weight arg"
  proof -
    have "ok_bool a \<and> weight a < weight arg" if r1: "r1 = Some a" for a
    proof -
      from 1(1) r1 have n: "is_not arg" "is_or (get_arg arg 0)"
        "simp_nested_not_or rw (get_args (get_arg arg 0)) (c_neg_lits st) (c_pos_lits st) = (Some a, rw1)"
        by (auto simp: nested_not_or_step_def split: if_splits)
      then obtain args where a: "arg = m_mk_not (m_mk_or args)" by (auto simp: is_not_iff is_or_iff term_simps)
      with n assms(2) have "list_all ok_bool args" "simp_nested_not_or rw args (c_neg_lits st) (c_pos_lits st) = (Some a, rw1)"
        by (simp_all add: term_simps)
      with simp_nested_not_or_light [OF ctx_marks [OF assms(1)]] simp_nested_not_or_sound(1) [OF ctx_marks [OF assms(1)]] a
      show ?thesis by blast
    qed
    with 1(2) assms(2) show "ok_bool arg1" "weight arg1 + of_bool (r1 \<noteq> None) \<le> weight arg"
      by (auto simp: Suc_le_eq split: option.splits)
  qed
  have a2: "weight arg2 + of_bool (r2 \<noteq> None) \<le> weight arg1"
    using 1(3,4) simp_nested_eq_ite_light [OF ctx_marks [OF assms(1)] a1(1), of rw1]
    by (auto simp: Suc_le_eq split: option.splits)
  have m: "of_bool (c_modified st1 \<and> \<not> c_modified st) \<le> of_bool (r1 \<noteq> None) + (of_bool (r2 \<noteq> None) :: nat)"
    "c_new_args st1 = c_new_args st" using 1(5) by auto
  have "args_weight (get_args arg2) \<le> weight arg2" if "is_or arg2"
    using that by (auto simp: is_or_iff term_simps args_weight_def)
  with 1(6) push_new_arg_light [of arg2 st1] push_new_args_light [of st1 "get_args arg2"] a1(2) a2 m show ?thesis
    by (auto split: if_splits)
qed

lemma process_args_light:
  assumes "ctx_ok st" "list_all ok_bool args" "process_args args (rw, st) = (None, rw', st')"
  shows "args_weight (c_new_args st') + of_bool (c_modified st' \<and> \<not> c_modified st) \<le> args_weight (c_new_args st) + args_weight args"
  using assms
proof (induction args arbitrary: rw st)
  case (Cons arg args)
  obtain res1 rw1 st1 where 1: "process_arg arg (rw, st) = (res1, rw1, st1)" by (cases "process_arg arg (rw, st)")
  with Cons.prems(3) have r: "res1 = None" "process_args args (rw1, st1) = (None, rw', st')" by (auto split: option.splits)
  from Cons.prems process_arg_sound [OF _ _ 1] have "ctx_ok st1" by auto
  with Cons.IH [OF this _ r(2)] process_arg_light [of st arg rw rw1 st1] 1 r(1) Cons.prems show ?case
    by (cases "c_modified st1") (auto split: if_splits)
qed simp

lemma local_ctx_round:
  assumes "list_all ok_bool args"
  obtains (result) r rw' where "local_ctx_loop (Suc n) rw simp md forward args = Some (Some r, rw')"
  | (pass) rw' simp' md' new where "list_all ok_bool new"
      "args_weight new + of_bool (md' \<and> \<not> md) \<le> args_weight args"
      "local_ctx_loop (Suc n) rw simp md forward args =
         (if forward then local_ctx_loop n rw' simp' md' False new
          else if \<not> md' then Some (if simp' then Some (mk_or_app args) else None, rw')
          else local_ctx_loop n rw' simp' False True (rev new))"
proof -
  define st0 where "st0 = \<lparr>c_new_args = [], c_neg_lits = {}, c_pos_lits = {}, c_modified = md, c_simp = simp\<rparr>"
  have st0: "ctx_ok st0" "c_new_args st0 = []" "c_modified st0 = md" by (simp_all add: st0_def ctx_ok_def)
  define as where "as = (if forward then args else rev args)"
  have as: "list_all ok_bool as" "args_weight as = args_weight args" using assms by (simp_all add: as_def)
  obtain r1 rw1 st1 where 1: "process_args as (add_cost (2 * length args) rw, st0) = (r1, rw1, st1)"
    by (cases "process_args as (add_cost (2 * length args) rw, st0)")
  note e = local_ctx_loop.simps(2) [of n rw simp md forward args, unfolded Let_def, folded st0_def, folded as_def, unfolded 1 prod.case]
  show thesis
  proof (cases r1)
    case None
    have "list_all ok_bool (c_new_args st1)"
      using process_args_sound [OF st0(1) as(1) 1] by (auto simp: ctx_ok_def marked_in_def)
    with pass [of "c_new_args st1" "c_modified st1" rw1 "c_simp st1"] None e
      process_args_light [OF st0(1) as(1) 1 [unfolded None]] st0 as show ?thesis by simp
  next
    case (Some r)
    with e result show ?thesis by simp
  qed
qed

lemma local_ctx_loop_returns:
  "list_all ok_bool args \<Longrightarrow> 2 * args_weight args + 2 \<le> n \<Longrightarrow> \<exists>y. local_ctx_loop n rw simp False True args = Some y"
proof (induction "args_weight args" arbitrary: args n rw simp rule: less_induct)
  case less
  from less.prems(2) obtain k where k: "n = Suc (Suc k)" "2 * args_weight args \<le> k"
    by (metis Suc_le_D add_2_eq_Suc' Suc_le_mono)
  from less.prems(1) show ?case
  proof (cases rule: local_ctx_round [of args "Suc k" rw simp False True])
    case (result r rw')
    with k show ?thesis by simp
  next
    case fwd: (pass rw' simp' md' new)
    from fwd(1) show ?thesis
    proof (cases rule: local_ctx_round [of new k rw' simp' md' False])
      case (result r rw')
      with k fwd(3) show ?thesis by simp
    next
      case bwd: (pass rw2 simp2 md2 new2)
      show ?thesis
      proof (cases md2)
        case True
        with fwd(2) bwd(2) have lt: "args_weight new2 < args_weight args" by (cases md') auto
        with less.hyps [of "rev new2" k rw2 simp2] bwd(1) k(2) have "\<exists>y. local_ctx_loop k rw2 simp2 False True (rev new2) = Some y"
          by simp
        with True k fwd(3) bwd(3) show ?thesis by simp
      qed (use k fwd(3) bwd(3) in simp)
    qed
  qed
qed

lemma local_ctx_loop_more:
  "local_ctx_loop n rw simp md forward args = Some y \<Longrightarrow> n \<le> m \<Longrightarrow> local_ctx_loop m rw simp md forward args = Some y"
proof (induction n arbitrary: m rw simp md forward args)
  case (Suc n)
  then obtain k where k: "m = Suc k" "n \<le> k" by (cases m) auto
  from Suc.prems(1) Suc.IH [OF _ k(2)] show ?case
    unfolding k(1) by (auto simp: Let_def split_def split: if_splits option.splits)
qed simp

definition demo_rw :: bool_rewriter where
  "demo_rw = mk_bool_rewriter (\<lambda>e. 0) (\<lambda>a b. False) default_params"

definition demo_or :: "expr list" where
  "demo_or = [VAR 0 BOOL_SORT, m_mk_not (m_mk_or [VAR 0 BOOL_SORT, VAR 1 BOOL_SORT])]"

lemma demo_or_ok: "list_all ok_bool demo_or"
  by (simp add: demo_or_def term_simps) (simp add: ok_bool_def is_bool_def)

text \<open>
  C21. The local context simplification of a disjunction of boolean terms ends within
  \<open>local_ctx_fuel\<close> rounds, and more rounds change nothing. Of the rewriter only the cost changes,
  and a result is a boolean term with the meaning of the disjunction.
\<close>

theorem local_ctx_simp_ends:
  assumes "list_all ok_bool args"
  shows "(\<forall>n \<ge> local_ctx_fuel args. local_ctx_loop n rw False False True args = Some (local_ctx_simp rw args)) \<and>
    (\<exists>c. snd (local_ctx_simp rw args) = rw\<lparr>m_local_ctx_cost := c\<rparr>) \<and>
    (\<forall>r. fst (local_ctx_simp rw args) = Some r \<longrightarrow> ok_bool r \<and> (\<forall>I. holds_in I r = list_ex (holds_in I) args))"
proof -
  obtain y where y: "local_ctx_loop (local_ctx_fuel args) rw False False True args = Some y"
    using local_ctx_loop_returns [OF assms, of "local_ctx_fuel args" rw False] by (auto simp: local_ctx_fuel_def args_weight_def)
  then have "local_ctx_simp rw args = y" by (simp add: local_ctx_simp_def)
  with y local_ctx_loop_more [OF y] local_ctx_simp_sound [OF assms, of rw "fst y" "snd y"] show ?thesis
    by (auto simp: cost_only_def)
qed

theorem local_ctx_simp_ends_witness:
  "local_ctx_loop 20 demo_rw False False True demo_or = Some (local_ctx_simp demo_rw demo_or) \<and>
   fst (local_ctx_simp demo_rw demo_or) = Some (m_mk_or [VAR 0 BOOL_SORT, m_mk_not (VAR 1 BOOL_SORT)])"
proof -
  have l: "local_ctx_loop 20 demo_rw False False True demo_or = Some (local_ctx_simp demo_rw demo_or)"
    using local_ctx_simp_ends [OF demo_or_ok, of demo_rw] by (simp add: local_ctx_fuel_def demo_or_def)
  have "map_option fst (local_ctx_loop 20 demo_rw False False True demo_or) =
      Some (Some (m_mk_or [VAR 0 BOOL_SORT, m_mk_not (VAR 1 BOOL_SORT)]))"
    by code_simp
  with l show ?thesis by simp
qed

section \<open>The rewriter as a whole\<close>

text \<open>
  C20. Whatever operation \<open>mk_app\<close> dispatches to, for every setting of the rewriter: the result of
  rewriting a well-sorted application is well-sorted, has its sort and its value in every
  interpretation. Of the rewriter only the cost may change, and only with local context
  simplification.
\<close>

theorem mk_app_sound:
  assumes "well_sorted (APP f args)"
  shows "well_sorted (fst (mk_app rw f args)) \<and> get_sort (fst (mk_app rw f args)) = get_sort (APP f args) \<and>
    (\<forall>I. eval I (fst (mk_app rw f args)) = eval I (APP f args)) \<and>
    (\<exists>c. snd (mk_app rw f args) = rw\<lparr>m_local_ctx_cost := c\<rparr>) \<and>
    (\<not> m_local_ctx rw \<longrightarrow> snd (mk_app rw f args) = rw)"
  using mk_app_sound_aux [OF assms, of rw] by (simp add: app_steps_def same_term_def cost_only_def)

theorem mk_app_sound_witness:
  "\<forall>I. eval I (fst (mk_app demo_rw OP_OR demo_or)) = eval I (APP OP_OR demo_or)"
proof -
  have "well_sorted (APP OP_OR demo_or)"
    using demo_or_ok by (simp add: sig_ok_def ok_bool_def is_bool_def list_all_iff)
  then show ?thesis using mk_app_sound [of OP_OR demo_or demo_rw] by blast
qed

text \<open>Disjunctions in normal form: no constants, no repetitions, no atom beside its negation.\<close>

definition or_normal :: "expr list \<Rightarrow> bool" where
  "or_normal bs \<longleftrightarrow> distinct bs \<and>
     list_all (\<lambda>b. \<not> is_true b \<and> \<not> is_false b \<and> (is_not b \<or> m_mk_not b \<notin> set bs)) bs"

definition clean_scan :: "expr list \<Rightarrow> expr set \<Rightarrow> expr set \<Rightarrow> bool" where
  "clean_scan buffer neg pos \<longleftrightarrow> or_normal buffer \<and> neg = {a. m_mk_not a \<in> set buffer} \<and>
     pos = {a \<in> set buffer. \<not> is_not a}"

lemma clean_scan_Nil [simp]: "clean_scan [] {} {}"
  by (simp add: clean_scan_def or_normal_def)

lemma clean_scan_neg:
  assumes "clean_scan buffer neg pos" "a \<notin> neg" "a \<notin> pos"
  shows "clean_scan (buffer @ [m_mk_not a]) (insert a neg) pos"
  using assms by (auto simp: clean_scan_def or_normal_def list_all_iff is_not_iff term_simps m_defs is_true_def is_false_def)

lemma clean_scan_pos:
  assumes "clean_scan buffer neg pos" "a \<notin> neg" "a \<notin> pos" "\<not> is_not a" "\<not> is_true a" "\<not> is_false a"
  shows "clean_scan (buffer @ [a]) neg (insert a pos)"
  using assms by (auto simp: clean_scan_def or_normal_def list_all_iff is_not_iff term_simps) metis

lemma or_scan_flag: "or_scan rw args neg pos prev True buffer = Some (s', buffer') \<Longrightarrow> s'"
  by (induction args arbitrary: neg pos prev buffer) (auto simp: Let_def split: if_splits)

lemma or_scan_normal:
  assumes "or_scan rw args neg pos prev s buffer = Some (s', buffer')" "clean_scan buffer neg pos"
  shows "or_normal buffer' \<and> set buffer' \<subseteq> set buffer \<union> set args \<and> (\<not> s' \<longrightarrow> buffer' = buffer @ args)"
  using assms
proof (induction args arbitrary: neg pos prev s buffer)
  case (Cons arg args)
  consider (skip) "or_scan rw args neg pos prev True buffer = Some (s', buffer')"
    | (neg) a p t where "arg = m_mk_not a" "a \<notin> neg" "a \<notin> pos"
        "or_scan rw args (insert a neg) pos p t (buffer @ [arg]) = Some (s', buffer')"
    | (pos) p t where "arg \<notin> neg" "arg \<notin> pos" "\<not> is_not arg" "\<not> is_true arg" "\<not> is_false arg"
        "or_scan rw args neg (insert arg pos) p t (buffer @ [arg]) = Some (s', buffer')"
    using Cons.prems(1) by (fastforce simp: Let_def is_not_iff term_simps split: if_splits)
  then show ?case
  proof cases
    case skip
    have "s'" by (rule or_scan_flag [OF skip])
    with Cons.IH [OF skip Cons.prems(2)] show ?thesis by auto
  next
    case neg
    from Cons.IH [OF neg(4)] clean_scan_neg [OF Cons.prems(2) neg(2,3)] neg(1) show ?thesis by auto
  next
    case pos
    from Cons.IH [OF pos(6) clean_scan_pos [OF Cons.prems(2) pos(1-5)]] show ?thesis by auto
  qed
qed (auto simp: clean_scan_def)

lemma or_normal_set: "or_normal bs \<Longrightarrow> mset cs = mset bs \<Longrightarrow> or_normal cs"
  using mset_eq_setD [of cs bs] mset_eq_imp_distinct_iff [of cs bs] by (simp add: or_normal_def list_all_iff)

definition normal_or :: "expr list \<Rightarrow> expr \<Rightarrow> bool" where
  "normal_or args r \<longleftrightarrow> r = m_true \<or> r = m_false \<or> r \<in> set args \<or>
     (\<exists>bs. r = m_mk_or bs \<and> 2 \<le> length bs \<and> set bs \<subseteq> set args \<and> or_normal bs)"

lemma mk_nflat_or_normal:
  assumes "\<not> m_local_ctx rw" "mset args = mset as"
  shows "normal_or as (br_result (fst (mk_nflat_or_core rw as)) (m_mk_or args))"
proof (cases "or_scan rw as {} {} None False []")
  case (Some p)
  then obtain s buffer where b: "or_scan rw as {} {} None False [] = Some (s, buffer)" by (cases p) auto
  note n = or_scan_normal [OF b clean_scan_Nil, simplified]
  show ?thesis
  proof (cases "2 \<le> length buffer")
    case True
    define bs where "bs = (if s then sort_key (m_get_id rw) buffer else args)"
    have "buffer = as" if "\<not> s" using that n by simp
    then have m: "mset bs = mset buffer" using assms(2) by (simp add: bs_def)
    from True obtain x y zs where xy: "buffer = x # y # zs" by (cases buffer; cases "tl buffer") auto
    have "br_result (fst (mk_nflat_or_core rw as)) (m_mk_or args) = m_mk_or bs"
      using assms(1) by (simp add: mk_nflat_or_core_def b xy bs_def)
    moreover have "2 \<le> length bs" "set bs \<subseteq> set as" "or_normal bs"
      using m n True mset_eq_length [OF m] mset_eq_setD [OF m] or_normal_set [OF _ m] by simp_all
    ultimately show ?thesis by (auto simp: normal_or_def)
  next
    case False
    then consider "buffer = []" | x where "buffer = [x]" by (cases buffer; cases "tl buffer") auto
    then show ?thesis using n by cases (simp_all add: mk_nflat_or_core_def b normal_or_def)
  qed
qed (auto simp: mk_nflat_or_core_def normal_or_def)

definition or_args :: "bool_rewriter \<Rightarrow> expr list \<Rightarrow> expr list" where
  "or_args rw args = (if m_flat rw then concat (map (\<lambda>a. if is_or a then get_args a else [a]) args) else args)"

lemma concat_no_or: "\<not> list_ex is_or args \<Longrightarrow> concat (map (\<lambda>a. if is_or a then get_args a else [a]) args) = args"
  by (induction args) auto

text \<open>
  C22. Without local context simplification a disjunction is brought to normal form: the result of
  \<open>mk_or\<close> is a constant, one of the (flattened) arguments, or a disjunction of at least two
  of them without constants, repetitions and complementary literals.
\<close>

theorem mk_or_normal:
  assumes "\<not> m_local_ctx rw"
  shows "fst (mk_or rw args) \<in> {m_true, m_false} \<union> set (or_args rw args) \<or>
    (\<exists>bs. fst (mk_or rw args) = m_mk_or bs \<and> 2 \<le> length bs \<and> set bs \<subseteq> set (or_args rw args) \<and> or_normal bs)"
proof -
  have "normal_or (or_args rw args) (fst (mk_or rw args))"
  proof (cases "m_flat rw \<and> list_ex is_or args")
    case True
    let ?f = "flat_or_scan rw (dropWhile (\<lambda>a. \<not> is_or a) args) None True (takeWhile (\<lambda>a. \<not> is_or a) args)"
    have f: "snd ?f = or_args rw args"
      using True by (simp add: flat_or_scan_args or_args_def flat_prefix)
    then obtain o' where fs: "?f = (o', or_args rw args)" by (metis prod.collapse)
    show ?thesis
      using True mk_nflat_or_normal [OF assms, of _ "or_args rw args"]
      by (simp add: mk_or_def mk_or_core_def mk_flat_or_core_def fs split_def Let_def)
  next
    case False
    then have "mk_or_core rw args = mk_nflat_or_core rw args" "or_args rw args = args"
      by (auto simp: mk_or_core_def mk_flat_or_core_def or_args_def concat_no_or)
    then show ?thesis using mk_nflat_or_normal [OF assms, of args args] by (simp add: mk_or_def split_def Let_def)
  qed
  then show ?thesis by (auto simp: normal_or_def)
qed

theorem mk_or_normal_witness:
  "fst (mk_or demo_rw demo_or) \<in> {m_true, m_false} \<union> set (or_args demo_rw demo_or) \<or>
    (\<exists>bs. fst (mk_or demo_rw demo_or) = m_mk_or bs \<and> 2 \<le> length bs \<and> set bs \<subseteq> set (or_args demo_rw demo_or) \<and> or_normal bs)"
proof -
  have "\<not> m_local_ctx demo_rw" by code_simp
  then show ?thesis by (rule mk_or_normal)
qed

end
