(* ===== verification/Spec2Isabelle.thy ===== *)
theory Spec2Isabelle
  imports Monitor_Ring Monitoring_Main Get_Data Blaster_Quant Bit_Blaster_Tactic Bv1_Sound Local_Context
begin

text \<open>
  \<^bold>\<open>Verification of the monitoring programs and of the solver code below them.\<close>

  \<^bold>\<open>The program.\<close> The repository holds three programs of its own and a vendored copy of the
  solver Z3. \<open>src/get_data.cpp\<close> exports the tables of a sensor database to text files.
  \<open>src/main.cpp\<close> reads these files, sets up one monitor per pair of a switch and a light of a
  room and a central monitor of all devices, cuts the traces into segments, asks the solver
  about every segment and lets the monitors exchange their verdicts. \<open>src/monitor.cpp\<close> is an
  earlier program: monitors in a ring that evaluate subformulas and pass their verdicts on.
  Of the solver the development covers what the queries of \<open>solveSMT\<close>, formulas over
  bit-vectors, are turned into: the tactic that replaces the bit-vectors of a goal by their bits
  and converts the models back, the rewriter it uses, the circuits this rewriter builds, and the
  boolean rewriter that builds their gates; beside it the second tactic on bit-vectors, which
  splits them into bit-vectors of one bit.

  \<^bold>\<open>The theories.\<close>
  \<^item> \<open>Prelude\<close>: faults, results, checked access to vectors, loops with faults.
  \<^item> \<open>Verdict_Exchange\<close>: the abstract exchange of verdicts (\<open>gossip\<close>) and the locale of the
    monitors that implement it; interpreted for both classes \<open>Monitor\<close>.
  \<^item> \<open>Monitor_Ring\<close>: the whole of \<open>monitor.cpp\<close>. The monitors are records in a list, the
    store the pointers of \<open>network\<close> point into.
  \<^item> \<open>Cpp_Strings\<close>, \<open>Trace_Monitor\<close>: the class \<open>Monitor\<close> of \<open>main.cpp\<close>, its fields with the
    sizes of their arrays, \<open>readFile\<close>, \<open>readSegTrace\<close>, \<open>ShareVerdict\<close>. Accesses out of
    bounds are the fault \<open>Out_Of_Range\<close>.
  \<^item> \<open>Smt_Query\<close>: the assertions of \<open>solveSMT\<close> and their meaning; the solver's \<open>check\<close> is a
    parameter, assumed to be sound where a theorem needs it.
  \<^item> \<open>Monitoring_Main\<close>: \<open>main\<close> of \<open>main.cpp\<close>. The loop over the segments is a
    \<open>partial_function\<close>, shown to return.
  \<^item> \<open>Get_Data\<close>: \<open>main\<close> of \<open>get_data.cpp\<close>; the MySQL client is a parameter.
  \<^item> \<open>Ast\<close>: the terms the rewriter works on, the recognizers and constructors of
    \<open>ast_manager\<close> and the plugins' tests for values and distinct terms, with an evaluation in
    interpretations.
  \<^item> \<open>Bool_Rewriter\<close>, \<open>Bool_Rewriter_Sound\<close>, \<open>Rewriter_Ops\<close>, \<open>Local_Context\<close>: \<open>bool_rewriter\<close>
    operation by operation, the soundness of each, and the end of the loop of
    \<open>local_ctx_simp\<close>.
  \<^item> \<open>Bit_Blaster\<close>, \<open>Bit_Values\<close>, \<open>Circuits\<close>, \<open>Circuits_Div\<close>, \<open>Circuits_Shift\<close>: the circuits of
    \<open>bit_blaster_tpl_def.h\<close> over a record of gates, and, in the locale \<open>gates\<close>, the numbers
    they compute from the laws of the gates.
  \<^item> \<open>Bit_Blaster_Cfg\<close>, \<open>Blasted_Circuits\<close>: the gates of \<open>bit_blaster.cpp\<close>, built by the
    rewriter, as an interpretation of \<open>gates\<close>, and the resulting theorems about the terms.
  \<^item> \<open>Rewriter_Engine\<close>: the engine of rewriter_def.h that both rewriters below run in, over the
    configuration they provide, with the folding of if-then-else under constant conditions
    when no proofs are generated; the operators it reaches and when it fails.
  \<^item> \<open>Blaster_Rewriter\<close>: \<open>bit_blaster_rewriter.cpp\<close>, its gates, its state with the scopes, every
    case of \<open>reduce_app\<close>, and the bindings of quantified variables.
  \<^item> \<open>Blaster_Ops\<close>, \<open>Blaster_Bindings\<close>, \<open>Blaster_Sound\<close>, \<open>Blaster_Quant\<close>: the gates of that
    rewriter as a second interpretation of \<open>gates\<close>, every replaced operation, the bits of
    bound variables, the states it can be in with their invariant, and the theorems about
    whole terms and quantifiers.
  \<^item> \<open>Goal\<close>, \<open>Goal_Sound\<close>: the goals of \<open>goal.cpp\<close>, lists of formulas with their dependencies;
    asserting, updating, compaction and comparison, and what they mean for the conjunction
    of the formulas.
  \<^item> \<open>Model_Converter\<close>: the models and the converter of \<open>bit_blaster_model_converter.cpp\<close> for both
    encodings.
  \<^item> \<open>Goal_Rewriting\<close>: the locale \<open>goal_rewriter\<close> of the rewriters that keep a table from constants
    to their bits, and what replacing the formulas of a goal one after the other does to it.
  \<^item> \<open>Bit_Blaster_Tactic\<close>: the tactic of \<open>bit_blaster_tactic.cpp\<close> that rewrites a goal and adds the
    converter, with an interpretation of \<open>goal_rewriter\<close>.
  \<^item> \<open>Bv1_Blaster\<close>, \<open>Bv1_Sound\<close>: the tactic of \<open>bv1_blaster_tactic.cpp\<close>, its rewriter with every case
    of its \<open>reduce_app\<close>, the second interpretation of \<open>goal_rewriter\<close> and its correctness.

  \<^bold>\<open>What is shown.\<close> For the ring: evaluation and two rounds of sharing give every monitor the
  conjunction of all values, and any sequence of sharings refines the abstract exchange. For the
  trace monitor: which files and segments are stored, which pairs are recorded, exactly when the
  arrays overflow, what the query means and what it answers. For \<open>main\<close>: setup, exchange,
  the end of all loops, and in this theory the way from a trace to the mark of a monitor and the
  complete run over a room of one switch and one light. For the
  export: the files written, and that the monitor reads back what was exported. For the
  rewriter: every rewriting step keeps sort and value of a term, in every configuration, and
  disjunctions end in normal form. For the bit-blaster: every circuit computes its operation in
  two's complement, at every width. For the bit-blasting rewriter: sorts and values are kept,
  assertions stay satisfiable or unsatisfiable, scopes restore the state, quantifiers over
  bit-vectors become equivalent ones over booleans, and the operators it fails on. For the goals:
  asserting and updating change the conjunction of the formulas as they should, compaction keeps
  it. For the two tactics: they return on goals of supported operators, the new goal is
  equisatisfiable and its models are converted to models of the original one; the tactic on
  single bits throws on all other goals.

  \<^bold>\<open>Bounds and fuel.\<close> \<open>int\<close> is unbounded where the code does not come near its limits;
  \<open>solveSMT\<close> is analysed up to 31 events, where \<open>(int)pow(2, k)\<close> is exact. The only
  fuel is that of \<open>local_ctx_loop\<close>; \<open>local_ctx_fuel\<close> rounds are shown to suffice. The cost
  counter and the thresholds of the rewriter are 32 bit words and wrap.

  \<^bold>\<open>Not modelled.\<close> The times \<open>main\<close> measures and prints and the two statistics functions
  that nothing calls; the rest of the solver (search, other theories, parsers, API), which the
  programs use through \<open>check\<close> only; of the goals the proofs, the proof and dependency
  converters, printing and translation to another manager; reference counting, hash consing, proofs and the limits
  on memory and steps of the bit-blaster; the stack and the cache of the engine \<open>rewriter_tpl\<close>,
  which is a recursion over terms without quantifiers here (the cache only saves repeated work
  while the tables last, and the tactics clear it with them); the weight and the
  identifiers of quantifiers; the order of terms by ids and by \<open>lt\<close>, which are arbitrary
  functions of the rewriter here and influence the order of arguments only.
\<close>

section \<open>What a monitor observes\<close>

lemma upto_map_int: "[0..int n - 1] = map int [0..<n]"
proof (induction n)
  case (Suc n)
  then show ?case by (simp add: upto_rec2 [of 0 "int n"])
qed simp

lemma totNumEvents_segment:
  assumes "segment_of segs (length segs) m" "[0..numProcess m - 1] = map int [0..<length segs]" "length segs \<le> 10"
  shows "totNumEvents m = Inr (int (sum_list (map length segs)))"
proof -
  have n: "length (numEvent m) = 10" "\<And>i. i < length segs \<Longrightarrow> numEvent m ! i = int (length (segs ! i))"
    using assms(1) by (auto simp: segment_of_def buffers_ok_def has_segment_def)
  have "k \<le> length segs \<Longrightarrow> rfold (\<lambda>i s. rbind (aget (numEvent m) i) (\<lambda>k. Inr (s + k))) (map int [0..<k]) 0 =
      Inr (int (sum_list (take k (map length segs))))" for k
  proof (induction k)
    case (Suc k)
    with n assms(3) show ?case by (simp add: rfold_append aget_def take_Suc_conv_app_nth)
  qed simp
  from this [of "length segs"] assms(2) show ?thesis by (simp add: totNumEvents_def del: rfold_map)
qed

lemma observe_segment:
  assumes trace: "holds_trace ps m" "buffers_ok m" "hb_ok m" and w: "length (butlast ps) \<le> 10" "0 \<le> fin"
    and vm: "verdicts_mod m \<noteq> []"
    and segs: "segs = map (Trace_Monitor.slice (nat (max (start - eps) 0)) (nat fin)) (butlast ps)"
    and hb: "hb = known_pairs m @ hb_pairs eps (map length segs)" "length hb \<le> length (hbSet m)"
    and N: "N = sum_list (map length segs)" "N \<le> 31" "proper_pairs N hb"
    and solver: "solver_sound check" "check N (order_assertions (int N) @ hb_list hb) \<noteq> unknown"
  shows "if N = 0 then observe check start fin eps m = Inl Solver_Exception
    else \<exists>m'. observe check start fin eps m = Inr m' \<and> segment_of segs (length segs) m' \<and> known_pairs m' = hb \<and>
      holds_trace ps m' \<and> buffers_ok m' \<and> hb_ok m' \<and> length (hbSet m') = length (hbSet m) \<and>
      verdicts m' = verdicts m \<and> verdicts_mod m' = (verdicts_mod m)[0 := \<exists>g. cut_path N hb g]"
proof -
  obtain m1 where m1: "same_source m m1" "segment_of segs (length segs) m1"
    "readSegTrace start fin eps m = push_hb m1 (hb_pairs eps (map length segs))"
    using readSegTrace_push [OF trace w segs] by blast
  have e: "hbSet m1 = hbSet m" "numHbSet m1 = numHbSet m" "hb_ok m1"
    using m1(1) trace(3) by (auto simp: same_source_def hb_ok_def)
  have l: "length hb = nat (numHbSet m) + length (hb_pairs eps (map length segs))"
    using trace(3) by (simp add: hb(1) known_pairs_def hb_ok_def)
  with hb(2) e obtain m2 where m2: "push_hb m1 (hb_pairs eps (map length segs)) = Inr m2"
    by (auto simp: push_hb_def Let_def)
  note p = push_hb_prefix [OF e(3) m2]
  have s2: "same_source m (m2\<lparr>hbSet := hbSet m, numHbSet := numHbSet m\<rparr>)" "length (hbSet m2) = length (hbSet m)"
    "segment_of segs (length segs) m2" "known_pairs m2 = hb" "hb_ok m2"
    using m1(1,2) m2 p e push_hb_segment [OF m2] l hb by (auto simp: same_source_def push_hb_def Let_def known_pairs_def hb_ok_def split: if_splits)
  have np: "[0..numProcess m2 - 1] = map int [0..<length segs]"
    using s2(1) trace(1) upto_map_int [of "length segs"]
    by (cases "ps = []") (auto simp: same_source_def holds_trace_def segs of_nat_diff Suc_le_eq)
  have "totNumEvents m2 = Inr (int N)"
    unfolding N(1) using totNumEvents_segment [OF s2(3) np] w(1) by (simp add: segs)
  then have q: "query_ok N m2" if "N \<noteq> 0"
    using that N(2,3) s2(4,5) by (auto simp: query_ok_def hb_ok_def)
  have r: "readSegTrace start fin eps m = Inr m2" using m1(3) m2 by simp
  have vm2: "verdicts_mod m2 = verdicts_mod m" "verdicts m2 = verdicts m" using s2(1) by (auto simp: same_source_def)
  let ?m' = "m2\<lparr>verdicts_mod := (verdicts_mod m)[0 := \<exists>g. cut_path N hb g]\<rparr>"
  show ?thesis
  proof (cases "N = 0")
    case True
    with \<open>totNumEvents m2 = Inr (int N)\<close> r show ?thesis by (simp add: observe_def solveSMT_def)
  next
    case False
    with solver_says [OF q [OF False] solver(1)] solver(2) s2(4) have "solveSMT check m2 = Inr (\<exists>g. cut_path N hb g)" by simp
    then have "observe check start fin eps m = Inr ?m'" using r vm vm2 by (simp add: observe_def)
    moreover have "segment_of segs (length segs) ?m'" "known_pairs ?m' = hb" "buffers_ok ?m'" "hb_ok ?m'"
      "length (hbSet ?m') = length (hbSet m)" "verdicts ?m' = verdicts m"
      using s2 vm2 by (auto simp: segment_of_def has_segment_def buffers_ok_def known_pairs_def hb_ok_def)
    moreover have "holds_trace ps ?m'"
      using s2(1) trace(1) by (auto simp: same_source_def holds_trace_def)
    ultimately show ?thesis using False by auto
  qed
qed

lemma hb_pairs_proper: "proper_pairs (sum_list ns) (hb_pairs eps ns)"
proof -
  have "1 \<le> a \<and> a \<le> int (sum_list ns) \<and> 1 \<le> b \<and> b \<le> int (sum_list ns)" if "(a, b) \<in> set (hb_pairs eps ns)" for a b
    using that event_number_inj_bound [of _ ns] unfolding hb_pairs_iff by fastforce
  then show ?thesis by (auto simp: proper_pairs_def)
qed

lemma hb_pairs_single: "hb_pairs eps [k] = []"
  by (simp add: hb_pairs_def)

text \<open>The monitor of the example room.\<close>

definition office_lines :: "string list" where
  "office_lines = [''officeswitch_1'', ''1'', ''officelight_1'', ''0'', ''1'']"

lemma office_trace: "foldl add_line [] office_lines = [[''1''], [''0'', ''1'']]"
  by code_simp

lemma office_ready: "\<exists>m. ready 1 office_lines m"
proof -
  have "central_lines demo_files ''office'' 1 1 = office_lines" by code_simp
  with setup_room_total [of "''office''" demo_entries 1 1 demo_files 7] demo_setup show ?thesis by auto
qed

text \<open>
  C18. From the trace to the verdict: a monitor as it is set up reads the segment, asks the solver
  and marks whether there is a path of cuts closed under the happened-before pairs of the
  segment. The verdicts themselves stay as they are.
\<close>

theorem observe_first_segment:
  assumes "ready n ls m" "0 < n" "length (butlast (foldl add_line [] ls)) \<le> 10" "0 \<le> fin"
    and segs: "segs = map (Trace_Monitor.slice (nat (max (start - eps) 0)) (nat fin)) (butlast (foldl add_line [] ls))"
    and hb: "length (hb_pairs eps (map length segs)) \<le> 50"
    and N: "N = sum_list (map length segs)" "0 < N" "N \<le> 31"
    and solver: "solver_sound check" "check N (order_assertions (int N) @ hb_list (hb_pairs eps (map length segs))) \<noteq> unknown"
  shows "\<exists>m'. observe check start fin eps m = Inr m' \<and> segment_of segs (length segs) m' \<and>
    verdicts m' = replicate n False \<and>
    verdicts_mod m' = (replicate n False)[0 := \<exists>g. cut_path N (hb_pairs eps (map length segs)) g]"
proof -
  have k: "known_pairs m = []" "hb_ok m" "length (hbSet m) = 50" "verdicts_mod m \<noteq> []"
    "verdicts m = replicate n False" "verdicts_mod m = replicate n False" "holds_trace (foldl add_line [] ls) m" "buffers_ok m"
    using assms(1,2) by (auto simp: ready_def known_pairs_def hb_ok_def)
  have "hb_pairs eps (map length segs) = known_pairs m @ hb_pairs eps (map length segs)"
    "length (hb_pairs eps (map length segs)) \<le> length (hbSet m)" "proper_pairs N (hb_pairs eps (map length segs))"
    using k(1,3) hb hb_pairs_proper [of "map length segs" eps] N(1) by simp_all
  from observe_segment [OF k(7,8,2) assms(3,4) k(4) segs this(1,2) N(1,3) this(3) solver] N(2) k(5,6)
  show ?thesis by auto
qed

theorem observe_first_segment_witness:
  "\<exists>m m'. ready 1 office_lines m \<and> observe ideal_check 0 4 0 m = Inr m' \<and> verdicts_mod m' = [\<exists>g. cut_path 1 [] g]"
proof -
  obtain m where m: "ready 1 office_lines m" using office_ready by blast
  have s: "[[''1'']] = map (Trace_Monitor.slice (nat (max (0 - 0) 0)) (nat 4)) (butlast (foldl add_line [] office_lines))"
    by (simp add: office_trace Trace_Monitor.slice_def)
  have "\<exists>m'. observe ideal_check 0 4 0 m = Inr m' \<and> segment_of [[''1'']] (length [[''1'']]) m' \<and> verdicts m' = replicate 1 False \<and>
      verdicts_mod m' = (replicate 1 False)[0 := \<exists>g. cut_path 1 (hb_pairs 0 (map length [[''1'']])) g]"
    by (rule observe_first_segment [OF m _ _ _ s]) (simp_all add: office_trace hb_pairs_single ideal_check_facts)
  with m show ?thesis by (auto simp: hb_pairs_single)
qed

section \<open>The monitor of a pair of devices\<close>

definition watches :: "string list \<Rightarrow> trace_monitor \<Rightarrow> bool" where
  \<comment> \<open>a monitor that has read one process of the first device and one of the second\<close>
  "watches sw m \<longleftrightarrow> (\<exists>li. holds_trace [sw, li] m) \<and> buffers_ok m \<and> numHbSet m = 0 \<and> verdicts_mod m \<noteq> []"

text \<open>Such a monitor at one segment.\<close>

lemma pair_observe:
  assumes "watches sw m" "0 \<le> fin" "fin \<le> max (start - eps) 0 + 31"
    and N: "N = length (Trace_Monitor.slice (nat (max (start - eps) 0)) (nat fin) sw)"
    and solver: "solver_sound check" "check N (order_assertions (int N)) \<noteq> unknown"
  shows "if N = 0 then observe check start fin eps m = Inl Solver_Exception
    else \<exists>m'. observe check start fin eps m = Inr m' \<and> watches sw m' \<and>
      verdicts_mod m' = (verdicts_mod m)[0 := (N = 2 \<or> 4 \<le> N)]"
proof -
  obtain li where w: "holds_trace [sw, li] m" "buffers_ok m" "numHbSet m = 0" "verdicts_mod m \<noteq> []"
    using assms(1) by (auto simp: watches_def)
  then have k: "known_pairs m = []" "hb_ok m" by (simp_all add: known_pairs_def hb_ok_def)
  define segs where "segs = map (Trace_Monitor.slice (nat (max (start - eps) 0)) (nat fin)) (butlast [sw, li])"
  have s: "map length segs = [N]" by (simp add: segs_def N)
  have N31: "N \<le> 31" using assms(2,3) unfolding N Trace_Monitor.length_slice by linarith
  have "[] = known_pairs m @ hb_pairs eps (map length segs)" "N = sum_list (map length segs)"
    by (simp_all add: k s hb_pairs_single)
  from observe_segment [OF w(1,2) k(2) _ assms(2) w(4) segs_def this(1) _ this(2) N31 _ solver(1)] solver(2) w(1,3,4)
    cut_path_empty_iff [of N]
  show ?thesis
    by (auto simp: hb_list_def proper_pairs_def watches_def known_pairs_def hb_ok_def split: if_splits)
qed

text \<open>
  C19. A monitor of two devices with one process each looks at the first one only, records no pair,
  and its mark after any segment says that the segment has two or at least four events of that
  device: the values of the trace do not matter. A segment without events raises an exception.
\<close>

theorem pair_monitor_counts:
  assumes "watches sw m" "0 \<le> fin" "fin \<le> max (start - eps) 0 + 31"
    and N: "N = length (Trace_Monitor.slice (nat (max (start - eps) 0)) (nat fin) sw)"
    and solver: "solver_sound check" "check N (order_assertions (int N)) \<noteq> unknown"
  shows "if N = 0 then observe check start fin eps m = Inl Solver_Exception
    else \<exists>m'. observe check start fin eps m = Inr m' \<and> watches sw m' \<and>
      verdicts_mod m' = (verdicts_mod m)[0 := (N = 2 \<or> 4 \<le> N)]"
  using assms by (rule pair_observe)

theorem pair_monitor_counts_witness:
  "\<exists>m m'. watches [''1''] m \<and> observe ideal_check 0 4 5 m = Inr m' \<and> watches [''1''] m' \<and> verdicts_mod m' = [False]"
proof -
  obtain m where m: "ready 1 office_lines m" using office_ready by blast
  then have w: "watches [''1''] m" "verdicts_mod m = [False]" by (auto simp: ready_def watches_def office_trace)
  have n: "1 = length (Trace_Monitor.slice (nat (max (0 - 5) 0)) (nat 4) [''1''])" by (simp add: Trace_Monitor.slice_def)
  from pair_monitor_counts [OF w(1) _ _ n ideal_check_facts] w show ?thesis by auto
qed

section \<open>Rooms with one switch and one light\<close>

definition pair_room :: "string list \<Rightarrow> room \<Rightarrow> bool" where
  "pair_room sw r \<longleftrightarrow> room_inv 1 (fst r) \<and> watches sw (fst r ! 0) \<and> watches sw (snd r) \<and> length (verdicts_mod (snd r)) = 1"

definition segment_mark :: "string list \<Rightarrow> int \<Rightarrow> int \<Rightarrow> bool" where
  \<comment> \<open>the mark after the segment from \<open>s\<close> on: it has two or at least four events\<close>
  "segment_mark sw eps s = (let N = length (Trace_Monitor.slice (nat (max (s - eps) 0)) (nat (s + segLength)) sw) in N = 2 \<or> 4 \<le> N)"

definition marked :: "bool \<Rightarrow> room \<Rightarrow> bool" where
  "marked v r \<longleftrightarrow> verdicts_mod (fst r ! 0) = [v] \<and> verdicts_mod (snd r) = [v]"

lemma pair_observes:
  assumes "watches sw m" "length (verdicts_mod m) = 1" and s: "0 \<le> s" "s < int (length sw)" "0 \<le> eps" "eps \<le> 27"
    and solver: "solver_sound check" "\<And>N. check N (order_assertions (int N)) \<noteq> unknown"
  shows "\<exists>m'. observe check s (s + segLength) eps m = Inr m' \<and> watches sw m' \<and> verdicts_mod m' = [segment_mark sw eps s]"
proof -
  let ?N = "length (Trace_Monitor.slice (nat (max (s - eps) 0)) (nat (s + segLength)) sw)"
  have N: "?N \<noteq> 0" using s unfolding Trace_Monitor.length_slice segLength_def by linarith
  have fin: "0 \<le> s + segLength" "s + segLength \<le> max (s - eps) 0 + 31" using s by (auto simp: segLength_def)
  obtain x where "verdicts_mod m = [x]" using assms(2) by (auto simp: length_Suc_conv)
  with pair_observe [OF assms(1) fin refl solver] N show ?thesis by (auto simp: segment_mark_def Let_def)
qed

lemma pair_round:
  assumes room: "pair_room sw r" and s: "0 \<le> s" "s < int (length sw)" "0 \<le> eps" "eps \<le> 27"
    and solver: "solver_sound check" "\<And>N. check N (order_assertions (int N)) \<noteq> unknown"
  shows "\<exists>r'. segment_round check 1 s (s + segLength) eps r = Inr r' \<and> pair_room sw r' \<and> marked (segment_mark sw eps s) r'"
proof -
  obtain ms c where r: "r = (ms, c)" by (cases r)
  have ms: "ms \<noteq> []" "num_monitors (ms ! 0) = 1" "length (verdicts (ms ! 0)) = 1" "length (verdicts_mod (ms ! 0)) = 1"
    "watches sw (ms ! 0)" "watches sw c" "length (verdicts_mod c) = 1"
    using room by (auto simp: pair_room_def room_inv_def r)
  obtain m' where m: "observe check s (s + segLength) eps (ms ! 0) = Inr m'" "watches sw m'" "verdicts_mod m' = [segment_mark sw eps s]"
    using pair_observes [OF ms(5,4) s solver] by blast
  obtain c' where c: "observe check s (s + segLength) eps c = Inr c'" "watches sw c'" "verdicts_mod c' = [segment_mark sw eps s]"
    using pair_observes [OF ms(6,7) s solver] by blast
  have "observe_all check 1 s (s + segLength) eps ms = Inr (ms[0 := m'])"
    using ms(1) m(1) by (simp add: observe_all_def vget_def vset_def)
  moreover have "share_all 1 xs = Inr xs" for xs by (simp add: share_all_def)
  ultimately have "segment_round check 1 s (s + segLength) eps r = Inr (ms[0 := m'], c')"
    using c(1) by (simp add: segment_round_def r)
  moreover have "room_inv 1 (ms[0 := m'])"
    using room ms(1-4) m(3) observe_keeps(2,3) [OF m(1)] by (simp add: pair_room_def room_inv_def r)
  ultimately show ?thesis using ms(1) m(2,3) c(2,3) by (simp add: pair_room_def marked_def)
qed

lemma pair_loop:
  assumes "pair_room sw r" "0 \<le> fin" and eps: "0 \<le> eps" "eps \<le> 27"
    and solver: "solver_sound check" "\<And>N. check N (order_assertions (int N)) \<noteq> unknown"
  shows "\<exists>r'. segment_loop check 1 eps fin r = Some (Inr r') \<and> pair_room sw r' \<and>
    (fin < int (length sw) \<longrightarrow> marked (segment_mark sw eps (fin + 4 * ((int (length sw) - 1 - fin) div 4))) r')"
  using assms(1,2)
proof (induction "nat (int (length sw) - fin)" arbitrary: fin r rule: less_induct)
  case less
  obtain li where "holds_trace [sw, li] (snd r)" using less.prems(1) by (auto simp: pair_room_def watches_def)
  then have ev: "aget (numEventAll (snd r)) 0 = Inr (int (length sw))" by (auto simp: holds_trace_def aget_def vget_def)
  show ?case
  proof (cases "fin < int (length sw)")
    case False
    with ev less.prems show ?thesis by (subst segment_loop.simps) simp
  next
    case True
    obtain r1 where r1: "segment_round check 1 fin (fin + segLength) eps r = Inr r1" "pair_room sw r1" "marked (segment_mark sw eps fin) r1"
      using pair_round [OF less.prems True eps solver] by blast
    have step: "segment_loop check 1 eps fin r = segment_loop check 1 eps (fin + segLength) r1"
      using ev True r1(1) by (subst segment_loop.simps) simp
    have "nat (int (length sw) - (fin + segLength)) < nat (int (length sw) - fin)" using True by (simp add: segLength_def)
    from less.hyps [OF this r1(2)] less.prems(2) obtain r' where r': "segment_loop check 1 eps (fin + segLength) r1 = Some (Inr r')" "pair_room sw r'"
      "fin + segLength < int (length sw) \<Longrightarrow> marked (segment_mark sw eps (fin + segLength + 4 * ((int (length sw) - 1 - (fin + segLength)) div 4))) r'"
      by (auto simp: segLength_def)
    have "marked (segment_mark sw eps (fin + 4 * ((int (length sw) - 1 - fin) div 4))) r'"
    proof (cases "fin + segLength < int (length sw)")
      case True
      have "fin + segLength + 4 * ((int (length sw) - 1 - (fin + segLength)) div 4) = fin + 4 * ((int (length sw) - 1 - fin) div 4)"
        unfolding segLength_def by presburger
      with r'(3) [OF True] show ?thesis by simp
    next
      case False
      have "numEventAll (snd r1) = numEventAll (snd r)" using segment_round_total_events [OF r1(1)] .
      with ev have "segment_loop check 1 eps (fin + segLength) r1 = Some (Inr r1)" using False by (subst segment_loop.simps) simp
      moreover have "(int (length sw) - 1 - fin) div 4 = 0" using True False by (simp add: segLength_def)
      ultimately show ?thesis using r1(3) r'(1) by simp
    qed
    then show ?thesis using step r'(1,2) by (intro exI [of _ r']) simp
  qed
qed

lemma loop_or_fault_invariant:
  assumes "P s" "\<And>x s. x \<in> set xs \<Longrightarrow> P s \<Longrightarrow> \<exists>s'. f x s = Some (Inr s') \<and> P s'"
  shows "\<exists>s'. loop_or_fault f xs s = Some (Inr s') \<and> P s'"
  using assms by (induction xs arbitrary: s) (auto, metis option.simps(5) sum.simps(6))

lemma pair_setup:
  assumes "count_devices path listing = (1, 1)" "fits [] (pair_lines fs path (1, 1))"
    and "foldl add_line [] (pair_lines fs path (1, 1)) = [sw, li]"
  shows "\<exists>ms c. setup_room fs listing junk path = Inr (1, ms, c) \<and> pair_room sw (ms, c) \<and> marked False (ms, c)"
proof -
  have one: "central_lines fs path 1 1 = pair_lines fs path (1, 1)"
    by (simp add: central_lines_def device_pairs_def central_part_def pair_lines_def)
  obtain ms c where "setup_room fs listing junk path = Inr (1, ms, c)" "ready 1 (pair_lines fs path (1, 1)) c"
    "ready 1 (pair_lines fs path (1, 1)) (ms ! 0)" "room_inv 1 ms"
    using setup_room_total [of path listing 1 1 fs junk] assms(1,2) one by auto
  then show ?thesis using assms(3) by (auto simp: ready_def pair_room_def watches_def marked_def)
qed

text \<open>
  C17. A room with one switch and one light, whose files hold one process each and fit, is
  processed without a fault with every solver that is sound and decides the queries: after the
  setup the segment loop returns for each \<open>eps\<close> that \<open>main\<close> uses, both monitors are then marked
  exactly if the last segment, with the events \<open>eps\<close> before it, has two or at least four events
  of the switch, and the iteration of \<open>main\<close> over the room prints its name and a line for each
  \<open>eps\<close>.
\<close>

theorem pair_room_runs:
  assumes "count_devices path listing = (1, 1)" "fits [] (pair_lines fs path (1, 1))"
    and "foldl add_line [] (pair_lines fs path (1, 1)) = [sw, li]" "sw \<noteq> []"
    and solver: "solver_sound check" "\<forall>N. check N (order_assertions (int N)) \<noteq> unknown"
  shows "(\<exists>ms c. setup_room fs listing junk path = Inr (1, ms, c) \<and>
      (\<forall>eps. 0 \<le> eps \<and> eps \<le> 5 \<longrightarrow> (\<exists>ms' c'. segment_loop check 1 eps 0 (ms, c) = Some (Inr (ms', c')) \<and>
        (let s = 4 * ((int (length sw) - 1) div 4); N = int (length sw) - max (s - eps) 0
         in verdicts_mod (ms' ! 0) = [N = 2 \<or> 4 \<le> N] \<and> verdicts_mod c' = [N = 2 \<or> 4 \<le> N])))) \<and>
    run_room check fs listing junk path out = Some (Inr (out @ path # map eps_line [0..5]))"
proof -
  have decides: "check N (order_assertions (int N)) \<noteq> unknown" for N using solver(2) by blast
  obtain ms c where r: "setup_room fs listing junk path = Inr (1, ms, c)" "pair_room sw (ms, c)"
    using pair_setup [OF assms(1-3)] by blast
  have mark: "segment_mark sw eps s \<longleftrightarrow> (let N = int (length sw) - max (s - eps) 0 in N = 2 \<or> 4 \<le> N)"
    if "0 \<le> eps" "s = 4 * ((int (length sw) - 1) div 4)" for eps s
  proof -
    have "0 \<le> s" "s < int (length sw)" "int (length sw) \<le> s + 4" using assms(4) unfolding that(2) by (cases sw; simp; linarith)+
    then have "int (length (Trace_Monitor.slice (nat (max (s - eps) 0)) (nat (s + segLength)) sw)) = int (length sw) - max (s - eps) 0"
      using that(1) unfolding Trace_Monitor.length_slice segLength_def by linarith
    then show ?thesis unfolding segment_mark_def Let_def by linarith
  qed
  have loop: "\<exists>r'. segment_loop check 1 eps 0 r = Some (Inr r') \<and> pair_room sw r' \<and>
      marked (segment_mark sw eps (4 * ((int (length sw) - 1) div 4))) r'"
    if "pair_room sw r" "0 \<le> eps" "eps \<le> 5" for eps r
    using pair_loop [OF that(1) order_refl that(2) _ solver(1) decides] that(3) assms(4) by simp
  have marks: "\<exists>ms' c'. segment_loop check 1 eps 0 (ms, c) = Some (Inr (ms', c')) \<and>
        (let s = 4 * ((int (length sw) - 1) div 4); N = int (length sw) - max (s - eps) 0
         in verdicts_mod (ms' ! 0) = [N = 2 \<or> 4 \<le> N] \<and> verdicts_mod c' = [N = 2 \<or> 4 \<le> N])"
    if e: "0 \<le> eps" "eps \<le> 5" for eps
  proof -
    obtain ms' c' where "segment_loop check 1 eps 0 (ms, c) = Some (Inr (ms', c'))"
      "marked (segment_mark sw eps (4 * ((int (length sw) - 1) div 4))) (ms', c')"
      using loop [OF r(2) e] by auto
    with mark [OF e(1) refl] show ?thesis by (auto simp: marked_def Let_def)
  qed
  let ?f = "\<lambda>eps (out, r). map_option (map_sum id (\<lambda>r'. (out @ [eps_line eps], r'))) (segment_loop check (nat 1) eps 0 r)"
  have "\<exists>s'. loop_or_fault ?f [0..5] (out @ [path], ms, c) = Some (Inr s') \<and> pair_room sw (snd s')"
  proof (rule loop_or_fault_invariant)
    fix x :: int and s :: "string list \<times> room"
    assume "x \<in> set [0..5::int]" "pair_room sw (snd s)"
    then obtain r' where "segment_loop check 1 x 0 (snd s) = Some (Inr r')" "pair_room sw r'" using loop [of "snd s" x] by auto
    then show "\<exists>s'. ?f x s = Some (Inr s') \<and> pair_room sw (snd s')" by (cases s) auto
  qed (use r(2) in simp)
  then have "\<exists>out'. run_room check fs listing junk path out = Some (Inr out')"
    using r(1) by (auto simp: run_room_def simp del: upto_rec_numeral)
  with run_room_total [of check fs listing junk path out] have "run_room check fs listing junk path out = Some (Inr (out @ path # map eps_line [0..5]))"
    by auto
  with r(1) marks show ?thesis by blast
qed

theorem pair_room_runs_witness:
  "run_room ideal_check demo_files demo_entries 7 ''office'' [] = Some (Inr (''office'' # map eps_line [0..5])) \<and>
   (\<exists>ms c ms' c'. setup_room demo_files demo_entries 7 ''office'' = Inr (1, ms, c) \<and>
     segment_loop ideal_check 1 3 0 (ms, c) = Some (Inr (ms', c')) \<and> verdicts_mod c' = [False])"
proof -
  have lines: "foldl add_line [] (pair_lines demo_files ''office'' (1, 1)) = [[''1''], [''0'', ''1'']]" by code_simp
  have decides: "\<forall>N. ideal_check N (order_assertions (int N)) \<noteq> unknown" using ideal_check_facts(2) by blast
  note p = pair_room_runs [OF demo_setup(1,2) lines _ ideal_check_facts(1) decides, of 7 "[]"]
  then obtain ms c where r: "setup_room demo_files demo_entries 7 ''office'' = Inr (1, ms, c)"
    and l: "\<And>eps. 0 \<le> eps \<Longrightarrow> eps \<le> 5 \<Longrightarrow> \<exists>ms' c'. segment_loop ideal_check 1 eps 0 (ms, c) = Some (Inr (ms', c')) \<and> verdicts_mod c' = [False]"
    by (auto simp: Let_def) blast
  from l [of 3] r p show ?thesis by auto
qed

end
